(* ===== verification/Prelude.thy ===== *)
theory Prelude
  imports Main "HOL-Library.Word"
begin

text \<open>
  Shared vocabulary of the development: machine integers, byte buffers, offset ranges, the
  result type that carries the program's errors and panics, and the generic lemmas that the
  component theories use.

  Conventions.
  \<^item> A Rust \<^verbatim>\<open>&[u8]\<close>, \<^verbatim>\<open>Bytes\<close>, \<^verbatim>\<open>Vec<u8>\<close> or \<^verbatim>\<open>String\<close> is the list of its bytes;
  a string literal of the source is \<open>bytes ''...''\<close>.
  \<^item> \<^verbatim>\<open>usize\<close> offsets and lengths are \<open>nat\<close>
  on a 64-bit target; the checked and saturating operations of the source are written out.
  \<^item> \<^verbatim>\<open>u8\<close>, \<^verbatim>\<open>u32\<close>, \<^verbatim>\<open>u64\<close> and \<^verbatim>\<open>i32\<close> are words.
  \<^item> A fallible operation returns \<open>Ok\<close>, \<open>Err\<close> or
  \<open>Panic\<close>; \<open>Panic\<close> stands for an unwinding panic (an index or a slice out of range).
\<close>

unbundle bit_operations_syntax

named_theorems result_simps \<open>equations for the result type\<close>

section \<open>Machine integers and bytes\<close>

type_synonym u8 = "8 word"
type_synonym u16 = "16 word"
type_synonym u32 = "32 word"
type_synonym u64 = "64 word"
type_synonym i32 = "32 word"

text \<open>A string literal as its bytes (the literals of the source are ASCII).\<close>

definition bytes :: "string \<Rightarrow> u8 list" where
  "bytes s = map of_char s"

lemma bytes_simps [simp]:
  "bytes [] = []"
  "bytes (c # s) = of_char c # bytes s"
  by (simp_all add: bytes_def)

text \<open>\<^verbatim>\<open>usize::checked_add\<close> and \<^verbatim>\<open>u64::saturating_sub\<close>.\<close>

definition checked_add :: "nat \<Rightarrow> nat \<Rightarrow> nat option" where
  "checked_add a b = (if a + b < 2 ^ 64 then Some (a + b) else None)"

definition saturating_sub :: "u64 \<Rightarrow> u64 \<Rightarrow> u64" where
  "saturating_sub a b = (if a < b then 0 else a - b)"

lemma checked_add_Some: "checked_add a b = Some c \<longleftrightarrow> c = a + b \<and> a + b < 2 ^ 64"
  by (auto simp: checked_add_def)

lemma unat_saturating_sub: "unat (saturating_sub a b) = unat a - unat b"
  by (auto simp: saturating_sub_def word_less_nat_alt unat_sub_if')

section \<open>Results\<close>

datatype ('e, 'a) result = Ok 'a | Err 'e | Panic

text \<open>The \<^verbatim>\<open>?\<close> operator, and \<^verbatim>\<open>?\<close> through a \<^verbatim>\<open>From\<close> conversion of the error.\<close>

fun rbind :: "('e, 'a) result \<Rightarrow> ('a \<Rightarrow> ('e, 'b) result) \<Rightarrow> ('e, 'b) result" where
  "rbind (Ok x) f = f x"
| "rbind (Err e) f = Err e"
| "rbind Panic f = Panic"

fun map_err :: "('d \<Rightarrow> 'e) \<Rightarrow> ('d, 'a) result \<Rightarrow> ('e, 'a) result" where
  "map_err g (Ok x) = Ok x"
| "map_err g (Err e) = Err (g e)"
| "map_err g Panic = Panic"

fun is_Ok :: "('e, 'a) result \<Rightarrow> bool" where
  "is_Ok (Ok x) = True"
| "is_Ok (Err e) = False"
| "is_Ok Panic = False"

lemma rbind_cong [fundef_cong]:
  "r = r' \<Longrightarrow> (\<And>x. r' = Ok x \<Longrightarrow> f x = f' x) \<Longrightarrow> rbind r f = rbind r' f'"
  by (cases r') auto

text \<open>For evaluation by rewriting: a continuation is not touched before its argument is a value.\<close>

lemma rbind_cong_weak: "r = r' \<Longrightarrow> rbind r f = rbind r' f"
  by simp

lemma rbind_Ok_iff [result_simps]: "rbind r f = Ok y \<longleftrightarrow> (\<exists>x. r = Ok x \<and> f x = Ok y)"
  by (cases r) auto

lemma rbind_Panic_iff [result_simps]:
  "rbind r f = Panic \<longleftrightarrow> r = Panic \<or> (\<exists>x. r = Ok x \<and> f x = Panic)"
  by (cases r) auto

lemma rbind_Err_iff [result_simps]:
  "rbind r f = Err e \<longleftrightarrow> r = Err e \<or> (\<exists>x. r = Ok x \<and> f x = Err e)"
  by (cases r) auto

lemma map_err_iff [result_simps]:
  "map_err g r = Ok y \<longleftrightarrow> r = Ok y"
  "map_err g r = Panic \<longleftrightarrow> r = Panic"
  "map_err g r = Err e \<longleftrightarrow> (\<exists>d. r = Err d \<and> e = g d)"
  by (cases r; auto)+

lemma map_err_id [simp]: "map_err id r = r" "map_err (\<lambda>x. x) r = r"
  by (cases r; simp)+

lemma is_Ok_iff [result_simps]: "is_Ok r \<longleftrightarrow> (\<exists>x. r = Ok x)"
  by (cases r) auto

lemma rbind_assoc: "rbind (rbind r f) g = rbind r (\<lambda>x. rbind (f x) g)"
  by (cases r) auto

lemma option_eqI: "(\<And>x. p = Some x \<longleftrightarrow> q = Some x) \<Longrightarrow> p = q"
  by (cases p; cases q) auto

section \<open>Ranges of offsets and the views they denote\<close>

text \<open>\<^verbatim>\<open>std::ops::Range<usize>\<close>.\<close>

record brange =
  rstart :: nat
  rend :: nat

abbreviation rng :: "nat \<Rightarrow> nat \<Rightarrow> brange" where
  "rng a b \<equiv> \<lparr>rstart = a, rend = b\<rparr>"

text \<open>\<^verbatim>\<open>Range::len\<close> and \<^verbatim>\<open>Range::is_empty\<close>: an inverted range is empty and has length 0.\<close>

definition rlen :: "brange \<Rightarrow> nat" where
  "rlen r = rend r - rstart r"

definition rempty :: "brange \<Rightarrow> bool" where
  "rempty r \<longleftrightarrow> \<not> rstart r < rend r"

definition bslice :: "'a list \<Rightarrow> nat \<Rightarrow> nat \<Rightarrow> 'a list" where
  "bslice xs a b = take (b - a) (drop a xs)"

text \<open>The bytes a range denotes.\<close>

definition vw :: "u8 list \<Rightarrow> brange \<Rightarrow> u8 list" where
  "vw buf r = bslice buf (rstart r) (rend r)"

text \<open>\<^verbatim>\<open>buf.get(a..b)\<close>, \<^verbatim>\<open>buf[i]\<close> and \<^verbatim>\<open>Bytes::slice(a..b)\<close>.\<close>

definition buf_get :: "'a list \<Rightarrow> nat \<Rightarrow> nat \<Rightarrow> 'a list option" where
  "buf_get xs a b = (if a \<le> b \<and> b \<le> length xs then Some (bslice xs a b) else None)"

definition buf_index :: "'a list \<Rightarrow> nat \<Rightarrow> ('e, 'a) result" where
  "buf_index xs i = (if i < length xs then Ok (xs ! i) else Panic)"

definition buf_slice :: "'a list \<Rightarrow> nat \<Rightarrow> nat \<Rightarrow> ('e, 'a list) result" where
  "buf_slice xs a b = (if a \<le> b \<and> b \<le> length xs then Ok (bslice xs a b) else Panic)"

text \<open>A range that is a view: in order and inside a window.\<close>

definition in_window :: "nat \<Rightarrow> nat \<Rightarrow> brange \<Rightarrow> bool" where
  "in_window a b r \<longleftrightarrow> a \<le> rstart r \<and> rstart r \<le> rend r \<and> rend r \<le> b"

lemma in_window_mono: "in_window a b r \<Longrightarrow> a' \<le> a \<Longrightarrow> b \<le> b' \<Longrightarrow> in_window a' b' r"
  by (auto simp: in_window_def)

lemma length_bslice: "b \<le> length xs \<Longrightarrow> length (bslice xs a b) = b - a"
  by (simp add: bslice_def)

lemma bslice_empty [simp]: "b \<le> a \<Longrightarrow> bslice xs a b = []"
  by (simp add: bslice_def)

lemma bslice_whole [simp]: "bslice xs 0 (length xs) = xs"
  by (simp add: bslice_def)

lemma bslice_append:
  assumes "a \<le> b" "b \<le> c"
  shows "bslice xs a b @ bslice xs b c = bslice xs a c"
proof -
  have "drop b xs = drop (b - a) (drop a xs)" using assms by simp
  moreover have "take (c - a) ys = take (b - a) ys @ take (c - b) (drop (b - a) ys)" for ys :: "'a list"
    using assms take_add[of "b - a" "c - b" ys] by simp
  ultimately show ?thesis by (simp add: bslice_def)
qed

lemma bslice_Cons: "a < b \<Longrightarrow> b \<le> length xs \<Longrightarrow> bslice xs a b = xs ! a # bslice xs (Suc a) b"
  by (simp add: bslice_def Cons_nth_drop_Suc[symmetric] take_Cons')

lemma bslice_bslice:
  assumes "a \<le> c" "c \<le> d" "d \<le> b"
  shows "bslice (bslice xs a b) (c - a) (d - a) = bslice xs c d"
  using assms by (simp add: bslice_def drop_take)

lemma set_bslice_subset: "set (bslice xs a b) \<subseteq> set xs"
  unfolding bslice_def by (meson order.trans set_drop_subset set_take_subset)

lemma buf_get_Some: "buf_get xs a b = Some ys \<longleftrightarrow> a \<le> b \<and> b \<le> length xs \<and> ys = bslice xs a b"
  by (auto simp: buf_get_def)

lemma buf_slice_Ok [result_simps]:
  "buf_slice xs a b = Ok ys \<longleftrightarrow> a \<le> b \<and> b \<le> length xs \<and> ys = bslice xs a b"
  by (auto simp: buf_slice_def)

lemma buf_slice_not_Err [result_simps]: "buf_slice xs a b \<noteq> Err e"
  by (auto simp: buf_slice_def)

lemma buf_index_Ok [result_simps]: "buf_index xs i = Ok x \<longleftrightarrow> i < length xs \<and> x = xs ! i"
  by (auto simp: buf_index_def)

lemma buf_index_not_Err [result_simps]: "buf_index xs i \<noteq> Err e"
  by (auto simp: buf_index_def)

lemma buf_index_Panic [result_simps]: "buf_index xs i = Panic \<longleftrightarrow> length xs \<le> i"
  by (auto simp: buf_index_def)

end
