(* ===== verification/Decimal.thy ===== *)
theory Decimal
  imports Prelude
begin

text \<open>
  Decimal numerals, as \<^verbatim>\<open>format!\<close> writes them (\<^verbatim>\<open>{}\<close> and \<^verbatim>\<open>{:020}\<close>) and \<^verbatim>\<open>str::parse\<close> reads them.
\<close>

definition digit :: "nat \<Rightarrow> u8" where
  "digit d = of_nat (48 + d)"

definition is_digit :: "u8 \<Rightarrow> bool" where
  "is_digit b \<longleftrightarrow> 48 \<le> b \<and> b \<le> 57"

function decimal :: "nat \<Rightarrow> u8 list" where
  "decimal n = (if n < 10 then [digit n] else decimal (n div 10) @ [digit (n mod 10)])"
  by pat_completeness auto
termination
  by (relation "measure id") auto

declare decimal.simps [simp del]

text \<open>\<^verbatim>\<open>{:0w}\<close> pads with zeros on the left and never truncates.\<close>

definition zero_padded :: "nat \<Rightarrow> nat \<Rightarrow> u8 list" where
  "zero_padded w n = replicate (w - length (decimal n)) 48 @ decimal n"

text \<open>
  The value of a digit string, and \<^verbatim>\<open>parse::<u64>\<close>: a leading plus sign is allowed, and it fails without a
  digit, on another byte and on overflow.
\<close>

definition digits_value :: "u8 list \<Rightarrow> nat" where
  "digits_value s = foldl (\<lambda>v b. 10 * v + (unat b - 48)) 0 s"

definition parse_u64 :: "u8 list \<Rightarrow> u64 option" where
  "parse_u64 s =
     (let digits = (case s of b # rest \<Rightarrow> if b = 43 then rest else s | [] \<Rightarrow> [])
      in if digits \<noteq> [] \<and> list_all is_digit digits \<and> digits_value digits < 2 ^ 64
         then Some (of_nat (digits_value digits)) else None)"

lemma parse_u64_digits:
  "list_all is_digit s \<Longrightarrow> parse_u64 s = (if s \<noteq> [] \<and> digits_value s < 2 ^ 64 then Some (of_nat (digits_value s)) else None)"
  by (auto simp: parse_u64_def is_digit_def Let_def split: list.splits)

lemma unat_digit: "d < 10 \<Longrightarrow> unat (digit d) = 48 + d"
  unfolding digit_def unat_of_nat by (simp del: of_nat_add)

lemma is_digit_digit: "d < 10 \<Longrightarrow> is_digit (digit d)"
  using unat_digit[of d] by (simp add: is_digit_def word_le_nat_alt)

lemma decimal_digits: "list_all is_digit (decimal n) \<and> decimal n \<noteq> []"
proof (induction n rule: decimal.induct)
  case (1 n)
  then show ?case by (subst (1 2) decimal.simps) (auto simp: is_digit_digit)
qed

lemma digits_value_snoc: "digits_value (s @ [b]) = 10 * digits_value s + (unat b - 48)"
  by (simp add: digits_value_def)

lemma digits_value_decimal: "digits_value (decimal n) = n"
proof (induction n rule: decimal.induct)
  case (1 n)
  show ?case
  proof (cases "n < 10")
    case True
    then show ?thesis by (subst decimal.simps) (simp add: digits_value_def unat_digit)
  next
    case False
    with 1 show ?thesis by (subst decimal.simps) (simp add: digits_value_snoc unat_digit)
  qed
qed

lemma digits_value_zeros: "digits_value (replicate k 48 @ s) = digits_value s"
  by (induction k) (simp_all add: digits_value_def)

lemma decimal_length: "0 < k \<Longrightarrow> n < 10 ^ k \<Longrightarrow> length (decimal n) \<le> k"
proof (induction k arbitrary: n)
  case (Suc k)
  show ?case
  proof (cases "n < 10")
    case True
    then show ?thesis by (subst decimal.simps) simp
  next
    case False
    with Suc.prems have "n div 10 < 10 ^ k" "0 < k"
      by (simp_all add: div_less_iff_less_mult mult.commute) (cases k, auto)
    with Suc.IH False show ?thesis by (subst decimal.simps) simp
  qed
qed simp

lemma zero_padded_digits: "list_all is_digit (zero_padded w n) \<and> zero_padded w n \<noteq> [] \<and> digits_value (zero_padded w n) = n"
  using decimal_digits[of n]
  by (auto simp: zero_padded_def digits_value_zeros digits_value_decimal list_all_iff is_digit_def)

lemma zero_padded_length: "0 < w \<Longrightarrow> n < 10 ^ w \<Longrightarrow> length (zero_padded w n) = w"
  using decimal_length[of w n] by (simp add: zero_padded_def)

lemma decimal_inj: "decimal m = decimal n \<Longrightarrow> m = n"
  by (metis digits_value_decimal)

lemma value_bound: "list_all is_digit s \<Longrightarrow> digits_value s < 10 ^ length s"
proof (induction s rule: rev_induct)
  case (snoc b s)
  then have "unat b \<le> 57" by (simp add: is_digit_def word_le_nat_alt)
  with snoc show ?case by (simp add: digits_value_snoc)
qed (simp add: digits_value_def)

text \<open>A digit string of a given length is the padded numeral of its value.\<close>

lemma digits_value_inj:
  "list_all is_digit s \<Longrightarrow> list_all is_digit t \<Longrightarrow> length s = length t \<Longrightarrow> digits_value s = digits_value t \<Longrightarrow> s = t"
proof (induction s arbitrary: t rule: rev_induct)
  case (snoc b s)
  from snoc.prems(3) obtain t' c where t: "t = t' @ [c]" by (cases t rule: rev_cases) auto
  have "48 \<le> unat b" "unat b \<le> 57" "48 \<le> unat c" "unat c \<le> 57"
    using snoc.prems t by (simp_all add: is_digit_def word_le_nat_alt)
  then obtain x y where d: "unat b = 48 + x" "x < 10" "unat c = 48 + y" "y < 10"
    by (auto simp: le_iff_add)
  with snoc.prems(4) t have "10 * digits_value s + x = 10 * digits_value t' + y"
    by (simp add: digits_value_snoc)
  moreover from this have "digits_value s = digits_value t'" using d(2,4) by linarith
  ultimately have "digits_value s = digits_value t'" "x = y" by simp_all
  with snoc t d show ?case by (simp add: word_unat_eq_iff)
qed simp

lemma zero_padded_value: "list_all is_digit s \<Longrightarrow> 0 < length s \<Longrightarrow> zero_padded (length s) (digits_value s) = s"
  using zero_padded_digits[of "length s" "digits_value s"] zero_padded_length[of "length s" "digits_value s"] value_bound[of s]
  by (intro digits_value_inj) auto

end
