(* ===== verification/Glob.thy ===== *)
theory Glob
  imports Prelude
begin

text \<open>
  The attribute-key matcher of \<^verbatim>\<open>crates/archiv-redact/src/glob.rs\<close>: the iterative two-pointer
  wildcard loop with one remembered backtracking point, the recursive meaning of a pattern, how far
  the two agree, and how many iterations the loop takes.
\<close>

section \<open>The loop\<close>

abbreviation STAR :: u8 where
  "STAR \<equiv> 42"

text \<open>The trailing \<^verbatim>\<open>while p < pattern.len() && pattern[p] == b'*'\<close>.\<close>

function skip_stars :: "u8 list \<Rightarrow> nat \<Rightarrow> nat" where
  "skip_stars pattern p =
     (if p < length pattern \<and> pattern ! p = STAR then skip_stars pattern (p + 1) else p)"
  by pat_completeness auto
termination
  by (relation "measure (\<lambda>(pattern, p). length pattern - p)") auto

declare skip_stars.simps [simp del]

text \<open>
  The main loop.  \<open>star\<close> holds the pattern index after the last \<^verbatim>\<open>*\<close> and the key index it was
  tried at.  A state in which the pattern pointer stands before that index, or the remembered
  key index is past the key pointer, never arises from the initial state; the measure counts it
  as larger so that the loop terminates from every state.
\<close>

function matches_loop :: "u8 list \<Rightarrow> u8 list \<Rightarrow> nat \<Rightarrow> nat \<Rightarrow> (nat \<times> nat) option \<Rightarrow> bool" where
  "matches_loop pattern key p k star =
     (if k < length key then
        if p < length pattern \<and> pattern ! p = key ! k then
          matches_loop pattern key (p + 1) (k + 1) star
        else if p < length pattern \<and> pattern ! p = STAR then
          matches_loop pattern key (p + 1) k (Some (p + 1, k))
        else (case star of
            Some (sp, sk) \<Rightarrow> matches_loop pattern key sp (sk + 1) (Some (sp, sk + 1))
          | None \<Rightarrow> False)
      else skip_stars pattern p = length pattern)"
  by pat_completeness auto
termination
proof (relation "measures
    [\<lambda>(pattern, key, p, k, star). (case star of None \<Rightarrow> 0 | Some (sp, sk) \<Rightarrow> if p < sp \<or> k < sk then 1 else 0),
     \<lambda>(pattern, key, p, k, star). (case star of None \<Rightarrow> length pattern + 1 | Some (sp, sk) \<Rightarrow> length pattern - sp),
     \<lambda>(pattern, key, p, k, star). (case star of None \<Rightarrow> 0 | Some (sp, sk) \<Rightarrow> length key - sk),
     \<lambda>(pattern, key, p, k, star). (length pattern - p) + (length key - k)]")
qed (auto split: option.splits if_splits)

declare matches_loop.simps [simp del]

definition glob_match :: "u8 list \<Rightarrow> u8 list \<Rightarrow> bool" where
  "glob_match pattern key = matches_loop pattern key 0 0 None"

section \<open>What a pattern means\<close>

text \<open>A \<^verbatim>\<open>*\<close> stands for any run of bytes, every other byte for itself.\<close>

fun glob_spec :: "u8 list \<Rightarrow> u8 list \<Rightarrow> bool" where
  "glob_spec [] key = (key = [])"
| "glob_spec (c # pat) [] = (c = STAR \<and> glob_spec pat [])"
| "glob_spec (c # pat) (b # key) =
     (if c = STAR then glob_spec pat (b # key) \<or> glob_spec (c # pat) key
      else c = b \<and> glob_spec pat key)"

lemma glob_spec_star: "glob_spec (STAR # pat) key \<longleftrightarrow> (\<exists>n \<le> length key. glob_spec pat (drop n key))"
proof (induction key)
  case Nil
  then show ?case by simp
next
  case (Cons b key)
  have "(\<exists>n \<le> length (b # key). glob_spec pat (drop n (b # key))) \<longleftrightarrow>
      glob_spec pat (b # key) \<or> (\<exists>n \<le> length key. glob_spec pat (drop n key))"
    by (metis (no_types, lifting) Suc_le_mono drop0 drop_Suc_Cons le0 length_Cons not0_implies_Suc)
  with Cons show ?case by simp
qed

lemma glob_spec_star_drop: "glob_spec pat (drop n key) \<Longrightarrow> glob_spec (STAR # pat) key"
  by (cases "n \<le> length key") (auto simp: glob_spec_star intro: exI[of _ "length key"])

lemma glob_spec_star_skip:
  assumes "glob_spec pat (drop n key)" "m \<le> n"
  shows "glob_spec (STAR # pat) (drop m key)"
  using assms glob_spec_star_drop[of pat "n - m" "drop m key"] by simp

lemma glob_spec_star_le:
  assumes "glob_spec (STAR # pat) (drop n key)" "m \<le> n"
  shows "glob_spec (STAR # pat) (drop m key)"
proof -
  from assms(1) obtain j where "glob_spec pat (drop (j + n) key)"
    unfolding glob_spec_star by auto
  with assms(2) show ?thesis by (intro glob_spec_star_skip[of pat "j + n" key m]) simp_all
qed

lemma glob_spec_star_star: "glob_spec (STAR # STAR # pat) key \<Longrightarrow> glob_spec (STAR # pat) key"
  unfolding glob_spec_star[of "STAR # pat"] by (auto dest: glob_spec_star_le[of pat _ key 0])

lemma glob_spec_stars: "glob_spec pat [] \<longleftrightarrow> (\<forall>c \<in> set pat. c = STAR)"
  by (induction pat) auto

lemma skip_stars_spec: "p \<le> length pattern \<Longrightarrow>
  skip_stars pattern p = length pattern \<longleftrightarrow> glob_spec (drop p pattern) []"
proof (induction pattern p rule: skip_stars.induct)
  case (1 pattern p)
  show ?case
  proof (cases "p < length pattern")
    case True
    then have d: "drop p pattern = pattern ! p # drop (Suc p) pattern"
      by (simp add: Cons_nth_drop_Suc)
    show ?thesis
      using 1 True by (simp add: skip_stars.simps[of pattern p] d)
  next
    case False
    with "1.prems" have "p = length pattern" by simp
    then show ?thesis by (simp add: skip_stars.simps[of pattern "length pattern"])
  qed
qed

lemma skip_stars_ge: "p \<le> skip_stars pattern p"
  by (induction pattern p rule: skip_stars.induct) (subst skip_stars.simps, auto)

lemma glob_spec_literal:
  "(\<And>c. c \<in> set seg \<Longrightarrow> c \<noteq> STAR) \<Longrightarrow>
   glob_spec (seg @ pat) key \<longleftrightarrow> (\<exists>key'. key = seg @ key' \<and> glob_spec pat key')"
proof (induction seg arbitrary: key)
  case Nil
  then show ?case by simp
next
  case (Cons c seg)
  then show ?case by (cases key) auto
qed

section \<open>The loop against the meaning\<close>

text \<open>
  What the loop still promises in a state: the rest of the pattern matches the rest of the key,
  or the remembered star can absorb at least one more byte.
\<close>

definition star_later :: "u8 list \<Rightarrow> u8 list \<Rightarrow> (nat \<times> nat) option \<Rightarrow> bool" where
  "star_later pattern key star =
     (case star of None \<Rightarrow> False
      | Some (sp, sk) \<Rightarrow> glob_spec (STAR # drop sp pattern) (drop (sk + 1) key))"

lemma matches_loop_sound:
  "matches_loop pattern key p k star \<Longrightarrow>
   glob_spec (drop p pattern) (drop k key) \<or> star_later pattern key star"
proof (induction pattern key p k star rule: matches_loop.induct)
  case (1 pattern key p k star)
  consider (fin) "\<not> k < length key"
    | (lit) "k < length key" "p < length pattern" "pattern ! p = key ! k"
    | (star) "k < length key" "p < length pattern" "pattern ! p = STAR" "pattern ! p \<noteq> key ! k"
    | (bt) "k < length key" "\<not> (p < length pattern \<and> pattern ! p = key ! k)"
        "\<not> (p < length pattern \<and> pattern ! p = STAR)"
    by blast
  then show ?case
  proof cases
    case fin
    with "1.prems" have e: "skip_stars pattern p = length pattern"
      by (simp add: matches_loop.simps[of pattern key p k star])
    then have "p \<le> length pattern" using skip_stars_ge[of p pattern] by simp
    with e fin show ?thesis by (simp add: skip_stars_spec)
  next
    case lit
    then have d: "drop p pattern = key ! k # drop (p + 1) pattern"
      and k: "drop k key = key ! k # drop (k + 1) key"
      by (simp_all add: Cons_nth_drop_Suc[symmetric])
    from lit "1.prems" have "matches_loop pattern key (p + 1) (k + 1) star"
      by (simp add: matches_loop.simps[of pattern key p k star])
    with "1.IH"(1) lit have "glob_spec (drop (p + 1) pattern) (drop (k + 1) key)
        \<or> star_later pattern key star" by simp
    moreover have "glob_spec (drop (p + 1) pattern) (drop (k + 1) key) \<Longrightarrow>
        glob_spec (drop p pattern) (drop k key)"
      using glob_spec_star_skip[of "drop (p + 1) pattern" "k + 1" key k]
      unfolding d by (cases "key ! k = STAR") (simp_all add: k)
    ultimately show ?thesis by blast
  next
    case star
    then have d: "drop p pattern = STAR # drop (p + 1) pattern"
      by (simp add: Cons_nth_drop_Suc[symmetric])
    from star "1.prems" have "matches_loop pattern key (p + 1) k (Some (p + 1, k))"
      by (simp add: matches_loop.simps[of pattern key p k star])
    with "1.IH"(2) star have "glob_spec (drop (p + 1) pattern) (drop k key)
        \<or> glob_spec (drop p pattern) (drop (k + 1) key)"
      by (simp add: star_later_def d del: glob_spec.simps)
    then have "glob_spec (drop p pattern) (drop k key)"
      unfolding d using glob_spec_star_skip[of _ k key k] glob_spec_star_le[of _ "k + 1" key k] by auto
    then show ?thesis ..
  next
    case bt
    with "1.prems" obtain sp sk where s: "star = Some (sp, sk)"
      and l: "matches_loop pattern key sp (sk + 1) (Some (sp, sk + 1))"
      by (auto simp: matches_loop.simps[of pattern key p k star] split: option.splits)
    with "1.IH"(3) bt have "glob_spec (drop sp pattern) (drop (sk + 1) key)
        \<or> glob_spec (STAR # drop sp pattern) (drop (sk + 2) key)"
      by (simp add: star_later_def del: glob_spec.simps)
    then have "star_later pattern key star"
      using glob_spec_star_skip[of _ "sk + 1" key "sk + 1"] glob_spec_star_le[of _ "sk + 2" key "sk + 1"]
      by (auto simp: s star_later_def)
    then show ?thesis ..
  qed
qed

text \<open>
  Where the key holds no \<^verbatim>\<open>*\<close> byte the loop misses nothing.  The states the loop runs through keep
  a segment of the pattern after the star that matched the key literally; a newer star makes
  every older backtracking point redundant.
\<close>

fun star_inv :: "u8 list \<Rightarrow> u8 list \<Rightarrow> nat \<Rightarrow> nat \<Rightarrow> (nat \<times> nat) option \<Rightarrow> bool" where
  "star_inv pattern key p k None = True"
| "star_inv pattern key p k (Some (sp, sk)) =
     (sp \<le> p \<and> sk \<le> k \<and> k - sk = p - sp \<and> (\<forall>c \<in> set (bslice pattern sp p). c \<noteq> STAR))"

lemma drop_split_at: "sp \<le> p \<Longrightarrow> drop sp xs = bslice xs sp p @ drop p xs"
  by (metis append_take_drop_id bslice_def drop_drop le_add_diff_inverse2)

definition star_can :: "u8 list \<Rightarrow> u8 list \<Rightarrow> (nat \<times> nat) option \<Rightarrow> bool" where
  "star_can pattern key star =
     (case star of None \<Rightarrow> False
      | Some (sp, sk) \<Rightarrow> sk < length key \<and> glob_spec (STAR # drop sp pattern) (drop (sk + 1) key))"

lemma glob_spec_star_unfold: "k < length key \<Longrightarrow> glob_spec (STAR # pat) (drop k key) \<longleftrightarrow>
  glob_spec pat (drop k key) \<or> k < length key \<and> glob_spec (STAR # pat) (drop (k + 1) key)"
  using Cons_nth_drop_Suc[of k key, symmetric] by simp

lemma older_star:
  assumes inv: "star_inv pattern key p k (Some (sp, sk))" and p: "p \<le> length pattern"
    and later: "star_can pattern key (Some (sp, sk))"
  shows "k < length key \<and> glob_spec (STAR # drop p pattern) (drop (k + 1) key)"
proof -
  from later obtain n where n: "n \<le> length (drop (sk + 1) key)"
      "glob_spec (drop sp pattern) (drop n (drop (sk + 1) key))"
    unfolding star_can_def by (auto simp: glob_spec_star simp del: glob_spec.simps drop_drop)
  let ?seg = "bslice pattern sp p"
  from inv have sp: "sp \<le> p" and k: "k - sk = p - sp" "sk \<le> k" by auto
  from n(2) inv obtain key' where key': "drop n (drop (sk + 1) key) = ?seg @ key'"
      "glob_spec (drop p pattern) key'"
    unfolding drop_split_at[OF sp] by (auto simp: glob_spec_literal)
  have len: "length ?seg = k - sk" using p k by (simp add: length_bslice)
  then have "key' = drop (k - sk) (drop n (drop (sk + 1) key))"
    unfolding key'(1) by simp
  moreover have "k - sk + (n + (sk + 1)) = n + k + 1" using k(2) by simp
  ultimately have e: "key' = drop (n + k + 1) key" by (simp only: drop_drop)
  have "k + n + 1 \<le> length key"
  proof -
    have "length (drop n (drop (sk + 1) key)) \<ge> k - sk" unfolding key'(1) using len by simp
    with n(1) k show ?thesis
      using later by (auto simp: star_can_def)
  qed
  with key'(2) show ?thesis
    using glob_spec_star_skip[of "drop p pattern" "n + k + 1" key "k + 1"] unfolding e by simp
qed

lemma matches_loop_complete:
  assumes "\<forall>b \<in> set key. b \<noteq> STAR"
  shows "star_inv pattern key p k star \<Longrightarrow> p \<le> length pattern \<Longrightarrow> k \<le> length key \<Longrightarrow>
    glob_spec (drop p pattern) (drop k key) \<or> star_can pattern key star \<Longrightarrow>
    matches_loop pattern key p k star"
  using assms
proof (induction pattern key p k star rule: matches_loop.induct)
  case (1 pattern key p k star)
  note older = older_star[OF _ "1.prems"(2), of key k]
  consider (fin) "k = length key"
    | (lit) "k < length key" "p < length pattern" "pattern ! p = key ! k"
    | (star) "k < length key" "p < length pattern" "pattern ! p = STAR" "pattern ! p \<noteq> key ! k"
    | (bt) "k < length key" "\<not> (p < length pattern \<and> pattern ! p = key ! k)"
        "\<not> (p < length pattern \<and> pattern ! p = STAR)"
    using "1.prems"(3) by linarith
  then show ?case
  proof cases
    case fin
    then have "\<not> star_can pattern key star"
      using older "1.prems"(1) by (cases star) (auto simp: star_can_def simp del: star_inv.simps)
    with fin "1.prems" show ?thesis
      by (simp add: matches_loop.simps[of pattern key p "length key" star] skip_stars_spec)
  next
    case lit
    then have d: "drop p pattern = key ! k # drop (p + 1) pattern"
      and k: "drop k key = key ! k # drop (k + 1) key" and ns: "key ! k \<noteq> STAR"
      using "1.prems"(5) Cons_nth_drop_Suc[of p pattern] Cons_nth_drop_Suc[of k key] by auto
    have "star_inv pattern key (p + 1) (k + 1) star"
    proof (cases star)
      case (Some a)
      obtain sp sk where a: "a = (sp, sk)" by (cases a)
      with Some "1.prems"(1) have "sp \<le> p" by simp
      then have "bslice pattern sp (p + 1) = bslice pattern sp p @ [key ! k]"
        using bslice_append[of sp p "p + 1" pattern] bslice_Cons[of p "p + 1" pattern] lit by simp
      with Some a "1.prems"(1) ns show ?thesis by auto
    qed simp
    with "1.IH"(1) lit "1.prems" ns show ?thesis
      by (simp add: matches_loop.simps[of pattern key p k star] d k)
  next
    case star
    then have d: "drop p pattern = STAR # drop (p + 1) pattern"
      by (simp add: Cons_nth_drop_Suc[symmetric])
    have "glob_spec (drop p pattern) (drop k key)"
    proof (rule disjE[OF "1.prems"(4)])
      assume a: "star_can pattern key star"
      then obtain sp sk where "star = Some (sp, sk)" by (auto simp: star_can_def split: option.splits)
      with older a "1.prems"(1) have "glob_spec (STAR # drop p pattern) (drop (k + 1) key)" by blast
      then have "glob_spec (STAR # drop (p + 1) pattern) (drop (k + 1) key)"
        unfolding d by (rule glob_spec_star_star)
      then show ?thesis unfolding d by (rule glob_spec_star_le) simp
    qed
    then have "matches_loop pattern key (p + 1) k (Some (p + 1, k))"
      using "1.IH"(2) "1.prems" star by (simp add: d star_can_def glob_spec_star_unfold)
    with star show ?thesis by (simp add: matches_loop.simps[of pattern key p k star])
  next
    case bt
    have "\<not> glob_spec (drop p pattern) (drop k key)"
      using bt Cons_nth_drop_Suc[of p pattern, symmetric] Cons_nth_drop_Suc[of k key, symmetric]
      by (cases "p < length pattern") auto
    with "1.prems"(4) obtain sp sk where s: "star = Some (sp, sk)" "sk < length key"
        "glob_spec (STAR # drop sp pattern) (drop (sk + 1) key)"
      by (auto simp: star_can_def split: option.splits)
    have "glob_spec (drop sp pattern) (drop (sk + 1) key) \<or> star_can pattern key (Some (sp, sk + 1))"
      using s(3) glob_spec_star_unfold[of "sk + 1" key "drop sp pattern"]
      by (cases "sk + 1 < length key") (auto simp: star_can_def)
    with "1.IH"(3) bt s "1.prems" have "matches_loop pattern key sp (sk + 1) (Some (sp, sk + 1))"
      by simp
    with bt show ?thesis
      unfolding s(1) by (auto simp: matches_loop.simps[of pattern key p k "Some (sp, sk)"])
  qed
qed

section \<open>The number of iterations\<close>

text \<open>The same two loops, counting their iterations.\<close>

function glob_steps :: "u8 list \<Rightarrow> u8 list \<Rightarrow> nat \<Rightarrow> nat \<Rightarrow> (nat \<times> nat) option \<Rightarrow> nat" where
  "glob_steps pattern key p k star =
     (if k < length key then
        if p < length pattern \<and> pattern ! p = key ! k then
          Suc (glob_steps pattern key (p + 1) (k + 1) star)
        else if p < length pattern \<and> pattern ! p = STAR then
          Suc (glob_steps pattern key (p + 1) k (Some (p + 1, k)))
        else (case star of
            Some (sp, sk) \<Rightarrow> Suc (glob_steps pattern key sp (sk + 1) (Some (sp, sk + 1)))
          | None \<Rightarrow> 1)
      else skip_stars pattern p - p)"
  by pat_completeness auto
termination
proof (relation "measures
    [\<lambda>(pattern, key, p, k, star). (case star of None \<Rightarrow> 0 | Some (sp, sk) \<Rightarrow> if p < sp \<or> k < sk then 1 else 0),
     \<lambda>(pattern, key, p, k, star). (case star of None \<Rightarrow> length pattern + 1 | Some (sp, sk) \<Rightarrow> length pattern - sp),
     \<lambda>(pattern, key, p, k, star). (case star of None \<Rightarrow> 0 | Some (sp, sk) \<Rightarrow> length key - sk),
     \<lambda>(pattern, key, p, k, star). (length pattern - p) + (length key - k)]")
qed (auto split: option.splits if_splits)

declare glob_steps.simps [simp del]

text \<open>The matcher stopped after \<open>n\<close> iterations: its answer, if it has one by then.\<close>

fun glob_within :: "nat \<Rightarrow> u8 list \<Rightarrow> u8 list \<Rightarrow> nat \<Rightarrow> nat \<Rightarrow> (nat \<times> nat) option \<Rightarrow> bool option" where
  "glob_within 0 pattern key p k star =
     (if k < length key \<or> p < length pattern \<and> pattern ! p = STAR then None else Some (p = length pattern))"
| "glob_within (Suc n) pattern key p k star =
     (if k < length key then
        if p < length pattern \<and> pattern ! p = key ! k then
          glob_within n pattern key (p + 1) (k + 1) star
        else if p < length pattern \<and> pattern ! p = STAR then
          glob_within n pattern key (p + 1) k (Some (p + 1, k))
        else (case star of
            Some (sp, sk) \<Rightarrow> glob_within n pattern key sp (sk + 1) (Some (sp, sk + 1))
          | None \<Rightarrow> Some False)
      else if p < length pattern \<and> pattern ! p = STAR then glob_within n pattern key (p + 1) k star
      else Some (p = length pattern))"

lemma glob_within_skip:
  "\<not> k < length key \<Longrightarrow> glob_within n pattern key p k star =
     (if skip_stars pattern p - p \<le> n then Some (skip_stars pattern p = length pattern) else None)"
proof (induction n arbitrary: p)
  case 0
  then show ?case using skip_stars_ge[of "p + 1" pattern] by (subst (1 2) skip_stars.simps) auto
next
  case (Suc n)
  then show ?case using skip_stars_ge[of "p + 1" pattern] by (subst (1 2) skip_stars.simps) auto
qed

lemma glob_within_steps:
  "glob_within n pattern key p k star =
     (if glob_steps pattern key p k star \<le> n then Some (matches_loop pattern key p k star) else None)"
proof (induction n arbitrary: p k star)
  case 0
  then show ?case
    using glob_within_skip[of k key "0" pattern p star]
    by (cases "k < length key")
      (simp_all add: glob_steps.simps[of pattern key p k star] matches_loop.simps[of pattern key p k star] split: option.split)
next
  case (Suc n)
  then show ?case
    using glob_within_skip[of k key "Suc n" pattern p star]
    by (cases "k < length key")
      (simp_all add: glob_steps.simps[of pattern key p k star] matches_loop.simps[of pattern key p k star] split: option.split)
qed

lemma skip_stars_le: "p \<le> length pattern \<Longrightarrow> skip_stars pattern p \<le> length pattern"
  by (induction pattern p rule: skip_stars.induct) (subst skip_stars.simps, auto)

text \<open>
  What is left to do: the key bytes that the star may still absorb, each with a pass over the
  pattern, and the rest of the pattern.  A backtrack makes the second part grow by less than a pass.
\<close>

definition left_to_absorb :: "nat \<Rightarrow> (nat \<times> nat) option \<Rightarrow> nat" where
  "left_to_absorb n star = n - (case star of None \<Rightarrow> 0 | Some (sp, sk) \<Rightarrow> sk)"

definition star_before :: "nat \<Rightarrow> nat \<Rightarrow> (nat \<times> nat) option \<Rightarrow> bool" where
  "star_before p k star \<longleftrightarrow> (\<forall>sp sk. star = Some (sp, sk) \<longrightarrow> sp \<le> p \<and> sk \<le> k)"

lemma glob_steps_potential:
  "star_before p k star \<Longrightarrow> p \<le> length pattern \<Longrightarrow> k \<le> length key \<Longrightarrow>
   glob_steps pattern key p k star + p \<le> left_to_absorb (length key) star * (length pattern + 1) + length pattern"
proof (induction pattern key p k star rule: glob_steps.induct)
  case (1 pattern key p k star)
  let ?B = "\<lambda>star. left_to_absorb (length key) star * (length pattern + 1) + length pattern"
  note unfold = glob_steps.simps[of pattern key p k star]
  consider (fin) "\<not> k < length key"
    | (lit) "k < length key" "p < length pattern" "pattern ! p = key ! k"
    | (star) "k < length key" "p < length pattern" "pattern ! p = STAR" "pattern ! p \<noteq> key ! k"
    | (none) "k < length key" "\<not> (p < length pattern \<and> pattern ! p = key ! k)"
        "\<not> (p < length pattern \<and> pattern ! p = STAR)" "star = None"
    | (bt) sp sk where "k < length key" "\<not> (p < length pattern \<and> pattern ! p = key ! k)"
        "\<not> (p < length pattern \<and> pattern ! p = STAR)" "star = Some (sp, sk)"
    by (metis option.exhaust surj_pair)
  then show ?case
  proof cases
    case fin
    with "1.prems"(2) skip_stars_le[of p pattern] skip_stars_ge[of p pattern] show ?thesis by (simp add: unfold)
  next
    case lit
    with "1.prems" have "star_before (p + 1) (k + 1) star" by (auto simp: star_before_def)
    with "1.IH"(1) lit show ?thesis by (simp add: unfold)
  next
    case star
    have s: "star_before (p + 1) k (Some (p + 1, k))" by (simp add: star_before_def)
    have "left_to_absorb (length key) (Some (p + 1, k)) \<le> left_to_absorb (length key) star"
      using "1.prems"(1) by (cases star) (auto simp: left_to_absorb_def star_before_def)
    then have "?B (Some (p + 1, k)) \<le> ?B star" by (intro add_le_mono mult_le_mono) simp_all
    with "1.IH"(2) star s show ?thesis by (simp add: unfold)
  next
    case none
    have "glob_steps pattern key p k star = 1" using none by (subst unfold) auto
    moreover have "1 * (length pattern + 1) \<le> left_to_absorb (length key) star * (length pattern + 1)"
      using none(1,4) by (intro mult_le_mono) (simp_all add: left_to_absorb_def)
    ultimately show ?thesis using "1.prems"(2) by simp
  next
    case bt
    with "1.prems" have b: "sp \<le> p" "sk \<le> k" "star_before sp (sk + 1) (Some (sp, sk + 1))"
      by (auto simp: star_before_def)
    have l: "left_to_absorb (length key) star = Suc (left_to_absorb (length key) (Some (sp, sk + 1)))"
      using bt(1,4) b(2) by (simp add: left_to_absorb_def)
    have "glob_steps pattern key sp (sk + 1) (Some (sp, sk + 1)) + sp \<le> ?B (Some (sp, sk + 1))"
      using "1.IH"(3) bt b "1.prems"(2) by simp
    moreover have "glob_steps pattern key p k star = Suc (glob_steps pattern key sp (sk + 1) (Some (sp, sk + 1)))"
      using bt by (subst unfold) auto
    ultimately show ?thesis using "1.prems"(2) by (simp add: l)
  qed
qed

text \<open>A literal that almost fits everywhere: a run of one byte followed by another, over a run of the first.\<close>

lemma near_miss_run:
  assumes "a \<noteq> b" "a \<noteq> STAR" "b \<noteq> STAR" "j \<le> m" "sk + m < n"
  shows "glob_steps (STAR # replicate m a @ [b]) (replicate n a) (1 + j) (sk + j) (Some (1, sk)) =
    (m - j) + 1 + glob_steps (STAR # replicate m a @ [b]) (replicate n a) 1 (sk + 1) (Some (1, sk + 1))"
  using assms(4)
proof (induction "m - j" arbitrary: j)
  case 0
  then have "j = m" by simp
  with assms show ?case by (subst glob_steps.simps) (simp add: nth_append)
next
  case (Suc d)
  then have "j < m" "d = m - (j + 1)" by simp_all
  with Suc.hyps(1)[of "j + 1"] assms show ?case
    by (subst glob_steps.simps) (simp add: nth_append)
qed

lemma near_miss_steps:
  assumes "a \<noteq> b" "a \<noteq> STAR" "b \<noteq> STAR" "sk + m \<le> n"
  shows "(n - (sk + m)) * (m + 1) \<le> glob_steps (STAR # replicate m a @ [b]) (replicate n a) 1 sk (Some (1, sk))"
  using assms(4)
proof (induction "n - (sk + m)" arbitrary: sk)
  case (Suc d)
  then have "sk + m < n" "d = n - (sk + 1 + m)" by simp_all
  with Suc.hyps(1)[of "sk + 1"] near_miss_run[OF assms(1-3) le0, where m = m and sk = sk and n = n] Suc.hyps(2) show ?case
    by (simp flip: Suc.hyps(2))
qed simp

section \<open>Properties\<close>



text \<open>
  The matcher compares the bytes before it looks for a wildcard, so a key that itself holds a
  \<^verbatim>\<open>*\<close> byte consumes the pattern's star literally and leaves no backtracking point: the pattern
  \<^verbatim>\<open>*\<close>, which by its meaning matches every key, rejects the key \<^verbatim>\<open>*a\<close>.
\<close>

theorem matches_star_key_missed:
  "glob_spec (bytes ''*'') (bytes ''*a'') \<and> \<not> glob_match (bytes ''*'') (bytes ''*a'')"
  by (simp add: glob_match_def matches_loop.simps)

text \<open>
  C35: The matcher returns after at most one pass over the pattern per byte of the key and one more, the
  iterations of both its loops counted.  The documented bound, the length of the key times the number
  of stars, does not hold: a pattern with a single star and \<open>n\<close> literals needs more than \<open>n * n\<close>
  iterations on a key of \<open>2 * n\<close> bytes.
\<close>

theorem glob_match_steps:
  "glob_within ((length key + 1) * (length pattern + 1) - 1) pattern key 0 0 None = Some (glob_match pattern key) \<and>
   glob_within (n * n) (STAR # replicate n 97 @ [98]) (replicate (2 * n) 97) 0 0 None = None"
proof
  have "glob_steps pattern key 0 0 None \<le> (length key + 1) * (length pattern + 1) - 1"
    using glob_steps_potential[of 0 0 None pattern key] by (simp add: star_before_def left_to_absorb_def)
  then show "glob_within ((length key + 1) * (length pattern + 1) - 1) pattern key 0 0 None = Some (glob_match pattern key)"
    unfolding glob_within_steps glob_match_def by (rule if_P)
  show "glob_within (n * n) (STAR # replicate n 97 @ [98]) (replicate (2 * n) 97) 0 0 None = None"
  proof (cases "n = 0")
    case True
    then show ?thesis by simp
  next
    case False
    have "n * (n + 1) \<le> glob_steps (STAR # replicate n 97 @ [98]) (replicate (2 * n) 97) 1 0 (Some (1, 0))"
      using near_miss_steps[of 97 98 0 n "2 * n"] by simp
    moreover have "glob_steps (STAR # replicate n 97 @ [98]) (replicate (2 * n) 97) 0 0 None =
        Suc (glob_steps (STAR # replicate n 97 @ [98]) (replicate (2 * n) 97) 1 0 (Some (1, 0)))"
      using False by (subst glob_steps.simps) simp
    ultimately show ?thesis using False by (simp add: glob_within_steps)
  qed
qed

end
