(* ===== verification/Lint.thy ===== *)
theory Lint
  imports Prelude
begin

text \<open>
  The policy lint of \<^verbatim>\<open>crates/archiv-redact/src/lint.rs\<close>: the single-pass scan over the bytes of a
  pattern with one flag per open group, and its meaning on patterns given by their syntax tree.
\<close>

section \<open>The scan\<close>

text \<open>The \<^verbatim>\<open>while\<close> loop of \<^verbatim>\<open>brace_quantifier\<close>: is the quantifier unbounded, and how many bytes it takes.\<close>

function brace_loop :: "u8 list \<Rightarrow> nat \<Rightarrow> nat \<Rightarrow> bool \<Rightarrow> bool \<times> nat" where
  "brace_loop bs pos j saw_comma_last =
     (if j < length bs then
        if bs ! j = 125 then (saw_comma_last, j - pos + 1)
        else if bs ! j = 44 then brace_loop bs pos (j + 1) True
        else if 48 \<le> bs ! j \<and> bs ! j \<le> 57 then brace_loop bs pos (j + 1) False
        else (False, 1)
      else (False, 1))"
  by pat_completeness auto
termination
  by (relation "measure (\<lambda>(bs, pos, j, saw). length bs - j)") auto

declare brace_loop.simps [simp del]

definition brace_quantifier :: "u8 list \<Rightarrow> nat \<Rightarrow> bool \<times> nat" where
  "brace_quantifier bs pos = brace_loop bs pos (pos + 1) False"

definition quantifier_at :: "u8 list \<Rightarrow> nat \<Rightarrow> bool \<times> nat" where
  "quantifier_at bs pos =
     (if pos < length bs then
        if bs ! pos = 42 \<or> bs ! pos = 43 then (True, 1)
        else if bs ! pos = 63 then (False, 1)
        else if bs ! pos = 123 then brace_quantifier bs pos
        else (False, 0)
      else (False, 0))"

text \<open>The inner loop over a character class, and the index at which it leaves the scan.\<close>

function class_loop :: "u8 list \<Rightarrow> nat \<Rightarrow> nat" where
  "class_loop bs i =
     (if i < length bs \<and> bs ! i \<noteq> 93
      then class_loop bs (if bs ! i = 92 then i + 1 + 1 else i + 1) else i)"
  by pat_completeness auto
termination
  by (relation "measure (\<lambda>(bs, i). length bs - i)") auto

declare class_loop.simps [simp del]

definition skip_class :: "u8 list \<Rightarrow> nat \<Rightarrow> nat" where
  "skip_class bs i0 =
     (let i = i0 + 1;
          i = (if i < length bs \<and> bs ! i = 94 then i + 1 else i);
          i = (if i < length bs \<and> bs ! i = 93 then i + 1 else i)
      in class_loop bs i)"

lemma class_loop_ge: "i \<le> class_loop bs i"
proof (induction bs i rule: class_loop.induct)
  case (1 bs i)
  then show ?case
    by (cases "i < length bs \<and> bs ! i \<noteq> 93") (auto simp: class_loop.simps[of bs i] split: if_splits)
qed

lemma skip_class_ge: "i < skip_class bs i"
proof -
  have "i < j \<Longrightarrow> i < class_loop bs j" for j using class_loop_ge[of j bs] by simp
  then show ?thesis by (simp add: skip_class_def Let_def)
qed

text \<open>\<^verbatim>\<open>frames\<close> is a stack; its top is the head of the list.\<close>

fun or_top :: "bool \<Rightarrow> bool list \<Rightarrow> bool list" where
  "or_top b [] = []"
| "or_top b (t # frames) = (t \<or> b) # frames"

definition NESTED :: string where
  "NESTED = ''unbounded quantifier applied to a group containing an unbounded quantifier''"

function lint_loop :: "u8 list \<Rightarrow> nat \<Rightarrow> bool list \<Rightarrow> (string, unit) result" where
  "lint_loop bs i frames =
     (if i < length bs then
        if bs ! i = 92 then lint_loop bs (i + 1 + 1) frames
        else if bs ! i = 91 then lint_loop bs (skip_class bs i + 1) frames
        else if bs ! i = 40 then lint_loop bs (i + 1) (False # frames)
        else if bs ! i = 41 then
          (let inner_unbounded = (case frames of [] \<Rightarrow> False | t # _ \<Rightarrow> t);
               (quant_unbounded, quant_len) = quantifier_at bs (i + 1)
           in if quant_unbounded \<and> inner_unbounded then Err NESTED
              else lint_loop bs (i + quant_len + 1) (or_top (inner_unbounded \<or> quant_unbounded) (tl frames)))
        else if bs ! i = 42 \<or> bs ! i = 43 then lint_loop bs (i + 1) (or_top True frames)
        else if bs ! i = 123 then
          (let (unbounded, len) = brace_quantifier bs i
           in lint_loop bs (i + (len - 1) + 1) (if unbounded then or_top True frames else frames))
        else lint_loop bs (i + 1) frames
      else Ok ())"
  by pat_completeness auto
termination
proof (relation "measure (\<lambda>(bs, i, frames). length bs - i)", goal_cases)
  case (3 bs i frames)
  with skip_class_ge[of i bs] show ?case by simp
qed auto

declare lint_loop.simps [simp del]

definition check_nested_repetition :: "u8 list \<Rightarrow> (string, unit) result" where
  "check_nested_repetition pattern = lint_loop pattern 0 [False]"

section \<open>Patterns by their syntax\<close>

datatype quant = QNone | QOpt | QStar | QPlus | QExact "u8 list" | QAtLeast "u8 list" | QBetween "u8 list" "u8 list"

datatype class_item = CLit u8 | CEsc u8

text \<open>\<open>Group nc\<close> is \<^verbatim>\<open>(?:..)\<close> when \<open>nc\<close> holds; \<open>Class neg br\<close> starts with \<^verbatim>\<open>^\<close> and with a literal \<^verbatim>\<open>]\<close>.\<close>

datatype item =
    Lit u8 quant
  | Esc u8 quant
  | Class bool bool "class_item list" quant
  | Group bool "item list" quant

fun show_quant :: "quant \<Rightarrow> u8 list" where
  "show_quant QNone = []"
| "show_quant QOpt = [63]"
| "show_quant QStar = [42]"
| "show_quant QPlus = [43]"
| "show_quant (QExact ds) = [123] @ ds @ [125]"
| "show_quant (QAtLeast ds) = [123] @ ds @ [44, 125]"
| "show_quant (QBetween ds es) = [123] @ ds @ [44] @ es @ [125]"

fun show_class_item :: "class_item \<Rightarrow> u8 list" where
  "show_class_item (CLit b) = [b]"
| "show_class_item (CEsc b) = [92, b]"

fun show_item :: "item \<Rightarrow> u8 list" where
  "show_item (Lit b q) = [b] @ show_quant q"
| "show_item (Esc b q) = [92, b] @ show_quant q"
| "show_item (Class neg br cs q) =
     [91] @ (if neg then [94] else []) @ (if br then [93] else []) @ concat (map show_class_item cs) @ [93] @ show_quant q"
| "show_item (Group nc its q) =
     [40] @ (if nc then [63, 58] else []) @ concat (map show_item its) @ [41] @ show_quant q"

definition show_pattern :: "item list \<Rightarrow> u8 list" where
  "show_pattern its = concat (map show_item its)"

text \<open>Well-formed trees: literals are not metacharacters, counts are digits.\<close>

definition digits :: "u8 list \<Rightarrow> bool" where
  "digits ds \<longleftrightarrow> list_all (\<lambda>d. 48 \<le> d \<and> d \<le> 57) ds"

fun wf_quant :: "quant \<Rightarrow> bool" where
  "wf_quant (QExact ds) = (ds \<noteq> [] \<and> digits ds)"
| "wf_quant (QAtLeast ds) = (ds \<noteq> [] \<and> digits ds)"
| "wf_quant (QBetween ds es) = (ds \<noteq> [] \<and> es \<noteq> [] \<and> digits ds \<and> digits es)"
| "wf_quant q = True"

fun wf_class_item :: "class_item \<Rightarrow> bool" where
  "wf_class_item (CLit b) = (b \<notin> {91, 92, 93, 94})"
| "wf_class_item (CEsc b) = True"

fun wf_item :: "item \<Rightarrow> bool" where
  "wf_item (Lit b q) = (b \<notin> {92, 91, 40, 41, 42, 43, 63, 123} \<and> wf_quant q)"
| "wf_item (Esc b q) = wf_quant q"
| "wf_item (Class neg br cs q) = ((br \<or> cs \<noteq> []) \<and> list_all wf_class_item cs \<and> wf_quant q)"
| "wf_item (Group nc its q) = (list_all wf_item its \<and> wf_quant q)"

text \<open>What the lint is to reject: an unbounded quantifier on a group that contains one.\<close>

fun unbounded_quant :: "quant \<Rightarrow> bool" where
  "unbounded_quant QStar = True"
| "unbounded_quant QPlus = True"
| "unbounded_quant (QAtLeast ds) = True"
| "unbounded_quant q = False"

fun unbounded :: "item \<Rightarrow> bool" where
  "unbounded (Lit b q) = unbounded_quant q"
| "unbounded (Esc b q) = unbounded_quant q"
| "unbounded (Class neg br cs q) = unbounded_quant q"
| "unbounded (Group nc its q) = (list_ex unbounded its \<or> unbounded_quant q)"

fun nested_unbounded :: "item \<Rightarrow> bool" where
  "nested_unbounded (Group nc its q) =
     ((unbounded_quant q \<and> list_ex unbounded its) \<or> list_ex nested_unbounded its)"
| "nested_unbounded _ = False"

section \<open>The scan decides it\<close>

lemma drop_ConsD: "drop i bs = b # r \<Longrightarrow> i < length bs \<and> bs ! i = b \<and> drop (Suc i) bs = r"
  by (metis Cons_nth_drop_Suc drop_all linorder_not_le list.distinct(1) list.inject)

lemma drop_appendD: "drop i bs = xs @ ys \<Longrightarrow> drop (i + length xs) bs = ys"
  by (metis add.commute append_eq_conv_conj drop_drop)

lemma brace_loop_digits:
  "drop j bs = ds @ post \<Longrightarrow> digits ds \<Longrightarrow> ds \<noteq> [] \<Longrightarrow>
    brace_loop bs pos j saw = brace_loop bs pos (j + length ds) False"
proof (induction ds arbitrary: j saw)
  case (Cons d ds)
  have d: "j < length bs" "bs ! j = d" "drop (Suc j) bs = ds @ post"
    using drop_ConsD[of j bs d "ds @ post"] Cons.prems by auto
  have r: "48 \<le> d \<and> d \<le> 57" using Cons.prems(2) by (simp add: digits_def)
  then have "d \<noteq> 125 \<and> d \<noteq> 44" by (auto simp: word_le_nat_alt)
  then have "brace_loop bs pos j saw = brace_loop bs pos (Suc j) False"
    using d r by (simp add: brace_loop.simps[of bs pos j])
  then show ?case
    using Cons.IH[OF d(3)] Cons.prems(2) by (cases ds) (auto simp: digits_def)
qed simp

lemma brace_quantifier_show:
  assumes "drop i bs = show_quant q @ post" "wf_quant q" "show_quant q = 123 # r"
  shows "brace_quantifier bs i = (unbounded_quant q, length (show_quant q))"
proof -
  obtain ds t where q: "show_quant q = 123 # ds @ t" "ds \<noteq> []" "digits ds"
    "t = [125] \<and> q = QExact ds \<or> t = [44, 125] \<and> q = QAtLeast ds \<or>
      (\<exists>es. t = [44] @ es @ [125] \<and> q = QBetween ds es \<and> es \<noteq> [] \<and> digits es)"
    using assms(2,3) by (cases q) auto
  let ?j = "Suc i" let ?k = "Suc (i + length ds)"
  have D: "drop ?j bs = ds @ t @ post" using drop_ConsD[of i bs 123 "ds @ t @ post"] assms(1) q(1) by simp
  then have D': "drop ?k bs = t @ post" using drop_appendD[OF D] by simp
  have B: "brace_quantifier bs i = brace_loop bs i ?k False"
    using brace_loop_digits[OF D q(3,2), of i False] by (simp add: brace_quantifier_def)
  from q(4) consider "t = [125]" "q = QExact ds" | "t = [44, 125]" "q = QAtLeast ds"
    | es where "t = [44] @ es @ [125]" "q = QBetween ds es" "es \<noteq> []" "digits es" by blast
  then show ?thesis
  proof cases
    case 1
    with drop_ConsD[of ?k bs 125] D' show ?thesis
      by (simp add: B brace_loop.simps[of bs i ?k])
  next
    case 2
    with drop_ConsD[of ?k bs 44] D' have c: "?k < length bs" "bs ! ?k = 44" "drop (Suc ?k) bs = 125 # post" by auto
    with drop_ConsD[OF c(3)] 2 show ?thesis
      by (simp add: B brace_loop.simps[of bs i ?k] brace_loop.simps[of bs i "Suc ?k"])
  next
    case 3
    with drop_ConsD[of ?k bs 44] D' have c: "?k < length bs" "bs ! ?k = 44" "drop (Suc ?k) bs = es @ 125 # post" by auto
    then have e: "drop (Suc (?k + length es)) bs = 125 # post"
      using drop_appendD[OF c(3)] by simp
    have "brace_loop bs i (Suc ?k) True = brace_loop bs i (Suc (?k + length es)) False"
      using brace_loop_digits[OF c(3), of i True] 3 by simp
    with drop_ConsD[OF e] c 3 show ?thesis
      by (simp add: B brace_loop.simps[of bs i ?k] brace_loop.simps[of bs i "Suc (Suc (i + length ds + length es))"])
  qed
qed

text \<open>What follows an item does not start with a quantifier.\<close>

definition no_quant :: "u8 list \<Rightarrow> bool" where
  "no_quant post \<longleftrightarrow> (case post of [] \<Rightarrow> True | b # _ \<Rightarrow> b \<notin> {42, 43, 63, 123})"

lemma quantifier_at_show:
  assumes "drop i bs = show_quant q @ post" "wf_quant q" "no_quant post"
  shows "quantifier_at bs i = (unbounded_quant q, length (show_quant q))"
proof (cases "show_quant q")
  case Nil
  then have "q = QNone" by (cases q) auto
  with assms(1,3) show ?thesis
    by (cases "drop i bs") (auto simp: quantifier_at_def no_quant_def dest: drop_ConsD)
next
  case (Cons b r)
  with assms(1) drop_ConsD[of i bs b "r @ post"] have b: "i < length bs" "bs ! i = b" by auto
  show ?thesis
  proof (cases "b = 123")
    case True
    with b brace_quantifier_show[OF assms(1,2)] Cons show ?thesis by (simp add: quantifier_at_def)
  next
    case False
    with b Cons show ?thesis by (cases q) (auto simp: quantifier_at_def)
  qed
qed

lemma or_top_or_top [simp]: "or_top a (or_top b fr) = or_top (a \<or> b) fr"
  by (cases fr) auto

lemma or_top_False [simp]: "or_top False fr = fr"
  by (cases fr) auto

text \<open>A quantifier that follows a single character or a class.\<close>

lemma lint_quant:
  assumes "drop i bs = show_quant q @ post" "wf_quant q"
  shows "lint_loop bs i fr = lint_loop bs (i + length (show_quant q)) (or_top (unbounded_quant q) fr)"
proof (cases "show_quant q")
  case Nil
  then have "q = QNone" by (cases q) auto
  then show ?thesis by simp
next
  case (Cons b r)
  with assms(1) drop_ConsD[of i bs b "r @ post"] have b: "i < length bs" "bs ! i = b" by auto
  show ?thesis
  proof (cases "b = 123")
    case True
    with b brace_quantifier_show[OF assms] Cons show ?thesis by (simp add: lint_loop.simps[of bs i])
  next
    case False
    with b Cons show ?thesis by (cases q) (auto simp: lint_loop.simps[of bs i])
  qed
qed

lemma class_loop_items:
  "drop i bs = concat (map show_class_item cs) @ 93 # post \<Longrightarrow> list_all wf_class_item cs \<Longrightarrow>
    class_loop bs i = i + length (concat (map show_class_item cs))"
proof (induction cs arbitrary: i)
  case Nil
  then show ?case using drop_ConsD[of i bs 93 post] by (simp add: class_loop.simps)
next
  case (Cons c cs)
  show ?case
  proof (cases c)
    case (CLit b)
    with Cons.prems drop_ConsD[of i bs b] have "i < length bs" "bs ! i = b"
      "drop (Suc i) bs = concat (map show_class_item cs) @ 93 # post" by auto
    with Cons.IH[of "Suc i"] Cons.prems CLit show ?thesis by (simp add: class_loop.simps[of bs i])
  next
    case (CEsc b)
    with Cons.prems drop_ConsD[of i bs 92] have s: "i < length bs" "bs ! i = 92"
      "drop (Suc i) bs = b # concat (map show_class_item cs) @ 93 # post" by auto
    with Cons.IH[of "Suc (Suc i)"] Cons.prems CEsc drop_ConsD[OF s(3)] show ?thesis
      by (simp add: class_loop.simps[of bs i])
  qed
qed

lemma skip_class_show:
  assumes D: "drop i bs = [91] @ (if neg then [94] else []) @ (if br then [93] else []) @
      concat (map show_class_item cs) @ [93] @ post" and wf: "list_all wf_class_item cs" and ne: "br \<or> cs \<noteq> []"
  shows "skip_class bs i = i + length ([91] @ (if neg then [94] else []) @ (if br then [93] else []) @
      concat (map show_class_item cs))"
proof -
  let ?cs = "concat (map show_class_item cs) @ 93 # post"
  let ?br = "(if br then [93] else []) @ ?cs"
  obtain b r where cs: "?cs = b # r" "b \<noteq> 94" "cs \<noteq> [] \<Longrightarrow> b \<noteq> 93"
    using wf by (cases cs; cases "hd cs"; simp)
  obtain b' r' where br: "?br = b' # r'" "b' \<noteq> 94" using cs by (cases br) auto
  have D1: "drop (Suc i) bs = (if neg then [94] else []) @ ?br"
    using drop_ConsD[of i bs 91] D by simp
  define i2 where "i2 = (if Suc i < length bs \<and> bs ! Suc i = 94 then Suc (Suc i) else Suc i)"
  define i3 where "i3 = (if i2 < length bs \<and> bs ! i2 = 93 then Suc i2 else i2)"
  have i2: "i2 = Suc i + (if neg then 1 else 0)" "drop i2 bs = ?br"
    using D1 drop_ConsD[of "Suc i" bs 94 ?br] drop_ConsD[of "Suc i" bs b' r'] br
    by (auto simp: i2_def split: if_splits)
  have i3: "i3 = i2 + (if br then 1 else 0)" "drop i3 bs = ?cs"
    using i2(2) drop_ConsD[of i2 bs 93 ?cs] drop_ConsD[of i2 bs b r] cs ne
    by (auto simp: i3_def split: if_splits)
  have "skip_class bs i = class_loop bs i3" unfolding skip_class_def Let_def i3_def i2_def Suc_eq_plus1 ..
  also have "\<dots> = i3 + length (concat (map show_class_item cs))"
    by (rule class_loop_items[OF i3(2) wf])
  finally show ?thesis using i2 i3 by simp
qed

text \<open>An item moves the scan past it and tells the enclosing group whether it is unbounded.\<close>

definition scans :: "u8 list \<Rightarrow> nat \<Rightarrow> bool list \<Rightarrow> nat \<Rightarrow> bool \<Rightarrow> bool \<Rightarrow> bool" where
  "scans bs i fr n bad unb \<longleftrightarrow>
     lint_loop bs i fr = (if bad then Err NESTED else lint_loop bs (i + n) (or_top unb fr))"

lemma no_quant_item: "wf_item it \<Longrightarrow> no_quant (show_item it @ post)"
  by (cases it) (auto simp: no_quant_def)

lemma no_quant_items: "list_all wf_item its \<Longrightarrow> no_quant post \<Longrightarrow> no_quant (concat (map show_item its) @ post)"
  using no_quant_item by (cases its) auto

lemma scans_items:
  assumes "\<And>it i post fr. it \<in> set its \<Longrightarrow> drop i bs = show_item it @ post \<Longrightarrow> wf_item it \<Longrightarrow> no_quant post \<Longrightarrow>
      scans bs i fr (length (show_item it)) (nested_unbounded it) (unbounded it)"
    and "drop i bs = concat (map show_item its) @ post" "list_all wf_item its" "no_quant post"
  shows "scans bs i fr (length (concat (map show_item its))) (list_ex nested_unbounded its) (list_ex unbounded its)"
  using assms
proof (induction its arbitrary: i fr)
  case Nil
  then show ?case by (simp add: scans_def)
next
  case (Cons it its)
  have "drop (i + length (show_item it)) bs = concat (map show_item its) @ post"
    by (rule drop_appendD) (use Cons.prems(2) in simp)
  with Cons.IH Cons.prems have IH: "scans bs (i + length (show_item it)) fr' (length (concat (map show_item its)))
      (list_ex nested_unbounded its) (list_ex unbounded its)" for fr' by simp
  have "no_quant (concat (map show_item its) @ post)" using Cons.prems by (intro no_quant_items) auto
  with Cons.prems have "scans bs i fr (length (show_item it)) (nested_unbounded it) (unbounded it)"
    by (intro Cons.prems(1)[of it i "concat (map show_item its) @ post"]) auto
  with IH show ?case by (auto simp: scans_def add.assoc disj_commute)
qed

lemma scans_item:
  "drop i bs = show_item it @ post \<Longrightarrow> wf_item it \<Longrightarrow> no_quant post \<Longrightarrow>
    scans bs i fr (length (show_item it)) (nested_unbounded it) (unbounded it)"
proof (induction it arbitrary: i post fr)
  case (Lit b q)
  then have d: "i < length bs \<and> bs ! i = b \<and> drop (Suc i) bs = show_quant q @ post"
    using drop_ConsD[of i bs b "show_quant q @ post"] by simp
  then have "lint_loop bs i fr = lint_loop bs (Suc i) fr"
    using Lit.prems(2) by (simp add: lint_loop.simps[of bs i])
  with lint_quant[of "Suc i" bs q post fr] d Lit.prems(2) show ?case by (simp add: scans_def)
next
  case (Esc b q)
  then have d: "i < length bs \<and> bs ! i = 92 \<and> drop (Suc i) bs = b # show_quant q @ post"
    using drop_ConsD[of i bs 92 "b # show_quant q @ post"] by simp
  then have d2: "drop (Suc (Suc i)) bs = show_quant q @ post"
    using drop_ConsD[of "Suc i" bs b "show_quant q @ post"] by simp
  have "lint_loop bs i fr = lint_loop bs (Suc (Suc i)) fr"
    using d by (simp add: lint_loop.simps[of bs i])
  with lint_quant[OF d2] Esc.prems(2) show ?case by (simp add: scans_def)
next
  case (Class neg br cs q)
  let ?c = "[91] @ (if neg then [94] else []) @ (if br then [93] else []) @ concat (map show_class_item cs)"
  have D: "drop i bs = ?c @ [93] @ show_quant q @ post" using Class.prems(1) by simp
  have s: "skip_class bs i = i + length ?c"
    by (rule skip_class_show[where post = "show_quant q @ post"]) (use D Class.prems(2) in auto)
  have "drop (i + length ?c) bs = [93] @ show_quant q @ post"
    using drop_appendD[OF D] by simp
  then have d2: "drop (i + length ?c + 1) bs = show_quant q @ post"
    using drop_ConsD[of "i + length ?c" bs 93] by simp
  have "i < length bs \<and> bs ! i = 91" using D drop_ConsD[of i bs 91] by simp
  then have "lint_loop bs i fr = lint_loop bs (i + length ?c + 1) fr"
    by (simp only: lint_loop.simps[of bs i] s) simp
  with lint_quant[OF d2, of fr] Class.prems(2) show ?case by (simp add: scans_def add.assoc)
next
  case (Group nc its q)
  let ?h = "(if nc then [63, 58] else []) :: u8 list" and ?b = "concat (map show_item its)"
  have D: "drop i bs = 40 # ?h @ ?b @ 41 # show_quant q @ post" using Group.prems(1) by simp
  from drop_ConsD[OF D] have d: "i < length bs" "bs ! i = 40" "drop (Suc i) bs = ?h @ ?b @ 41 # show_quant q @ post" by auto
  have h: "lint_loop bs (Suc i) (False # fr) = lint_loop bs (Suc i + length ?h) (False # fr)"
  proof (cases nc)
    case True
    with drop_ConsD[of "Suc i" bs 63] d(3)
    have "Suc i < length bs" "bs ! Suc i = 63" "drop (Suc (Suc i)) bs = 58 # ?b @ 41 # show_quant q @ post" by auto
    with drop_ConsD[of "Suc (Suc i)" bs 58] True show ?thesis
      by (simp add: lint_loop.simps[of bs "Suc i"] lint_loop.simps[of bs "Suc (Suc i)"])
  qed simp
  let ?j = "Suc i + length ?h"
  have dj: "drop ?j bs = ?b @ 41 # show_quant q @ post"
    using drop_appendD[OF d(3)] by simp
  have B: "scans bs ?j (False # fr) (length ?b) (list_ex nested_unbounded its) (list_ex unbounded its)"
    by (rule scans_items[OF Group.IH dj]) (use Group.prems in \<open>auto simp: no_quant_def\<close>)
  let ?k = "?j + length ?b"
  have "drop ?k bs = 41 # show_quant q @ post" using drop_appendD[OF dj] by simp
  from drop_ConsD[OF this] have k: "?k < length bs" "bs ! ?k = 41" "drop (Suc ?k) bs = show_quant q @ post" by auto
  have Q: "quantifier_at bs (?k + 1) = (unbounded_quant q, length (show_quant q))"
    using quantifier_at_show[OF k(3)] Group.prems by simp
  have K: "lint_loop bs ?k (t # fr) = (if unbounded_quant q \<and> t then Err NESTED
      else lint_loop bs (?k + length (show_quant q) + 1) (or_top (t \<or> unbounded_quant q) fr))" for t
    unfolding lint_loop.simps[of bs ?k] Q using k by simp
  have "lint_loop bs i fr = lint_loop bs ?j (False # fr)"
    using d(1,2) h by (simp add: lint_loop.simps[of bs i])
  with B K show ?case
    by (auto simp: scans_def add.assoc)
qed

section \<open>Properties\<close>



end
