(* ===== verification/Envelope.thy ===== *)
theory Envelope
  imports Prelude
begin

text \<open>
  The unit of work, \<^verbatim>\<open>crates/archiv-pipeline/src/envelope.rs\<close>: record views (ranges into the raw
  request), the additive per-stage decisions and the envelope, with the trace-id decoding.
\<close>

section \<open>Views\<close>

record attr_view =
  av_key :: brange
  av_value :: brange

record record_view =
  rv_body :: brange
  rv_trace_id :: "brange option"
  rv_attrs :: "attr_view list"
  rv_severity_number :: "i32 option"
  rv_namespace :: "brange option"
  rv_service_name :: "brange option"

subsection \<open>Trace ids\<close>

definition nibble :: "u8 \<Rightarrow> u8 option" where
  "nibble b =
     (if 48 \<le> b \<and> b \<le> 57 then Some (b - 48)
      else if 97 \<le> b \<and> b \<le> 102 then Some (b - 97 + 10)
      else if 65 \<le> b \<and> b \<le> 70 then Some (b - 65 + 10)
      else None)"

text \<open>The loop over \<^verbatim>\<open>hex.chunks_exact(2)\<close>; an odd last byte is no chunk.\<close>

fun decode_pairs :: "u8 list \<Rightarrow> u8 list option" where
  "decode_pairs (a # b # hex) =
     (case nibble a of None \<Rightarrow> None
      | Some x \<Rightarrow> (case nibble b of None \<Rightarrow> None
          | Some y \<Rightarrow> map_option ((#) (push_bit 4 x OR y)) (decode_pairs hex)))"
| "decode_pairs _ = Some []"

definition decode_hex_16 :: "u8 list \<Rightarrow> u8 list option" where
  "decode_hex_16 hex = (if length hex \<noteq> 32 then None else decode_pairs hex)"

definition trace_id_bytes :: "record_view \<Rightarrow> u8 list \<Rightarrow> u8 list option" where
  "trace_id_bytes rv raw =
     (case rv_trace_id rv of None \<Rightarrow> None
      | Some r \<Rightarrow> (case buf_get raw (rstart r) (rend r) of None \<Rightarrow> None
          | Some src \<Rightarrow>
              if length src = 16 then Some src
              else if length src = 32 then decode_hex_16 src
              else None))"

definition namespace_bytes :: "record_view \<Rightarrow> u8 list \<Rightarrow> u8 list option" where
  "namespace_bytes rv raw =
     (case rv_namespace rv of None \<Rightarrow> None | Some r \<Rightarrow> buf_get raw (rstart r) (rend r))"

definition service_name_bytes :: "record_view \<Rightarrow> u8 list \<Rightarrow> u8 list option" where
  "service_name_bytes rv raw =
     (case rv_service_name rv of None \<Rightarrow> None | Some r \<Rightarrow> buf_get raw (rstart r) (rend r))"

text \<open>The hexadecimal spelling of a byte list, in lower or upper case digits.\<close>

definition hex_digit :: "bool \<Rightarrow> u8 \<Rightarrow> u8" where
  "hex_digit upper n = (if n < 10 then n + 48 else if upper then n + 55 else n + 87)"

definition hex_of :: "bool \<Rightarrow> u8 list \<Rightarrow> u8 list" where
  "hex_of upper bs = concat (map (\<lambda>b. [hex_digit upper (drop_bit 4 b), hex_digit upper (b AND 15)]) bs)"

lemma nibble_hex_digit:
  assumes "n < 16"
  shows "nibble (hex_digit upper n) = Some n"
proof -
  have "unat n < 16" using assms by (simp add: word_less_nat_alt)
  then obtain k where n: "n = word_of_nat k" and "k < 16"
    by (intro that[of "unat n"]) simp_all
  moreover have "list_all (\<lambda>k. nibble (hex_digit upper (word_of_nat k)) = Some (word_of_nat k)) [0..<16]"
    by (cases upper) (simp_all add: upt_conv_Cons nibble_def hex_digit_def)
  ultimately show ?thesis by (simp add: list_all_iff)
qed

lemma byte_nibbles:
  fixes b :: u8
  shows "drop_bit 4 b < 16" "b AND 15 < 16" "push_bit 4 (drop_bit 4 b) OR (b AND 15) = b"
proof -
  have m: "(15 :: u8) = mask 4" by (simp add: mask_eq_exp_minus_1)
  show "push_bit 4 (drop_bit 4 b) OR (b AND 15) = b"
    unfolding m by (rule bit_word_eqI) (auto simp: bit_simps)
  have "unat b < 2 ^ 8" using unsigned_less[of b] by simp
  then show "drop_bit 4 b < 16"
    unfolding word_less_nat_alt unat_drop_bit_eq by (simp add: drop_bit_eq_div)
  have "unat (take_bit 4 b) < 16"
    unfolding unsigned_take_bit_eq by (simp add: take_bit_eq_mod)
  then show "b AND 15 < 16"
    unfolding m word_less_nat_alt take_bit_eq_mask[symmetric] by simp
qed

lemma decode_pairs_hex_of: "decode_pairs (hex_of upper bs) = Some bs"
  by (induction bs) (simp_all add: hex_of_def nibble_hex_digit byte_nibbles)

section \<open>Decisions\<close>

text \<open>\<^verbatim>\<open>StageId(&'static str)\<close> of \<^verbatim>\<open>guard.rs\<close> and \<^verbatim>\<open>MaskId(u32)\<close>.\<close>

datatype stage_id = StageId string

datatype mask_id = MaskId (mask_num: u32)

record redaction =
  rd_target :: brange
  rd_mask :: mask_id

datatype sample_verdict = Keep | Drop

record stage_redaction =
  sr_stage :: stage_id
  sr_record :: nat
  sr_redaction :: redaction

record decisions =
  dc_sampling :: "sample_verdict list"
  dc_redactions :: "stage_redaction list"

definition decisions_default :: decisions where
  "decisions_default = \<lparr>dc_sampling = [], dc_redactions = []\<rparr>"

definition STAGE_SAMPLE :: stage_id where
  "STAGE_SAMPLE = StageId ''sample''"

definition set_sampling :: "sample_verdict list \<Rightarrow> decisions \<Rightarrow> decisions" where
  "set_sampling verdicts d = d\<lparr>dc_sampling := verdicts\<rparr>"

definition sampling_verdict :: "decisions \<Rightarrow> nat \<Rightarrow> sample_verdict" where
  "sampling_verdict d idx = (if idx < length (dc_sampling d) then dc_sampling d ! idx else Keep)"

definition push_redaction :: "stage_id \<Rightarrow> nat \<Rightarrow> redaction \<Rightarrow> decisions \<Rightarrow> decisions" where
  "push_redaction stage rec redaction d =
     d\<lparr>dc_redactions := dc_redactions d @ [\<lparr>sr_stage = stage, sr_record = rec, sr_redaction = redaction\<rparr>]\<rparr>"

definition redactions_for :: "decisions \<Rightarrow> nat \<Rightarrow> redaction list" where
  "redactions_for d rec = map sr_redaction (filter (\<lambda>r. sr_record r = rec) (dc_redactions d))"

definition any_dropped :: "decisions \<Rightarrow> bool" where
  "any_dropped d \<longleftrightarrow> Drop \<in> set (dc_sampling d)"

definition redaction_total :: "decisions \<Rightarrow> nat" where
  "redaction_total d = length (dc_redactions d)"

definition clear_stage :: "stage_id \<Rightarrow> decisions \<Rightarrow> decisions" where
  "clear_stage i d =
     (let d' = d\<lparr>dc_redactions := filter (\<lambda>r. sr_stage r \<noteq> i) (dc_redactions d)\<rparr>
      in if i = STAGE_SAMPLE then d'\<lparr>dc_sampling := []\<rparr> else d')"

section \<open>The envelope\<close>

text \<open>\<open>ev_received_at\<close> is the \<^verbatim>\<open>Instant\<close> of reception; \<open>envelope_new\<close> takes the clock reading.\<close>

record envelope =
  ev_raw :: "u8 list"
  ev_records :: "record_view list"
  ev_decisions :: decisions
  ev_received_at :: nat

definition envelope_new :: "nat \<Rightarrow> u8 list \<Rightarrow> envelope" where
  "envelope_new now raw =
     \<lparr>ev_raw = raw, ev_records = [], ev_decisions = decisions_default, ev_received_at = now\<rparr>"

section \<open>Lemmas on decisions\<close>

lemma redactions_for_push [simp]:
  "redactions_for (push_redaction st rec r d) i = redactions_for d i @ (if rec = i then [r] else [])"
  by (simp add: redactions_for_def push_redaction_def)

lemma redaction_total_push [simp]: "redaction_total (push_redaction st rec r d) = Suc (redaction_total d)"
  by (simp add: redaction_total_def push_redaction_def)

lemma push_redaction_sampling [simp]: "dc_sampling (push_redaction st rec r d) = dc_sampling d"
  by (simp add: push_redaction_def)

lemma clear_stage_sampling: "dc_sampling (clear_stage i d) = (if i = STAGE_SAMPLE then [] else dc_sampling d)"
  by (simp add: clear_stage_def Let_def)

lemma clear_stage_redactions: "dc_redactions (clear_stage i d) = filter (\<lambda>r. sr_stage r \<noteq> i) (dc_redactions d)"
  by (simp add: clear_stage_def Let_def)

lemma clear_stage_idem: "clear_stage i (clear_stage i d) = clear_stage i d"
  by (simp add: clear_stage_def Let_def)

lemma clear_stage_undo:
  assumes "dc_sampling d' = dc_sampling d" "dc_redactions d' = dc_redactions d @ new"
    "\<forall>r \<in> set new. sr_stage r = i" "\<forall>r \<in> set (dc_redactions d). sr_stage r \<noteq> i" "i \<noteq> STAGE_SAMPLE"
  shows "clear_stage i d' = d"
  using assms by (simp add: clear_stage_def filter_id_conv)

lemma sampling_verdict_Drop: "sampling_verdict d i = Drop \<Longrightarrow> any_dropped d"
  by (auto simp: sampling_verdict_def any_dropped_def split: if_splits) (metis nth_mem)

section \<open>Properties\<close>

text \<open>
  The trace id of a record does not depend on how the transport delivered it: 16 binary bytes
  and their 32 hexadecimal digits, in either case, decode to the same array.
\<close>

theorem trace_id_hex_roundtrip:
  assumes "length tid = 16"
  shows "trace_id_bytes (rv\<lparr>rv_trace_id := Some (rng (length pre) (length pre + 32))\<rparr>)
           (pre @ hex_of upper tid @ suf) = Some tid \<and>
         trace_id_bytes (rv\<lparr>rv_trace_id := Some (rng (length pre) (length pre + 16))\<rparr>)
           (pre @ tid @ suf) = Some tid"
proof -
  have "length (hex_of upper tid) = 32"
    using assms by (simp add: hex_of_def length_concat o_def sum_list_triv)
  then show ?thesis
    using assms by (simp add: trace_id_bytes_def buf_get_def bslice_def decode_hex_16_def decode_pairs_hex_of)
qed

theorem trace_id_hex_roundtrip_witness:
  "trace_id_bytes \<lparr>rv_body = rng 0 0, rv_trace_id = Some (rng 1 33), rv_attrs = [],
       rv_severity_number = None, rv_namespace = None, rv_service_name = None\<rparr>
     ([7] @ hex_of True (replicate 16 171) @ [9]) = Some (replicate 16 171)"
  using trace_id_hex_roundtrip[where tid = "replicate 16 171" and rv = "\<lparr>rv_body = rng 0 0, rv_trace_id = None, rv_attrs = [],
       rv_severity_number = None, rv_namespace = None, rv_service_name = None\<rparr>" and pre = "[7]" and upper = True and suf = "[9]"]
  by simp

end
