(* ===== verification/Guard.thy ===== *)
theory Guard
  imports Envelope
begin

text \<open>
  The fail-open guard, \<^verbatim>\<open>crates/archiv-pipeline/src/guard.rs\<close>: stages, outcomes and \<^verbatim>\<open>guarded\<close>, and
  the contract a stage must keep for a bypass to be a clean undo (the locale
  \<open>fail_open_stage\<close>; the stages of the pipeline interpret it where they are defined).
\<close>

datatype stage_error = RuleFailed u32 string | Internal string

datatype bypass_reason = BypassPanic | BypassError stage_error

datatype stage_outcome = Applied | Bypassed bypass_reason

text \<open>
  The trait \<^verbatim>\<open>Stage\<close>.  \<^verbatim>\<open>apply\<close> takes \<open>&self\<close>, which may hold atomic counters, and \<open>&mut env\<close>; the
  model returns both as the call left them, also when it failed or panicked half-way.
\<close>

record 'st stage =
  st_id :: stage_id
  st_apply :: "'st \<Rightarrow> envelope \<Rightarrow> ('st \<times> envelope) \<times> (stage_error, unit) result"

text \<open>Sequencing of calls that thread a state and may fail: \<^verbatim>\<open>?\<close> and unwinding, with the state kept.\<close>

fun seqr :: "'s \<times> ('e, unit) result \<Rightarrow> ('s \<Rightarrow> 's \<times> ('e, unit) result) \<Rightarrow> 's \<times> ('e, unit) result" where
  "seqr (s, Ok u) f = f s"
| "seqr (s, Err e) f = (s, Err e)"
| "seqr (s, Panic) f = (s, Panic)"

lemma seqr_inv:
  assumes "\<And>s' q. r = (s', q) \<Longrightarrow> R s s'" "\<And>s1 s2 q. f s1 = (s2, q) \<Longrightarrow> R s s1 \<Longrightarrow> R s s2" "seqr r f = (s', q)"
  shows "R s s'"
  using assms by (cases "(r, f)" rule: seqr.cases) auto

definition guarded :: "'st stage \<Rightarrow> 'st \<Rightarrow> envelope \<Rightarrow> ('st \<times> envelope) \<times> stage_outcome" where
  "guarded stage self env =
     (case st_apply stage self env of
        ((self', env'), Ok _) \<Rightarrow> ((self', env'), Applied)
      | ((self', env'), Err e) \<Rightarrow>
          ((self', env'\<lparr>ev_decisions := clear_stage (st_id stage) (ev_decisions env')\<rparr>),
           Bypassed (BypassError e))
      | ((self', env'), Panic) \<Rightarrow>
          ((self', env'\<lparr>ev_decisions := clear_stage (st_id stage) (ev_decisions env')\<rparr>),
           Bypassed BypassPanic))"

section \<open>The contract of a stage\<close>

text \<open>
  What \<^verbatim>\<open>guard.rs\<close> calls the zero-copy model: a stage never touches the raw bytes, and its decisions
  are additive redaction spans that carry its own id, whether it succeeds, fails or panics.
\<close>

locale fail_open_stage =
  fixes stage :: "'st stage"
  assumes keeps_raw: "st_apply stage self env = ((self', env'), r) \<Longrightarrow>
      ev_raw env' = ev_raw env \<and> ev_received_at env' = ev_received_at env"
    and additive: "st_apply stage self env = ((self', env'), r) \<Longrightarrow>
      dc_sampling (ev_decisions env') = dc_sampling (ev_decisions env) \<and>
      (\<exists>new. dc_redactions (ev_decisions env') = dc_redactions (ev_decisions env) @ new \<and>
        (\<forall>x \<in> set new. sr_stage x = st_id stage))"
    and not_sampling: "st_id stage \<noteq> STAGE_SAMPLE"
begin

lemma guarded_keeps_raw:
  assumes "guarded stage self env = ((self', env'), out)"
  shows "ev_raw env' = ev_raw env" "ev_received_at env' = ev_received_at env"
  using assms keeps_raw[of self env] by (auto simp: guarded_def split: prod.splits result.splits)

lemma guarded_keeps_sampling:
  assumes "guarded stage self env = ((self', env'), out)"
  shows "dc_sampling (ev_decisions env') = dc_sampling (ev_decisions env)"
  using assms additive[of self env] not_sampling
  by (auto simp: guarded_def clear_stage_sampling split: prod.splits result.splits)

lemma guarded_other_stages:
  assumes "guarded stage self env = ((self', env'), out)"
  shows "filter (\<lambda>r. sr_stage r \<noteq> st_id stage) (dc_redactions (ev_decisions env')) =
    filter (\<lambda>r. sr_stage r \<noteq> st_id stage) (dc_redactions (ev_decisions env))"
  using assms additive[of self env]
  by (auto simp: guarded_def clear_stage_redactions split: prod.splits result.splits)

lemma guarded_bypass:
  assumes g: "guarded stage self env = ((self', env'), Bypassed why)"
    and fresh: "\<forall>r \<in> set (dc_redactions (ev_decisions env)). sr_stage r \<noteq> st_id stage"
  shows "ev_decisions env' = ev_decisions env"
proof -
  obtain self1 env1 res where a: "st_apply stage self env = ((self1, env1), res)"
    by (metis prod.collapse)
  with g have e: "env' = env1\<lparr>ev_decisions := clear_stage (st_id stage) (ev_decisions env1)\<rparr>"
    by (auto simp: guarded_def split: result.splits)
  from additive[OF a] obtain new where
    "dc_sampling (ev_decisions env1) = dc_sampling (ev_decisions env)"
    "dc_redactions (ev_decisions env1) = dc_redactions (ev_decisions env) @ new"
    "\<forall>x \<in> set new. sr_stage x = st_id stage" by blast
  then have "clear_stage (st_id stage) (ev_decisions env1) = ev_decisions env"
    using fresh not_sampling by (rule clear_stage_undo)
  with e show ?thesis by simp
qed

end

end
