(* ===== verification/Redact.thy ===== *)
theory Redact
  imports Glob Lint Guard
begin

text \<open>
  The regex redaction engine, \<^verbatim>\<open>crates/archiv-redact/src/lib.rs\<close>: field selectors, the compilation of
  rule specifications, and the stage that turns matches into redaction spans.  The crate \<^verbatim>\<open>regex\<close> is
  third-party; the operations the source calls are a parameter.
\<close>

section \<open>The regex library\<close>

record ('rx, 'rs) regex_lib =
  rx_build :: "u8 list \<Rightarrow> nat \<Rightarrow> string + 'rx"
  rx_find_iter :: "'rx \<Rightarrow> u8 list \<Rightarrow> (nat \<times> nat) list"
  rx_set_build :: "u8 list list \<Rightarrow> nat \<Rightarrow> string + 'rs"
  rx_set_matches :: "'rs \<Rightarrow> u8 list \<Rightarrow> nat list"

text \<open>
  Its documented behaviour: matches are in-order ranges of the haystack, and a set of patterns
  reports, in ascending order, the indexes of those that match anywhere in it.
\<close>

definition regex_contract :: "('rx, 'rs) regex_lib \<Rightarrow> bool" where
  "regex_contract lib \<longleftrightarrow>
     (\<forall>rx h. list_all (\<lambda>(s, e). s \<le> e \<and> e \<le> length h) (rx_find_iter lib rx h)) \<and>
     (\<forall>ps lim rs rxs h. rx_set_build lib ps lim = Inr rs \<longrightarrow>
        list_all2 (\<lambda>p rx. \<exists>l. rx_build lib p l = Inr rx) ps rxs \<longrightarrow>
        rx_set_matches lib rs h = filter (\<lambda>i. rx_find_iter lib (rxs ! i) h \<noteq> []) [0..<length ps])"

section \<open>Rules and their compilation\<close>

definition STAGE_REDACT_REGEX :: stage_id where
  "STAGE_REDACT_REGEX = StageId ''redact-regex''"

datatype field_selector = Body | Attrs "u8 list"

text \<open>\<^verbatim>\<open>str::strip_prefix\<close>.\<close>

definition strip_prefix :: "u8 list \<Rightarrow> u8 list \<Rightarrow> u8 list option" where
  "strip_prefix p s = (if take (length p) s = p then Some (drop (length p) s) else None)"

lemma strip_prefix_Some: "strip_prefix p s = Some t \<longleftrightarrow> s = p @ t"
  by (auto simp: strip_prefix_def) (metis append_take_drop_id)

lemma strip_prefix_None: "strip_prefix p s = None \<longleftrightarrow> (\<forall>t. s \<noteq> p @ t)"
  using strip_prefix_Some[of p s] by (cases "strip_prefix p s") auto

definition field_selector_parse :: "u8 list \<Rightarrow> field_selector option" where
  "field_selector_parse s =
     (if s = bytes ''body'' then Some Body
      else case strip_prefix (bytes ''attributes.'') s of
          None \<Rightarrow> None
        | Some glob \<Rightarrow> if glob = [] then None else Some (Attrs glob))"

record rule_spec =
  spec_name :: "u8 list"
  spec_pattern :: "u8 list"
  spec_mask :: "u8 list"
  spec_fields :: "field_selector list"

record compile_limits =
  cl_size_limit :: nat

definition compile_limits_default :: compile_limits where
  "compile_limits_default = \<lparr>cl_size_limit = 2 ^ 20\<rparr>"

datatype compile_error =
    NestedRepetition "u8 list" string
  | RegexRejected "u8 list" string
  | Selector "u8 list" "u8 list"
  | NoFields "u8 list"

record 'rx compiled_rule =
  cr_name :: "u8 list"
  cr_regex :: 'rx
  cr_mask :: mask_id
  cr_fields :: "field_selector list"

definition applies_to_body :: "'rx compiled_rule \<Rightarrow> bool" where
  "applies_to_body rule \<longleftrightarrow> Body \<in> set (cr_fields rule)"

definition applies_to_attr :: "'rx compiled_rule \<Rightarrow> u8 list \<Rightarrow> bool" where
  "applies_to_attr rule key \<longleftrightarrow>
     list_ex (\<lambda>f. case f of Body \<Rightarrow> False | Attrs g \<Rightarrow> glob_match g key) (cr_fields rule)"

record ('rx, 'rs) redact_engine =
  re_prefilter :: 'rs
  re_rules :: "'rx compiled_rule list"
  re_masks :: "u8 list list"

text \<open>The validation loop of \<^verbatim>\<open>compile\<close>.\<close>

fun compile_regexes ::
  "('rx, 'rs) regex_lib \<Rightarrow> compile_limits \<Rightarrow> rule_spec list \<Rightarrow> (compile_error, 'rx list) result" where
  "compile_regexes lib limits [] = Ok []"
| "compile_regexes lib limits (spec # specs) =
     (if spec_fields spec = [] then Err (NoFields (spec_name spec))
      else case check_nested_repetition (spec_pattern spec) of
          Err detail \<Rightarrow> Err (NestedRepetition (spec_name spec) detail)
        | Panic \<Rightarrow> Panic
        | Ok _ \<Rightarrow>
            (case rx_build lib (spec_pattern spec) (cl_size_limit limits) of
               Inl source \<Rightarrow> Err (RegexRejected (spec_name spec) source)
             | Inr rx \<Rightarrow> rbind (compile_regexes lib limits specs) (\<lambda>rxs. Ok (rx # rxs))))"

text \<open>\<^verbatim>\<open>Iterator::position\<close>.\<close>

fun position :: "('a \<Rightarrow> bool) \<Rightarrow> 'a list \<Rightarrow> nat option" where
  "position p [] = None"
| "position p (x # xs) = (if p x then Some 0 else map_option Suc (position p xs))"

text \<open>The loop that interns masks and builds the rules.\<close>

fun intern_rules ::
  "(rule_spec \<times> 'rx) list \<Rightarrow> 'rx compiled_rule list \<Rightarrow> u8 list list \<Rightarrow> 'rx compiled_rule list \<times> u8 list list" where
  "intern_rules [] rules masks = (rules, masks)"
| "intern_rules ((spec, regex) # rest) rules masks =
     (let (mid, masks) = (case position (\<lambda>m. m = spec_mask spec) masks of
            Some i \<Rightarrow> (MaskId (of_nat i), masks)
          | None \<Rightarrow> (let masks = masks @ [spec_mask spec] in (MaskId (of_nat (length masks - 1)), masks)))
      in intern_rules rest
           (rules @ [\<lparr>cr_name = spec_name spec, cr_regex = regex, cr_mask = mid, cr_fields = spec_fields spec\<rparr>])
           masks)"

definition saturating_mul :: "nat \<Rightarrow> nat \<Rightarrow> nat" where
  "saturating_mul a b = min (a * b) (2 ^ 64 - 1)"

definition redact_compile ::
  "('rx, 'rs) regex_lib \<Rightarrow> rule_spec list \<Rightarrow> compile_limits \<Rightarrow> (compile_error, ('rx, 'rs) redact_engine) result" where
  "redact_compile lib specs limits =
     rbind (compile_regexes lib limits specs) (\<lambda>regexes.
       case rx_set_build lib (map spec_pattern specs) (saturating_mul (cl_size_limit limits) (max (length specs) 1)) of
         Inl source \<Rightarrow> Err (RegexRejected (bytes ''<set>'') source)
       | Inr prefilter \<Rightarrow>
           (let (rules, masks) = intern_rules (zip specs regexes) [] []
            in Ok \<lparr>re_prefilter = prefilter, re_rules = rules, re_masks = masks\<rparr>))"

definition mask_bytes :: "('rx, 'rs) redact_engine \<Rightarrow> mask_id \<Rightarrow> u8 list option" where
  "mask_bytes engine mid =
     (let i = unat (mask_num mid) in if i < length (re_masks engine) then Some (re_masks engine ! i) else None)"

definition rule_names :: "('rx, 'rs) redact_engine \<Rightarrow> u8 list list" where
  "rule_names engine = map cr_name (re_rules engine)"

section \<open>The stage\<close>

record ('rx, 'rs) redact_stage =
  rs_engine :: "('rx, 'rs) redact_engine"
  rs_counts :: "u64 list"

definition redact_stage_new :: "('rx, 'rs) redact_engine \<Rightarrow> ('rx, 'rs) redact_stage" where
  "redact_stage_new engine = \<lparr>rs_engine = engine, rs_counts = map (\<lambda>_. 0) (re_rules engine)\<rparr>"

definition redact_counts :: "('rx, 'rs) redact_stage \<Rightarrow> (u8 list \<times> u64) list" where
  "redact_counts self = zip (map cr_name (re_rules (rs_engine self))) (rs_counts self)"

text \<open>
  The state a call threads through: the atomic counters and the decisions.  A panic (an index out
  of range) leaves both as they were when it was raised.
\<close>

type_synonym redact_state = "u64 list \<times> decisions"

fun push_matches ::
  "nat \<Rightarrow> nat \<Rightarrow> nat \<Rightarrow> mask_id \<Rightarrow> (nat \<times> nat) list \<Rightarrow> redact_state \<Rightarrow> redact_state \<times> (stage_error, unit) result" where
  "push_matches base rec rule_idx mid [] st = (st, Ok ())"
| "push_matches base rec rule_idx mid ((s, e) # ms) (counts, d) =
     (let d = push_redaction STAGE_REDACT_REGEX rec \<lparr>rd_target = rng (base + s) (base + e), rd_mask = mid\<rparr> d
      in if rule_idx < length counts
         then push_matches base rec rule_idx mid ms (counts[rule_idx := counts ! rule_idx + 1], d)
         else ((counts, d), Panic))"

definition rule_applies :: "'rx compiled_rule \<Rightarrow> u8 list option \<Rightarrow> bool" where
  "rule_applies rule key \<longleftrightarrow> (case key of None \<Rightarrow> applies_to_body rule | Some k \<Rightarrow> applies_to_attr rule k)"

text \<open>The loop over the rules that the prefilter selects.\<close>

fun redact_rules ::
  "('rx, 'rs) regex_lib \<Rightarrow> 'rx compiled_rule list \<Rightarrow> u8 list \<Rightarrow> nat \<Rightarrow> nat \<Rightarrow> u8 list option \<Rightarrow> nat list \<Rightarrow>
   redact_state \<Rightarrow> redact_state \<times> (stage_error, unit) result" where
  "redact_rules lib rules field base rec key [] st = (st, Ok ())"
| "redact_rules lib rules field base rec key (rule_idx # idxs) st =
     (if rule_idx < length rules then
        if \<not> rule_applies (rules ! rule_idx) key then redact_rules lib rules field base rec key idxs st
        else seqr (push_matches base rec rule_idx (cr_mask (rules ! rule_idx))
                     (rx_find_iter lib (cr_regex (rules ! rule_idx)) field) st)
               (\<lambda>st'. redact_rules lib rules field base rec key idxs st')
      else (st, Panic))"

definition redact_field ::
  "('rx, 'rs) regex_lib \<Rightarrow> ('rx, 'rs) redact_engine \<Rightarrow> u8 list \<Rightarrow> nat \<Rightarrow> nat \<Rightarrow> u8 list option \<Rightarrow>
   redact_state \<Rightarrow> redact_state \<times> (stage_error, unit) result" where
  "redact_field lib engine field base rec key st =
     (if field = [] then (st, Ok ())
      else redact_rules lib (re_rules engine) field base rec key (rx_set_matches lib (re_prefilter engine) field) st)"

fun redact_attrs ::
  "('rx, 'rs) regex_lib \<Rightarrow> ('rx, 'rs) redact_engine \<Rightarrow> u8 list \<Rightarrow> nat \<Rightarrow> attr_view list \<Rightarrow>
   redact_state \<Rightarrow> redact_state \<times> (stage_error, unit) result" where
  "redact_attrs lib engine raw idx [] st = (st, Ok ())"
| "redact_attrs lib engine raw idx (attr # attrs) st =
     (case buf_get raw (rstart (av_key attr)) (rend (av_key attr)) of
        None \<Rightarrow> redact_attrs lib engine raw idx attrs st
      | Some key \<Rightarrow>
          (case buf_get raw (rstart (av_value attr)) (rend (av_value attr)) of
             None \<Rightarrow> redact_attrs lib engine raw idx attrs st
           | Some val \<Rightarrow>
               seqr (redact_field lib engine val (rstart (av_value attr)) idx (Some key) st)
                 (\<lambda>st'. redact_attrs lib engine raw idx attrs st')))"

definition redact_body ::
  "('rx, 'rs) regex_lib \<Rightarrow> ('rx, 'rs) redact_engine \<Rightarrow> u8 list \<Rightarrow> nat \<Rightarrow> record_view \<Rightarrow>
   redact_state \<Rightarrow> redact_state \<times> (stage_error, unit) result" where
  "redact_body lib engine raw idx rec st =
     (case buf_get raw (rstart (rv_body rec)) (rend (rv_body rec)) of
        Some body \<Rightarrow> redact_field lib engine body (rstart (rv_body rec)) idx None st
      | None \<Rightarrow> (st, Ok ()))"

fun redact_records ::
  "('rx, 'rs) regex_lib \<Rightarrow> ('rx, 'rs) redact_engine \<Rightarrow> u8 list \<Rightarrow> nat \<Rightarrow> record_view list \<Rightarrow>
   redact_state \<Rightarrow> redact_state \<times> (stage_error, unit) result" where
  "redact_records lib engine raw idx [] st = (st, Ok ())"
| "redact_records lib engine raw idx (rec # recs) st =
     seqr (redact_body lib engine raw idx rec st) (\<lambda>st'.
     seqr (redact_attrs lib engine raw idx (rv_attrs rec) st') (\<lambda>st''.
       redact_records lib engine raw (idx + 1) recs st''))"

definition redact_apply ::
  "('rx, 'rs) regex_lib \<Rightarrow> ('rx, 'rs) redact_stage \<Rightarrow> envelope \<Rightarrow>
   (('rx, 'rs) redact_stage \<times> envelope) \<times> (stage_error, unit) result" where
  "redact_apply lib self env =
     (case redact_records lib (rs_engine self) (ev_raw env) 0 (ev_records env) (rs_counts self, ev_decisions env) of
        ((counts, d), r) \<Rightarrow> ((self\<lparr>rs_counts := counts\<rparr>, env\<lparr>ev_decisions := d\<rparr>), r))"

definition redact_as_stage :: "('rx, 'rs) regex_lib \<Rightarrow> ('rx, 'rs) redact_stage stage" where
  "redact_as_stage lib = \<lparr>st_id = STAGE_REDACT_REGEX, st_apply = redact_apply lib\<rparr>"

section \<open>The stage keeps the contract of the guard\<close>

text \<open>What any call adds to the decisions, also one that panics half-way.\<close>

definition adds :: "redact_state \<Rightarrow> redact_state \<Rightarrow> bool" where
  "adds st st' \<longleftrightarrow> dc_sampling (snd st') = dc_sampling (snd st) \<and>
     (\<exists>new. dc_redactions (snd st') = dc_redactions (snd st) @ new \<and> (\<forall>x \<in> set new. sr_stage x = STAGE_REDACT_REGEX))"

lemma adds_refl [simp]: "adds st st"
  by (simp add: adds_def)

lemma adds_trans: "adds a b \<Longrightarrow> adds b c \<Longrightarrow> adds a c"
  unfolding adds_def by force

lemma adds_seqr:
  assumes "\<And>s' q. r = (s', q) \<Longrightarrow> adds s s'" "\<And>s1 s2 q. f s1 = (s2, q) \<Longrightarrow> adds s1 s2" "seqr r f = (s', q)"
  shows "adds s s'"
  using seqr_inv[of r adds s f s' q] assms adds_trans by blast

lemma adds_push_matches: "push_matches base rec i mid ms st = (st', r) \<Longrightarrow> adds st st'"
proof (induction base rec i mid ms st rule: push_matches.induct)
  case (2 base rec i mid s e ms counts d)
  have "adds (counts, d) (counts', push_redaction STAGE_REDACT_REGEX rec red d)" for counts' red
    by (simp add: adds_def push_redaction_def)
  with 2 show ?case by (auto simp: Let_def split: if_splits intro: adds_trans)
qed simp

lemma adds_redact_rules: "redact_rules lib rules field base rec key idxs st = (st', r) \<Longrightarrow> adds st st'"
proof (induction idxs arbitrary: st st' r)
  case (Cons i idxs)
  then show ?case
    by (auto split: if_splits elim!: adds_seqr[rotated 2] dest: adds_push_matches)
qed simp

lemma adds_redact_field: "redact_field lib engine field base rec key st = (st', r) \<Longrightarrow> adds st st'"
  by (auto simp: redact_field_def split: if_splits dest: adds_redact_rules)

lemma adds_redact_attrs: "redact_attrs lib engine raw idx attrs st = (st', r) \<Longrightarrow> adds st st'"
proof (induction attrs arbitrary: st st' r)
  case (Cons a attrs)
  then show ?case
    by (auto split: option.splits elim!: adds_seqr[rotated 2] dest: adds_redact_field)
qed simp

lemma adds_redact_body: "redact_body lib engine raw idx rv st = (st', r) \<Longrightarrow> adds st st'"
  by (auto simp: redact_body_def split: option.splits dest: adds_redact_field)

lemma adds_redact_records: "redact_records lib engine raw idx recs st = (st', r) \<Longrightarrow> adds st st'"
proof (induction recs arbitrary: idx st st' r)
  case (Cons rv recs)
  have tail: "adds s1 s2" if "seqr (redact_attrs lib engine raw idx (rv_attrs rv) s1)
      (\<lambda>st''. redact_records lib engine raw (idx + 1) recs st'') = (s2, q)" for s1 s2 q
    by (rule adds_seqr[OF _ _ that]) (erule adds_redact_attrs, erule Cons.IH)
  show ?case
    by (rule adds_seqr[OF _ _ Cons.prems[unfolded redact_records.simps]]) (erule adds_redact_body, erule tail)
qed simp

interpretation redact: fail_open_stage "redact_as_stage lib" for lib :: "('rx, 'rs) regex_lib"
proof unfold_locales
  fix self self' :: "('rx, 'rs) redact_stage" and env env' and r
  assume a: "st_apply (redact_as_stage lib) self env = ((self', env'), r)"
  then obtain counts d where
    R: "redact_records lib (rs_engine self) (ev_raw env) 0 (ev_records env) (rs_counts self, ev_decisions env) = ((counts, d), r)"
    and env': "env' = env\<lparr>ev_decisions := d\<rparr>"
    by (auto simp: redact_as_stage_def redact_apply_def split: prod.splits)
  show "ev_raw env' = ev_raw env \<and> ev_received_at env' = ev_received_at env" by (simp add: env')
  from adds_redact_records[OF R] env'
  show "dc_sampling (ev_decisions env') = dc_sampling (ev_decisions env) \<and>
      (\<exists>new. dc_redactions (ev_decisions env') = dc_redactions (ev_decisions env) @ new \<and>
        (\<forall>x\<in>set new. sr_stage x = st_id (redact_as_stage lib)))"
    by (auto simp: adds_def redact_as_stage_def)
qed (simp add: redact_as_stage_def STAGE_REDACT_REGEX_def STAGE_SAMPLE_def)

section \<open>What the stage computes, without the prefilter\<close>

text \<open>
  The matches of a field, rule by rule: each hit is the index of the rule and the span it pushes.
\<close>

definition rule_hits ::
  "('rx, 'rs) regex_lib \<Rightarrow> 'rx compiled_rule list \<Rightarrow> u8 list \<Rightarrow> nat \<Rightarrow> nat \<Rightarrow> u8 list option \<Rightarrow> nat \<Rightarrow>
   (nat \<times> stage_redaction) list" where
  "rule_hits lib rules field base rec key i =
     (if rule_applies (rules ! i) key then
        map (\<lambda>(s, e). (i, \<lparr>sr_stage = STAGE_REDACT_REGEX, sr_record = rec,
            sr_redaction = \<lparr>rd_target = rng (base + s) (base + e), rd_mask = cr_mask (rules ! i)\<rparr>\<rparr>))
          (rx_find_iter lib (cr_regex (rules ! i)) field)
      else [])"

definition field_hits ::
  "('rx, 'rs) regex_lib \<Rightarrow> 'rx compiled_rule list \<Rightarrow> nat \<Rightarrow> u8 list option \<Rightarrow> u8 list \<times> nat \<Rightarrow>
   (nat \<times> stage_redaction) list" where
  "field_hits lib rules rec key fb =
     (if fst fb = [] then []
      else concat (map (rule_hits lib rules (fst fb) (snd fb) rec key) [0..<length rules]))"

text \<open>The fields of a record that are scanned: its body, then the values of its attributes.\<close>

definition view_at :: "u8 list \<Rightarrow> brange \<Rightarrow> (u8 list \<times> nat) option" where
  "view_at raw r = map_option (\<lambda>bs. (bs, rstart r)) (buf_get raw (rstart r) (rend r))"

definition record_hits ::
  "('rx, 'rs) regex_lib \<Rightarrow> 'rx compiled_rule list \<Rightarrow> u8 list \<Rightarrow> nat \<Rightarrow> record_view \<Rightarrow> (nat \<times> stage_redaction) list" where
  "record_hits lib rules raw idx rv =
     (case view_at raw (rv_body rv) of None \<Rightarrow> [] | Some fb \<Rightarrow> field_hits lib rules idx None fb) @
     concat (map (\<lambda>a. case (view_at raw (av_key a), view_at raw (av_value a)) of
         (Some key, Some fb) \<Rightarrow> field_hits lib rules idx (Some (fst key)) fb
       | _ \<Rightarrow> []) (rv_attrs rv))"

definition all_hits ::
  "('rx, 'rs) regex_lib \<Rightarrow> 'rx compiled_rule list \<Rightarrow> u8 list \<Rightarrow> nat \<Rightarrow> record_view list \<Rightarrow> (nat \<times> stage_redaction) list" where
  "all_hits lib rules raw idx recs = concat (map (\<lambda>(i, rv). record_hits lib rules raw i rv) (enumerate idx recs))"

text \<open>Their effect: a counter per rule, and the spans appended in order.\<close>

fun apply_hits :: "(nat \<times> stage_redaction) list \<Rightarrow> redact_state \<Rightarrow> redact_state" where
  "apply_hits [] st = st"
| "apply_hits ((i, sr) # hs) (counts, d) =
     apply_hits hs (counts[i := counts ! i + 1], d\<lparr>dc_redactions := dc_redactions d @ [sr]\<rparr>)"

lemma apply_hits_append: "apply_hits (hs @ hs') st = apply_hits hs' (apply_hits hs st)"
  by (induction hs st rule: apply_hits.induct) auto

lemma apply_hits_decisions: "snd (apply_hits hs (counts, d)) = d\<lparr>dc_redactions := dc_redactions d @ map snd hs\<rparr>"
  by (induction hs "(counts, d)" arbitrary: counts d rule: apply_hits.induct) auto

lemma length_apply_hits [simp]: "length (fst (apply_hits hs st)) = length (fst st)"
  by (induction hs st rule: apply_hits.induct) auto

lemma apply_hits_counts:
  "i < length counts \<Longrightarrow>
    fst (apply_hits hs (counts, d)) ! i = counts ! i + of_nat (length (filter (\<lambda>h. fst h = i) hs))"
proof (induction hs "(counts, d)" arbitrary: counts d rule: apply_hits.induct)
  case (2 j sr hs counts d)
  then show ?case by (cases "j < length counts") (auto simp: nth_list_update)
qed simp

lemma push_matches_hits:
  "i < length (fst st) \<Longrightarrow>
    push_matches base rec i mid ms st =
      (apply_hits (map (\<lambda>(s, e). (i, \<lparr>sr_stage = STAGE_REDACT_REGEX, sr_record = rec,
          sr_redaction = \<lparr>rd_target = rng (base + s) (base + e), rd_mask = mid\<rparr>\<rparr>)) ms) st, Ok ())"
  by (induction base rec i mid ms st rule: push_matches.induct) (auto simp: Let_def push_redaction_def)

lemma redact_rules_hits:
  "\<forall>i \<in> set idxs. i < length rules \<Longrightarrow> length (fst st) = length rules \<Longrightarrow>
    redact_rules lib rules field base rec key idxs st =
      (apply_hits (concat (map (rule_hits lib rules field base rec key) idxs)) st, Ok ())"
  by (induction idxs arbitrary: st) (auto simp: push_matches_hits rule_hits_def apply_hits_append)

text \<open>An engine whose prefilter reports exactly the rules that match.\<close>

definition prefilter_exact :: "('rx, 'rs) regex_lib \<Rightarrow> ('rx, 'rs) redact_engine \<Rightarrow> bool" where
  "prefilter_exact lib engine \<longleftrightarrow> (\<forall>h. rx_set_matches lib (re_prefilter engine) h =
     filter (\<lambda>i. rx_find_iter lib (cr_regex (re_rules engine ! i)) h \<noteq> []) [0..<length (re_rules engine)])"

lemma concat_map_filter: "(\<And>x. \<not> P x \<Longrightarrow> f x = []) \<Longrightarrow> concat (map f (filter P xs)) = concat (map f xs)"
  by (induction xs) auto

lemma redact_field_hits:
  assumes "prefilter_exact lib engine" "length (fst st) = length (re_rules engine)"
  shows "redact_field lib engine field base rec key st =
    (apply_hits (field_hits lib (re_rules engine) rec key (field, base)) st, Ok ())"
proof (cases "field = []")
  case False
  let ?rules = "re_rules engine"
  have "redact_rules lib ?rules field base rec key (rx_set_matches lib (re_prefilter engine) field) st =
      (apply_hits (concat (map (rule_hits lib ?rules field base rec key) (rx_set_matches lib (re_prefilter engine) field))) st, Ok ())"
    by (rule redact_rules_hits) (use assms in \<open>auto simp: prefilter_exact_def\<close>)
  moreover have "concat (map (rule_hits lib ?rules field base rec key) (rx_set_matches lib (re_prefilter engine) field)) =
      concat (map (rule_hits lib ?rules field base rec key) [0..<length ?rules])"
    using assms(1) unfolding prefilter_exact_def by (simp only:) (rule concat_map_filter, simp add: rule_hits_def)
  ultimately show ?thesis using False by (simp add: redact_field_def field_hits_def)
qed (simp add: redact_field_def field_hits_def)

lemma redact_attrs_hits:
  assumes "prefilter_exact lib engine"
  shows "length (fst st) = length (re_rules engine) \<Longrightarrow>
    redact_attrs lib engine raw idx attrs st =
      (apply_hits (concat (map (\<lambda>a. case (view_at raw (av_key a), view_at raw (av_value a)) of
         (Some key, Some fb) \<Rightarrow> field_hits lib (re_rules engine) idx (Some (fst key)) fb
       | _ \<Rightarrow> []) attrs)) st, Ok ())"
  by (induction attrs arbitrary: st)
    (auto simp: redact_field_hits[OF assms] view_at_def apply_hits_append split: option.splits)

lemma redact_records_hits:
  assumes "prefilter_exact lib engine"
  shows "length (fst st) = length (re_rules engine) \<Longrightarrow>
    redact_records lib engine raw idx recs st = (apply_hits (all_hits lib (re_rules engine) raw idx recs) st, Ok ())"
proof (induction recs arbitrary: idx st)
  case (Cons rv recs)
  have "redact_body lib engine raw idx rv st =
      (apply_hits (case view_at raw (rv_body rv) of None \<Rightarrow> [] | Some fb \<Rightarrow> field_hits lib (re_rules engine) idx None fb) st, Ok ())"
    using Cons.prems by (auto simp: redact_body_def view_at_def redact_field_hits[OF assms] split: option.splits)
  with Cons show ?case
    by (simp add: redact_attrs_hits[OF assms] all_hits_def record_hits_def apply_hits_append)
qed (simp add: all_hits_def)

section \<open>What compilation guarantees\<close>

lemma position_Some: "position p xs = Some i \<Longrightarrow> i < length xs \<and> p (xs ! i)"
  by (induction xs arbitrary: i) (auto split: if_splits)

lemma position_None: "position p xs = None \<longleftrightarrow> (\<forall>x \<in> set xs. \<not> p x)"
  by (induction xs) auto

definition rule_of :: "u8 list list \<Rightarrow> rule_spec \<times> 'rx \<Rightarrow> 'rx compiled_rule \<Rightarrow> bool" where
  "rule_of masks sr cr \<longleftrightarrow>
     cr_name cr = spec_name (fst sr) \<and> cr_regex cr = snd sr \<and> cr_fields cr = spec_fields (fst sr) \<and>
     (\<exists>i < length masks. cr_mask cr = MaskId (of_nat i) \<and> masks ! i = spec_mask (fst sr))"

lemma rule_of_append: "rule_of masks sr cr \<Longrightarrow> rule_of (masks @ extra) sr cr"
  by (auto simp: rule_of_def nth_append)

lemma intern_rules_sound:
  assumes "intern_rules rest rules masks = (rules', masks')" "distinct masks"
  shows "distinct masks' \<and> (\<exists>extra. masks' = masks @ extra \<and> length extra \<le> length rest) \<and>
    set masks' = set masks \<union> (spec_mask \<circ> fst) ` set rest \<and>
    (\<exists>new. rules' = rules @ new \<and> list_all2 (rule_of masks') rest new)"
  using assms
proof (induction rest rules masks arbitrary: rules' masks' rule: intern_rules.induct)
  case (2 spec rx rest rules masks)
  show ?case
  proof (cases "position (\<lambda>m. m = spec_mask spec) masks")
    case None
    let ?cr = "\<lparr>cr_name = spec_name spec, cr_regex = rx, cr_mask = MaskId (of_nat (length masks)), cr_fields = spec_fields spec\<rparr>"
    have eq: "intern_rules rest (rules @ [?cr]) (masks @ [spec_mask spec]) = (rules', masks')"
      using "2.prems"(1) None by (simp add: Let_def)
    have dist: "distinct (masks @ [spec_mask spec])" using "2.prems"(2) None by (auto simp: position_None)
    have pq: "(MaskId (of_nat (length masks)), masks @ [spec_mask spec]) = (case position (\<lambda>m. m = spec_mask spec) masks of
        Some i \<Rightarrow> (MaskId (of_nat i), masks)
      | None \<Rightarrow> (let masks = masks @ [spec_mask spec] in (MaskId (of_nat (length masks - 1)), masks)))"
      by (simp add: None Let_def)
    from "2.IH"[OF refl pq eq dist] obtain extra new where
      "distinct masks'" "masks' = (masks @ [spec_mask spec]) @ extra" "length extra \<le> length rest"
      "set masks' = set (masks @ [spec_mask spec]) \<union> (spec_mask \<circ> fst) ` set rest"
      "rules' = (rules @ [?cr]) @ new" "list_all2 (rule_of masks') rest new"
      by blast
    moreover from this(2) have "rule_of masks' (spec, rx) ?cr"
      unfolding rule_of_def by (simp, intro exI[of _ "length masks"]) simp
    ultimately show ?thesis by (intro conjI exI[of _ "spec_mask spec # extra"] exI[of _ "?cr # new"]) simp_all
  next
    case (Some i)
    let ?cr = "\<lparr>cr_name = spec_name spec, cr_regex = rx, cr_mask = MaskId (of_nat i), cr_fields = spec_fields spec\<rparr>"
    have i: "i < length masks" "masks ! i = spec_mask spec" using position_Some[OF Some] by auto
    have eq: "intern_rules rest (rules @ [?cr]) masks = (rules', masks')"
      using "2.prems"(1) Some by (simp add: Let_def)
    have pq: "(MaskId (of_nat i), masks) = (case position (\<lambda>m. m = spec_mask spec) masks of
        Some i \<Rightarrow> (MaskId (of_nat i), masks)
      | None \<Rightarrow> (let masks = masks @ [spec_mask spec] in (MaskId (of_nat (length masks - 1)), masks)))"
      by (simp add: Some)
    from "2.IH"[OF refl pq eq "2.prems"(2)] obtain extra new where
      "distinct masks'" "masks' = masks @ extra" "length extra \<le> length rest"
      "set masks' = set masks \<union> (spec_mask \<circ> fst) ` set rest"
      "rules' = (rules @ [?cr]) @ new" "list_all2 (rule_of masks') rest new"
      by blast
    moreover from this(2) i have "rule_of masks' (spec, rx) ?cr"
      unfolding rule_of_def by (simp, intro exI[of _ i]) (simp add: nth_append)
    moreover have "spec_mask spec \<in> set masks" using i by (metis nth_mem)
    ultimately show ?thesis by (intro conjI exI[of _ extra] exI[of _ "?cr # new"]) (simp_all add: insert_absorb)
  qed
qed auto

lemma compile_regexes_Ok:
  "compile_regexes lib limits specs = Ok rxs \<Longrightarrow>
    list_all2 (\<lambda>spec rx. rx_build lib (spec_pattern spec) (cl_size_limit limits) = Inr rx \<and>
      spec_fields spec \<noteq> [] \<and> check_nested_repetition (spec_pattern spec) = Ok ()) specs rxs"
  by (induction specs arbitrary: rxs)
    (auto simp: result_simps split: if_splits result.splits sum.splits)

lemma redact_compile_Ok:
  assumes "redact_compile lib specs limits = Ok engine"
  shows "\<exists>rxs. compile_regexes lib limits specs = Ok rxs \<and> length rxs = length specs \<and>
    (\<exists>lim. rx_set_build lib (map spec_pattern specs) lim = Inr (re_prefilter engine)) \<and>
    distinct (re_masks engine) \<and> length (re_masks engine) \<le> length specs \<and>
    set (re_masks engine) = spec_mask ` set specs \<and>
    list_all2 (rule_of (re_masks engine)) (zip specs rxs) (re_rules engine)"
proof -
  from assms obtain rxs where rxs: "compile_regexes lib limits specs = Ok rxs"
    by (auto simp: redact_compile_def result_simps)
  obtain pre where pre: "rx_set_build lib (map spec_pattern specs)
      (saturating_mul (cl_size_limit limits) (max (length specs) 1)) = Inr pre"
    using assms rxs by (cases "rx_set_build lib (map spec_pattern specs)
      (saturating_mul (cl_size_limit limits) (max (length specs) 1))") (auto simp: redact_compile_def)
  obtain rules masks where I: "intern_rules (zip specs rxs) [] [] = (rules, masks)" by fastforce
  have E: "engine = \<lparr>re_prefilter = pre, re_rules = rules, re_masks = masks\<rparr>"
    using assms rxs pre I by (simp add: redact_compile_def)
  have len: "length rxs = length specs"
    using compile_regexes_Ok[OF rxs] by (simp add: list_all2_lengthD)
  then have "fst ` set (zip specs rxs) = set specs" by (metis list.set_map map_fst_zip)
  then have S: "(spec_mask \<circ> fst) ` set (zip specs rxs) = spec_mask ` set specs" by (metis image_comp)
  show ?thesis
    using intern_rules_sound[OF I, unfolded S] rxs pre E len by auto
qed

lemma compile_prefilter_exact:
  assumes "regex_contract lib" "redact_compile lib specs limits = Ok engine"
  shows "prefilter_exact lib engine"
proof -
  from redact_compile_Ok[OF assms(2)] obtain rxs lim where rxs: "compile_regexes lib limits specs = Ok rxs"
    "length rxs = length specs" "rx_set_build lib (map spec_pattern specs) lim = Inr (re_prefilter engine)"
    "list_all2 (rule_of (re_masks engine)) (zip specs rxs) (re_rules engine)" by blast
  have "list_all2 (\<lambda>p rx. \<exists>l. rx_build lib p l = Inr rx) (map spec_pattern specs) rxs"
    using compile_regexes_Ok[OF rxs(1)] by (auto simp: list_all2_conv_all_nth)
  with assms(1) rxs(3) have m: "rx_set_matches lib (re_prefilter engine) h =
      filter (\<lambda>i. rx_find_iter lib (rxs ! i) h \<noteq> []) [0..<length specs]" for h
    unfolding regex_contract_def by fastforce
  have "length (re_rules engine) = length specs" "\<And>i. i < length specs \<Longrightarrow> cr_regex (re_rules engine ! i) = rxs ! i"
    using rxs(2,4) by (auto simp: list_all2_conv_all_nth rule_of_def)
  then show ?thesis
    unfolding prefilter_exact_def m by (auto intro!: filter_cong)
qed

lemma field_hits_sound:
  assumes "regex_contract lib" "(i, sr) \<in> set (field_hits lib rules rec key (bs, base))"
  shows "i < length rules \<and> sr_record sr = rec \<and> rd_mask (sr_redaction sr) = cr_mask (rules ! i) \<and>
    in_window base (base + length bs) (rd_target (sr_redaction sr))"
proof -
  from assms(2) obtain s e where i: "i < length rules" and m: "(s, e) \<in> set (rx_find_iter lib (cr_regex (rules ! i)) bs)"
    and sr: "sr = \<lparr>sr_stage = STAGE_REDACT_REGEX, sr_record = rec,
            sr_redaction = \<lparr>rd_target = rng (base + s) (base + e), rd_mask = cr_mask (rules ! i)\<rparr>\<rparr>"
    by (auto simp: field_hits_def rule_hits_def split: if_splits)
  have "s \<le> e \<and> e \<le> length bs"
    using assms(1) m unfolding regex_contract_def by (fastforce simp: list_all_iff)
  with i show ?thesis by (simp add: sr in_window_def)
qed

lemma view_at_Some: "view_at raw r = Some (bs, base) \<Longrightarrow> base = rstart r \<and> base + length bs = rend r \<and> rend r \<le> length raw"
  by (auto simp: view_at_def buf_get_Some length_bslice)

lemma all_hits_sound:
  assumes "regex_contract lib" "(i, sr) \<in> set (all_hits lib rules raw 0 recs)"
  shows "sr_record sr < length recs \<and> i < length rules \<and> rd_mask (sr_redaction sr) = cr_mask (rules ! i) \<and>
    (\<exists>r \<in> insert (rv_body (recs ! sr_record sr)) (av_value ` set (rv_attrs (recs ! sr_record sr))).
       in_window (rstart r) (rend r) (rd_target (sr_redaction sr)) \<and> rend r \<le> length raw)"
proof -
  from assms(2) obtain n where n: "n < length recs" and h: "(i, sr) \<in> set (record_hits lib rules raw n (recs ! n))"
    by (auto simp: all_hits_def in_set_enumerate_eq)
  from h consider (body) fb where "view_at raw (rv_body (recs ! n)) = Some fb" "(i, sr) \<in> set (field_hits lib rules n None fb)"
    | (attr) a key fb where "a \<in> set (rv_attrs (recs ! n))" "view_at raw (av_value a) = Some fb"
        "(i, sr) \<in> set (field_hits lib rules n (Some key) fb)"
    by (auto simp: record_hits_def split: option.split_asm dest!: sym[of "Some _"])
  then show ?thesis
  proof cases
    case body
    obtain bs base where fb: "fb = (bs, base)" by (cases fb)
    from field_hits_sound[OF assms(1) body(2)[unfolded fb]] view_at_Some[OF body(1)[unfolded fb]] n
    show ?thesis by auto
  next
    case attr
    obtain bs base where fb: "fb = (bs, base)" by (cases fb)
    from field_hits_sound[OF assms(1) attr(3)[unfolded fb]] view_at_Some[OF attr(2)[unfolded fb]] n attr(1)
    show ?thesis by auto
  qed
qed

lemma compile_mask_known:
  assumes "redact_compile lib specs limits = Ok engine" "length specs \<le> 2 ^ 32" "i < length (re_rules engine)"
  shows "mask_bytes engine (cr_mask (re_rules engine ! i)) \<noteq> None"
proof -
  from redact_compile_Ok[OF assms(1)] obtain rxs where "length rxs = length specs" and
    m: "length (re_masks engine) \<le> length specs" "list_all2 (rule_of (re_masks engine)) (zip specs rxs) (re_rules engine)"
    by blast
  with assms(3) have "rule_of (re_masks engine) (zip specs rxs ! i) (re_rules engine ! i)"
    by (auto simp: list_all2_conv_all_nth)
  then obtain j where j: "j < length (re_masks engine)" "cr_mask (re_rules engine ! i) = MaskId (of_nat j)"
    by (auto simp: rule_of_def)
  then have "j < 2 ^ 32" using m(1) assms(2) by linarith
  with j show ?thesis by (simp add: mask_bytes_def unat_of_nat take_bit_nat_eq_self)
qed

section \<open>Properties\<close>

text \<open>
  Compiling a policy succeeds only when every rule names a field, passes the lint and is
  accepted by the regex compiler; the rules keep their order, names and fields, equal masks share
  one id, and the id of every rule resolves to the mask that its specification asks for.
\<close>

theorem compile_sound:
  assumes "redact_compile lib specs limits = Ok engine" "length specs \<le> 2 ^ 32"
  shows "list_all (\<lambda>spec. spec_fields spec \<noteq> [] \<and> check_nested_repetition (spec_pattern spec) = Ok ()) specs \<and>
    map cr_name (re_rules engine) = map spec_name specs \<and>
    map cr_fields (re_rules engine) = map spec_fields specs \<and>
    map (\<lambda>cr. mask_bytes engine (cr_mask cr)) (re_rules engine) = map (\<lambda>spec. Some (spec_mask spec)) specs \<and>
    distinct (re_masks engine) \<and> set (re_masks engine) = spec_mask ` set specs"
proof -
  from redact_compile_Ok[OF assms(1)] obtain rxs where rxs: "compile_regexes lib limits specs = Ok rxs"
    "length rxs = length specs" "distinct (re_masks engine)" "length (re_masks engine) \<le> length specs"
    "set (re_masks engine) = spec_mask ` set specs"
    "list_all2 (rule_of (re_masks engine)) (zip specs rxs) (re_rules engine)" by blast
  have "mask_bytes engine (MaskId (of_nat i)) = Some (re_masks engine ! i)" if "i < length (re_masks engine)" for i
  proof -
    have "i < 2 ^ 32" using that rxs(4) assms(2) by linarith
    then show ?thesis using that by (simp add: mask_bytes_def unat_of_nat take_bit_nat_eq_self)
  qed
  then have "list_all2 (\<lambda>spec cr. cr_name cr = spec_name spec \<and> cr_fields cr = spec_fields spec \<and>
      mask_bytes engine (cr_mask cr) = Some (spec_mask spec)) specs (re_rules engine)"
    using rxs(2,6) by (auto simp: list_all2_conv_all_nth rule_of_def)
  then have "map cr_name (re_rules engine) = map spec_name specs"
    "map cr_fields (re_rules engine) = map spec_fields specs"
    "map (\<lambda>cr. mask_bytes engine (cr_mask cr)) (re_rules engine) = map (\<lambda>spec. Some (spec_mask spec)) specs"
    by (auto simp: list_all2_conv_all_nth intro!: nth_equalityI)
  with rxs compile_regexes_Ok[OF rxs(1)] show ?thesis
    by (auto simp: list_all_length list_all2_conv_all_nth)
qed

text \<open>A library for the witnesses: a pattern is one literal byte.\<close>

definition byte_lib :: "(u8, u8 list) regex_lib" where
  "byte_lib = \<lparr>rx_build = (\<lambda>p _. case p of [b] \<Rightarrow> Inr b | _ \<Rightarrow> Inl ''unsupported''),
     rx_find_iter = (\<lambda>b h. map (\<lambda>i. (i, i + 1)) (filter (\<lambda>i. h ! i = b) [0..<length h])),
     rx_set_build = (\<lambda>ps _. if list_all (\<lambda>p. length p = 1) ps then Inr (map hd ps) else Inl ''unsupported''),
     rx_set_matches = (\<lambda>bs h. filter (\<lambda>i. filter (\<lambda>j. h ! j = bs ! i) [0..<length h] \<noteq> []) [0..<length bs])\<rparr>"

lemma byte_lib_contract: "regex_contract byte_lib"
proof -
  have "rxs ! i = hd (ps ! i)" if "list_all2 (\<lambda>p rx. \<exists>l. rx_build byte_lib p l = Inr rx) ps rxs" "i < length ps" for ps rxs i
  proof -
    from that have "\<exists>l. rx_build byte_lib (ps ! i) l = Inr (rxs ! i)" by (auto simp: list_all2_conv_all_nth)
    then show ?thesis by (auto simp: byte_lib_def split: list.splits)
  qed
  then show ?thesis
    by (auto simp: regex_contract_def byte_lib_def list_all_iff intro!: filter_cong split: if_splits)
qed

definition at_rule :: rule_spec where
  "at_rule = \<lparr>spec_name = bytes ''at'', spec_pattern = bytes ''@'', spec_mask = bytes ''[AT]'',
     spec_fields = [Body, Attrs (bytes ''user.*'')]\<rparr>"

definition at_engine :: "(u8, u8 list) redact_engine" where
  "at_engine = \<lparr>re_prefilter = bytes ''@'', re_rules = [\<lparr>cr_name = bytes ''at'', cr_regex = 64, cr_mask = MaskId 0,
     cr_fields = [Body, Attrs (bytes ''user.*'')]\<rparr>], re_masks = [bytes ''[AT]'']\<rparr>"

lemma lint_at: "check_nested_repetition [64] = Ok ()"
  by (simp add: check_nested_repetition_def lint_loop.simps[of "[64]" 0] lint_loop.simps[of "[64]" "Suc 0"])

lemma compile_at_rule: "redact_compile byte_lib [at_rule] compile_limits_default = Ok at_engine"
  by (simp add: redact_compile_def at_rule_def at_engine_def byte_lib_def lint_at)

theorem compile_sound_witness:
  "mask_bytes at_engine (MaskId 0) = Some (bytes ''[AT]'')"
  using compile_sound[OF compile_at_rule] by (simp add: at_engine_def at_rule_def)

text \<open>
  C13: the stage applies exactly the policy: it never fails or panics, and it appends, in order of
  records, fields and rules, one span for every match of every rule in every field the rule
  selects, and counts each on its rule (modulo \<open>2 ^ 64\<close>); the prefilter changes nothing.
\<close>

theorem redact_exact:
  assumes "regex_contract lib" "redact_compile lib specs limits = Ok engine"
    and "rs_engine self = engine" "length (rs_counts self) = length (re_rules engine)"
  shows "\<exists>counts. redact_apply lib self env =
      ((self\<lparr>rs_counts := counts\<rparr>, env\<lparr>ev_decisions := (ev_decisions env)\<lparr>dc_redactions :=
          dc_redactions (ev_decisions env) @ map snd (all_hits lib (re_rules engine) (ev_raw env) 0 (ev_records env))\<rparr>\<rparr>), Ok ()) \<and>
    length counts = length (re_rules engine) \<and>
    (\<forall>i < length counts. counts ! i = rs_counts self ! i +
       of_nat (length (filter (\<lambda>h. fst h = i) (all_hits lib (re_rules engine) (ev_raw env) 0 (ev_records env)))))"
proof -
  let ?hs = "all_hits lib (re_rules engine) (ev_raw env) 0 (ev_records env)"
  let ?st = "(rs_counts self, ev_decisions env)"
  have "redact_records lib engine (ev_raw env) 0 (ev_records env) ?st = (apply_hits ?hs ?st, Ok ())"
    using redact_records_hits[OF compile_prefilter_exact[OF assms(1,2)]] assms(4) by simp
  then have "redact_apply lib self env =
      ((self\<lparr>rs_counts := fst (apply_hits ?hs ?st)\<rparr>, env\<lparr>ev_decisions := (ev_decisions env)\<lparr>dc_redactions :=
          dc_redactions (ev_decisions env) @ map snd ?hs\<rparr>\<rparr>), Ok ())"
    by (simp add: redact_apply_def assms(3) case_prod_beta apply_hits_decisions)
  with assms(4) show ?thesis
    by (intro exI[of _ "fst (apply_hits ?hs ?st)"]) (simp add: apply_hits_counts)
qed

text \<open>A stage, a record and a request for the witnesses: the body \<^verbatim>\<open>a@b\<close> of one record.\<close>

definition at_env :: envelope where
  "at_env = (envelope_new 0 (bytes ''xxa@b''))\<lparr>ev_records := [\<lparr>rv_body = rng 2 5, rv_trace_id = None, rv_attrs = [],
     rv_severity_number = None, rv_namespace = None, rv_service_name = None\<rparr>]\<rparr>"

lemma at_hits: "all_hits byte_lib (re_rules at_engine) (ev_raw at_env) 0 (ev_records at_env) =
    [(0, \<lparr>sr_stage = STAGE_REDACT_REGEX, sr_record = 0, sr_redaction = \<lparr>rd_target = rng 3 4, rd_mask = MaskId 0\<rparr>\<rparr>)]"
  by (simp add: all_hits_def record_hits_def field_hits_def rule_hits_def view_at_def buf_get_def bslice_def
      rule_applies_def applies_to_body_def at_engine_def at_env_def envelope_new_def byte_lib_def enumerate_eq_zip
      upt_conv_Cons)

theorem redact_exact_witness:
  "\<exists>counts. redact_apply byte_lib (redact_stage_new at_engine) at_env =
    (((redact_stage_new at_engine)\<lparr>rs_counts := counts\<rparr>, at_env\<lparr>ev_decisions := \<lparr>dc_sampling = [], dc_redactions =
      [\<lparr>sr_stage = STAGE_REDACT_REGEX, sr_record = 0, sr_redaction = \<lparr>rd_target = rng 3 4, rd_mask = MaskId 0\<rparr>\<rparr>]\<rparr>\<rparr>), Ok ())
    \<and> counts ! 0 = 1"
proof -
  have d: "ev_decisions at_env = \<lparr>dc_sampling = [], dc_redactions = []\<rparr>"
    by (simp add: at_env_def envelope_new_def decisions_default_def)
  have r: "rs_engine (redact_stage_new at_engine) = at_engine" "rs_counts (redact_stage_new at_engine) = [0]"
    "length (re_rules at_engine) = 1"
    by (simp_all add: redact_stage_new_def at_engine_def)
  have l: "length (rs_counts (redact_stage_new at_engine)) = length (re_rules at_engine)"
    by (simp add: r)
  from redact_exact[OF byte_lib_contract compile_at_rule r(1) l, of at_env] show ?thesis
    unfolding at_hits
  proof (elim exE, goal_cases)
    case (1 counts)
    then show ?case by (intro exI[of _ counts]) (simp add: d r)
  qed
qed

text \<open>
  Every span the stage adds for a record lies inside the body or an attribute value of that
  record, and its mask id is one of the engine's, so that the exporter can always splice it.
\<close>

theorem spans_in_fields:
  assumes "regex_contract lib" "redact_compile lib specs limits = Ok engine" "length specs \<le> 2 ^ 32"
    and "(i, sr) \<in> set (all_hits lib (re_rules engine) raw 0 recs)"
  shows "sr_record sr < length recs \<and> mask_bytes engine (rd_mask (sr_redaction sr)) \<noteq> None \<and>
    (\<exists>r \<in> insert (rv_body (recs ! sr_record sr)) (av_value ` set (rv_attrs (recs ! sr_record sr))).
       in_window (rstart r) (rend r) (rd_target (sr_redaction sr)) \<and> rend r \<le> length raw)"
  using all_hits_sound[OF assms(1,4)] compile_mask_known[OF assms(2,3)] by auto

theorem spans_in_fields_witness:
  "mask_bytes at_engine (MaskId 0) \<noteq> None \<and> in_window 2 5 (rng 3 4)"
  using spans_in_fields[OF byte_lib_contract compile_at_rule, where raw = "ev_raw at_env" and recs = "ev_records at_env"]
  unfolding at_hits by (simp add: at_env_def)

text \<open>
  Fail-open: whatever the stage did before it stopped, the guard leaves the raw bytes and the
  sampling verdicts as they were, and when it reports a bypass it has also removed every span the
  stage pushed.
\<close>

theorem redact_fail_open:
  assumes "guarded (redact_as_stage lib) self env = ((self', env'), out)"
    and "\<forall>r \<in> set (dc_redactions (ev_decisions env)). sr_stage r \<noteq> STAGE_REDACT_REGEX"
  shows "ev_raw env' = ev_raw env \<and>
    dc_sampling (ev_decisions env') = dc_sampling (ev_decisions env) \<and>
    (out \<noteq> Applied \<longrightarrow> ev_decisions env' = ev_decisions env)"
proof -
  have "ev_decisions env' = ev_decisions env" if "out = Bypassed why" for why
    using redact.guarded_bypass assms that by (metis redact_as_stage_def stage.simps(1))
  then show ?thesis
    using redact.guarded_keeps_raw(1)[OF assms(1)] redact.guarded_keeps_sampling[OF assms(1)]
    by (cases out) auto
qed

theorem redact_fail_open_witness:
  "ev_decisions (snd (fst (guarded (redact_as_stage (byte_lib\<lparr>rx_set_matches := \<lambda>_ _. [0, 7]\<rparr>))
      (redact_stage_new at_engine) at_env))) = decisions_default"
proof -
  let ?lib = "byte_lib\<lparr>rx_set_matches := \<lambda>_ _. [0, 7]\<rparr>"
  have f: "\<forall>r \<in> set (dc_redactions (ev_decisions at_env)). sr_stage r \<noteq> STAGE_REDACT_REGEX"
    by (simp add: at_env_def envelope_new_def decisions_default_def)
  have p: "snd (st_apply (redact_as_stage ?lib) (redact_stage_new at_engine) at_env) = Panic"
    by (simp add: redact_as_stage_def redact_apply_def redact_stage_new_def at_engine_def at_env_def envelope_new_def
        redact_body_def buf_get_def bslice_def redact_field_def byte_lib_def rule_applies_def applies_to_body_def
        decisions_default_def upt_conv_Cons)
  obtain self' env' out where g: "guarded (redact_as_stage ?lib) (redact_stage_new at_engine) at_env = ((self', env'), out)"
    by (metis prod.collapse)
  with p have "out \<noteq> Applied" by (auto simp: guarded_def split: prod.splits result.splits)
  with redact_fail_open[OF g f] g show ?thesis
    by (simp add: at_env_def envelope_new_def)
qed

text \<open>The spelling of a selector.\<close>

fun show_selector :: "field_selector \<Rightarrow> u8 list" where
  "show_selector Body = bytes ''body''"
| "show_selector (Attrs g) = bytes ''attributes.'' @ g"

lemma field_selector_parse_Some: "field_selector_parse s = Some sel \<longleftrightarrow> s = show_selector sel \<and> sel \<noteq> Attrs []"
  by (cases sel) (auto simp: field_selector_parse_def strip_prefix_Some strip_prefix_None split: option.splits)

text \<open>
  A selector string parses to a selector exactly when it is its spelling: \<^verbatim>\<open>body\<close>, or
  \<^verbatim>\<open>attributes.\<close> followed by a non-empty glob.
\<close>

theorem selector_roundtrip:
  "field_selector_parse s = Some sel \<longleftrightarrow> s = show_selector sel \<and> sel \<noteq> Attrs []"
  by (rule field_selector_parse_Some)

end
