(* ===== verification/Sampling.thy ===== *)
theory Sampling
  imports Glob
begin

text \<open>
  The deterministic sampling engine, \<^verbatim>\<open>crates/archiv-sampling/src/lib.rs\<close>, and the resolution of a
  record's target, \<^verbatim>\<open>crates/archiv-sampling/src/policy.rs\<close>.  The hash is the third-party crate
  \<^verbatim>\<open>xxhash_rust\<close>; it is a parameter, a record of the one-shot function and the streaming operations
  that the source calls.
\<close>

section \<open>The decision\<close>

record 'h hasher =
  hx_oneshot :: "u8 list \<Rightarrow> u64 \<Rightarrow> u64"
  hx_new :: "u64 \<Rightarrow> 'h"
  hx_update :: "'h \<Rightarrow> u8 list \<Rightarrow> 'h"
  hx_digest :: "'h \<Rightarrow> u64"

definition ALGO_VERSION :: u32 where
  "ALGO_VERSION = 1"

definition SEED :: u64 where
  "SEED = 0"

definition keep :: "'h hasher \<Rightarrow> u8 list \<Rightarrow> u8 \<Rightarrow> bool" where
  "keep hx trace_id target_pct \<longleftrightarrow> hx_oneshot hx trace_id SEED mod 100 < ucast target_pct"

definition bucket :: "'h hasher \<Rightarrow> u8 list \<Rightarrow> u8" where
  "bucket hx trace_id = ucast (hx_oneshot hx trace_id SEED mod 100)"

definition fallback_key :: "'h hasher \<Rightarrow> u8 list \<Rightarrow> u8 list \<Rightarrow> u64" where
  "fallback_key hx service_name body =
     (let h = hx_new hx SEED;
          h = hx_update hx h service_name;
          h = hx_update hx h [0];
          h = hx_update hx h body
      in hx_digest hx h)"

definition keep_untraced :: "'h hasher \<Rightarrow> u8 list \<Rightarrow> u8 list \<Rightarrow> u8 \<Rightarrow> bool" where
  "keep_untraced hx service_name body target_pct \<longleftrightarrow>
     fallback_key hx service_name body mod 100 < ucast target_pct"

text \<open>The documented behaviour of a streaming hash: its digest is the one-shot hash of all updates.\<close>

definition streams :: "'h hasher \<Rightarrow> bool" where
  "streams hx \<longleftrightarrow> (\<forall>seed parts. hx_digest hx (foldl (hx_update hx) (hx_new hx seed) parts) = hx_oneshot hx (concat parts) seed)"

text \<open>The hash values that a target keeps.\<close>

definition kept_hashes :: "u8 \<Rightarrow> u64 set" where
  "kept_hashes target_pct = {h. h mod 100 < ucast target_pct}"

lemma unat_mod_100: "unat ((h :: u64) mod 100) = unat h mod 100"
  by (simp add: unat_mod)

lemma unat_ucast_8_64: "unat (ucast (t :: u8) :: u64) = unat t"
proof -
  have "unat t < 2 ^ LENGTH(8)" by (rule unsigned_less)
  then have "unat t < 2 ^ 64" by simp
  then show ?thesis by (simp add: unsigned_ucast_eq take_bit_nat_eq_self)
qed

lemma mod_100_less: "(h :: u64) mod 100 < ucast (t :: u8) \<longleftrightarrow> unat h mod 100 < unat t"
  by (simp add: word_less_nat_alt unat_mod_100 unat_ucast_8_64)

lemma unat_bucket: "unat (bucket hx tid) = unat (hx_oneshot hx tid SEED) mod 100"
proof -
  have "unat (hx_oneshot hx tid SEED) mod 100 < 256" by (rule less_trans[of _ 100]) simp_all
  then show ?thesis by (simp add: bucket_def unsigned_ucast_eq unat_mod_100 take_bit_nat_eq_self)
qed

lemma card_mod_less:
  fixes q r t m :: nat
  assumes "t \<le> m"
  shows "card {n. n < q * m + r \<and> n mod m < t} = q * t + card {n. n < r \<and> n mod m < t}"
proof (induction q)
  case (Suc q)
  have "{n. n < Suc q * m + r \<and> n mod m < t} = {..<t} \<union> (\<lambda>n. n + m) ` {n. n < q * m + r \<and> n mod m < t}"
    (is "?L = ?A \<union> ?B")
  proof (intro set_eqI iffI)
    fix n assume n: "n \<in> ?L"
    show "n \<in> ?A \<union> ?B"
    proof (cases "n < m")
      case False
      with n have "n - m \<in> {n. n < q * m + r \<and> n mod m < t}" by (auto simp: le_mod_geq)
      then have "(n - m) + m \<in> ?B" by (rule imageI)
      with False show ?thesis by simp
    qed (use n in simp)
  qed (use assms in \<open>auto simp: less_le_trans\<close>)
  moreover have "card ?B = q * t + card {n. n < r \<and> n mod m < t}"
    using Suc.IH by (subst card_image) (auto simp: inj_on_def)
  moreover have "?A \<inter> ?B = {}" using assms by auto
  moreover have "finite ?B" by simp
  ultimately show ?case by (simp add: card_Un_disjoint)
qed simp

lemma card_kept_hashes:
  assumes "unat t \<le> 100"
  shows "card (kept_hashes t) = 184467440737095516 * unat t + min (unat t) 16"
proof -
  have "card (kept_hashes t) = card (unat ` kept_hashes t)"
    by (subst card_image) (auto simp: inj_on_def word_unat_eq_iff)
  also have "unat ` kept_hashes t = {n. n < 184467440737095516 * 100 + 16 \<and> n mod 100 < unat t}"
  proof (intro set_eqI iffI)
    fix n assume "n \<in> {n. n < 184467440737095516 * 100 + 16 \<and> n mod 100 < unat t}"
    then have n: "n < 2 ^ 64" "n mod 100 < unat t" by simp_all
    then have "unat (word_of_nat n :: u64) = n" by (simp add: unat_of_nat take_bit_nat_eq_self)
    with n show "n \<in> unat ` kept_hashes t"
      by (auto simp: kept_hashes_def mod_100_less intro!: image_eqI[of n unat "word_of_nat n"])
  next
    fix n assume "n \<in> unat ` kept_hashes t"
    then obtain h :: u64 where "n = unat h" "unat h mod 100 < unat t"
      by (auto simp: kept_hashes_def mod_100_less)
    with unsigned_less[of h] show "n \<in> {n. n < 184467440737095516 * 100 + 16 \<and> n mod 100 < unat t}" by simp
  qed
  also have "card \<dots> = 184467440737095516 * unat t + card {n. n < 16 \<and> n mod 100 < unat t}"
    by (rule card_mod_less[OF assms])
  also have "{n. n < 16 \<and> n mod 100 < unat t} = {..< min (unat t) 16}"
    by auto
  finally show ?thesis by simp
qed

section \<open>Target resolution\<close>

record rule =
  rule_namespace_glob :: "u8 list option"
  rule_severity_lte :: "i32 option"
  rule_target :: u8

record sampling_policy =
  sp_rules :: "rule list"
  sp_default_target :: u8

definition sampling_policy_new :: "rule list \<Rightarrow> u8 \<Rightarrow> sampling_policy" where
  "sampling_policy_new rules default_target = \<lparr>sp_rules = rules, sp_default_target = default_target\<rparr>"

text \<open>\<^verbatim>\<open>glob_matches\<close> of \<^verbatim>\<open>policy.rs\<close>, a copy of the matcher of the redaction crate.\<close>

function glob_trailing :: "u8 list \<Rightarrow> nat \<Rightarrow> nat" where
  "glob_trailing pattern p =
     (if p < length pattern \<and> pattern ! p = STAR then glob_trailing pattern (p + 1) else p)"
  by pat_completeness auto
termination
  by (relation "measure (\<lambda>(pattern, p). length pattern - p)") auto

function glob_matches_loop :: "u8 list \<Rightarrow> u8 list \<Rightarrow> nat \<Rightarrow> nat \<Rightarrow> (nat \<times> nat) option \<Rightarrow> bool" where
  "glob_matches_loop pattern key p k star =
     (if k < length key then
        if p < length pattern \<and> pattern ! p = key ! k then
          glob_matches_loop pattern key (p + 1) (k + 1) star
        else if p < length pattern \<and> pattern ! p = STAR then
          glob_matches_loop pattern key (p + 1) k (Some (p + 1, k))
        else (case star of
            Some (sp, sk) \<Rightarrow> glob_matches_loop pattern key sp (sk + 1) (Some (sp, sk + 1))
          | None \<Rightarrow> False)
      else glob_trailing pattern p = length pattern)"
  by pat_completeness auto
termination
proof (relation "measures
    [\<lambda>(pattern, key, p, k, star). (case star of None \<Rightarrow> 0 | Some (sp, sk) \<Rightarrow> if p < sp \<or> k < sk then 1 else 0),
     \<lambda>(pattern, key, p, k, star). (case star of None \<Rightarrow> length pattern + 1 | Some (sp, sk) \<Rightarrow> length pattern - sp),
     \<lambda>(pattern, key, p, k, star). (case star of None \<Rightarrow> 0 | Some (sp, sk) \<Rightarrow> length key - sk),
     \<lambda>(pattern, key, p, k, star). (length pattern - p) + (length key - k)]")
qed (auto split: option.splits if_splits)

declare glob_trailing.simps [simp del] glob_matches_loop.simps [simp del]

definition glob_matches :: "u8 list \<Rightarrow> u8 list \<Rightarrow> bool" where
  "glob_matches pattern key = glob_matches_loop pattern key 0 0 None"

definition rule_matches :: "rule \<Rightarrow> u8 list option \<Rightarrow> i32 option \<Rightarrow> bool" where
  "rule_matches rule namespace severity \<longleftrightarrow>
     (case rule_namespace_glob rule of
        Some glob \<Rightarrow> (case namespace of Some ns \<Rightarrow> glob_matches glob ns | None \<Rightarrow> False)
      | None \<Rightarrow> True) \<and>
     (case rule_severity_lte rule of
        Some threshold \<Rightarrow> (case severity of Some sev \<Rightarrow> sint sev \<le> sint threshold | None \<Rightarrow> False)
      | None \<Rightarrow> True)"

text \<open>The \<^verbatim>\<open>for rule in &self.rules\<close> loop of \<^verbatim>\<open>resolve\<close>.\<close>

fun resolve_loop :: "rule list \<Rightarrow> u8 \<Rightarrow> u8 list option \<Rightarrow> i32 option \<Rightarrow> u8" where
  "resolve_loop [] default_target namespace severity = default_target"
| "resolve_loop (rule # rules) default_target namespace severity =
     (if rule_matches rule namespace severity then rule_target rule
      else resolve_loop rules default_target namespace severity)"

definition resolve :: "sampling_policy \<Rightarrow> u8 list option \<Rightarrow> i32 option \<Rightarrow> u8" where
  "resolve policy namespace severity = resolve_loop (sp_rules policy) (sp_default_target policy) namespace severity"

definition ascii_uppercase :: "u8 \<Rightarrow> u8" where
  "ascii_uppercase b = (if 97 \<le> b \<and> b \<le> 122 then b - 32 else b)"

definition severity_band_max :: "u8 list \<Rightarrow> i32 option" where
  "severity_band_max name =
     (let upper = map ascii_uppercase name in
      if upper = bytes ''TRACE'' then Some 4
      else if upper = bytes ''DEBUG'' then Some 8
      else if upper = bytes ''INFO'' then Some 12
      else if upper = bytes ''WARN'' \<or> upper = bytes ''WARNING'' then Some 16
      else if upper = bytes ''ERROR'' then Some 20
      else if upper = bytes ''FATAL'' then Some 24
      else None)"

lemma glob_trailing_skip_stars: "glob_trailing pattern p = skip_stars pattern p"
  by (induction pattern p rule: glob_trailing.induct)
    (simp add: glob_trailing.simps skip_stars.simps)

lemma glob_matches_loop_eq: "glob_matches_loop pattern key p k star = matches_loop pattern key p k star"
proof (induction pattern key p k star rule: glob_matches_loop.induct)
  case (1 pattern key p k star)
  then show ?case
    by (simp add: glob_matches_loop.simps[of pattern key p k star] matches_loop.simps[of pattern key p k star]
        glob_trailing_skip_stars split: option.split)
qed

lemma resolve_loop_first:
  "\<forall>r \<in> set pre. \<not> rule_matches r ns sev \<Longrightarrow>
    resolve_loop (pre @ rules) d ns sev = resolve_loop rules d ns sev"
  by (induction pre) auto

lemma resolve_loop_range: "resolve_loop rules d ns sev \<in> insert d (rule_target ` set rules)"
  by (induction rules) auto

text \<open>A streaming hash for the witnesses.\<close>

definition poly_hasher :: "u64 hasher" where
  "poly_hasher = \<lparr>hx_oneshot = (\<lambda>bs s. foldl (\<lambda>h b. 31 * h + ucast b) s bs), hx_new = id,
     hx_update = (\<lambda>h bs. foldl (\<lambda>h b. 31 * h + ucast b) h bs), hx_digest = id\<rparr>"

lemma streams_poly: "streams poly_hasher"
proof -
  have "foldl (hx_update poly_hasher) h parts = foldl (\<lambda>h b. 31 * h + ucast b) h (concat parts)" for h parts
    by (induction parts arbitrary: h) (simp_all add: poly_hasher_def)
  then show ?thesis by (simp add: streams_def) (simp add: poly_hasher_def)
qed

section \<open>Properties\<close>

text \<open>
  The decision is the published bucket rule: a trace is kept at a target exactly when its
  bucket, one of 0 to 99, is below the target.
\<close>

theorem keep_iff_bucket: "(keep hx tid t \<longleftrightarrow> bucket hx tid < t) \<and> bucket hx tid < 100"
proof -
  have "unat (hx_oneshot hx tid SEED) mod 100 < 100" by simp
  then show ?thesis
    by (simp add: keep_def mod_100_less word_less_nat_alt[of "bucket hx tid"] unat_bucket)
qed

text \<open>
  Raising a target only adds records: what is kept at a target is kept at every higher one;
  target 0 keeps nothing and a target of 100 or more keeps everything, traced or not.
\<close>

theorem keep_monotone:
  assumes "t \<le> t'"
  shows "(keep hx tid t \<longrightarrow> keep hx tid t') \<and> (keep_untraced hx svc body t \<longrightarrow> keep_untraced hx svc body t') \<and>
    \<not> keep hx tid 0 \<and> \<not> keep_untraced hx svc body 0 \<and>
    (100 \<le> t' \<longrightarrow> keep hx tid t' \<and> keep_untraced hx svc body t')"
proof -
  have "n mod 100 < (100 :: nat)" for n by simp
  with assms show ?thesis
    by (auto simp: keep_def keep_untraced_def mod_100_less word_le_nat_alt intro: less_le_trans)
qed

theorem keep_monotone_witness:
  "let hx = \<lparr>hx_oneshot = (\<lambda>bs s. of_nat (length bs) + s), hx_new = id, hx_update = (\<lambda>h bs. h + of_nat (length bs)),
     hx_digest = id\<rparr>
   in keep hx (replicate 16 0) 50 \<and> keep_untraced hx [1] [2, 3] 50"
  using keep_monotone[of 20 50 "\<lparr>hx_oneshot = (\<lambda>bs s. of_nat (length bs) + s), hx_new = id,
      hx_update = (\<lambda>h bs. h + of_nat (length bs)), hx_digest = id\<rparr>" "replicate 16 0" "[1]" "[2, 3]"]
  by (simp add: Let_def keep_def keep_untraced_def fallback_key_def SEED_def)

text \<open>
  C36: the share of the hash values that a target keeps is its percentage, up to the sixteen values
  that the modulus leaves over: a trace is kept exactly when its hash is one of
  \<open>t * (2^64 div 100) + min t 16\<close> of the \<open>2^64\<close> values.
\<close>

theorem keep_share:
  assumes "unat t \<le> 100"
  shows "(keep hx tid t \<longleftrightarrow> hx_oneshot hx tid SEED \<in> kept_hashes t) \<and>
    card (kept_hashes t) = unat t * (2 ^ 64 div 100) + min (unat t) 16"
  using card_kept_hashes[OF assms] by (simp add: keep_def kept_hashes_def)

theorem keep_share_witness: "card (kept_hashes 25) = 25 * (2 ^ 64 div 100) + 16"
  using keep_share[of 25 "\<lparr>hx_oneshot = \<lambda>bs s. s, hx_new = id, hx_update = \<lambda>h bs. h, hx_digest = id\<rparr>" "[]"] by simp

text \<open>
  The key of an untraced record is the hash of the service name, a zero byte and the body, with
  no buffer built; equal keys for different (service, body) pairs are therefore hash collisions,
  the separator leaves no other way, as long as no service name holds a zero byte.
\<close>

theorem fallback_key_stream:
  assumes "streams hx"
  shows "fallback_key hx svc body = hx_oneshot hx (svc @ [0] @ body) SEED \<and>
    (0 \<notin> set svc \<and> 0 \<notin> set svc' \<and> svc @ [0] @ body = svc' @ [0] @ body' \<longrightarrow> svc = svc' \<and> body = body')"
proof -
  from assms have "hx_digest hx (foldl (hx_update hx) (hx_new hx SEED) [svc, [0], body]) =
      hx_oneshot hx (concat [svc, [0], body]) SEED"
    unfolding streams_def by blast
  moreover have "svc = svc' \<and> body = body'"
    if "0 \<notin> set svc" "0 \<notin> set svc'" "svc @ 0 # body = svc' @ 0 # body'"
    using that by (auto simp: append_eq_append_conv2 Cons_eq_append_conv append_eq_Cons_conv)
  ultimately show ?thesis by (simp add: fallback_key_def Let_def)
qed

theorem fallback_key_stream_witness:
  "fallback_key poly_hasher [7] [8] = 31 * (31 * 7) + 8"
  using fallback_key_stream[OF streams_poly, of "[7]" "[8]"] by (simp add: poly_hasher_def SEED_def)

text \<open>
  The first rule that matches decides: rules before it that do not match and rules after it
  have no influence, and without a match the default applies; the result is always one of the
  configured targets.
\<close>

theorem resolve_first_match:
  assumes "\<forall>r \<in> set pre. \<not> rule_matches r ns sev"
  shows "resolve (sampling_policy_new pre d) ns sev = d \<and>
    (rule_matches r ns sev \<longrightarrow> resolve (sampling_policy_new (pre @ r # post) d) ns sev = rule_target r) \<and>
    resolve (sampling_policy_new rules d) ns sev \<in> insert d (rule_target ` set rules)"
  using resolve_loop_first[OF assms] resolve_loop_first[OF assms, of "[]"] resolve_loop_range
  by (simp add: resolve_def sampling_policy_new_def)

theorem resolve_first_match_witness:
  "resolve (sampling_policy_new
      [\<lparr>rule_namespace_glob = Some (bytes ''payments''), rule_severity_lte = None, rule_target = 100\<rparr>,
       \<lparr>rule_namespace_glob = None, rule_severity_lte = Some 8, rule_target = 10\<rparr>] 50)
     (Some (bytes ''web'')) (Some 5) = 10"
  using resolve_first_match[of "[\<lparr>rule_namespace_glob = Some (bytes ''payments''), rule_severity_lte = None, rule_target = 100\<rparr>]"
      "Some (bytes ''web'')" "Some 5" 50 "\<lparr>rule_namespace_glob = None, rule_severity_lte = Some 8, rule_target = 10\<rparr>" "[]"]
  by (simp add: rule_matches_def glob_matches_def glob_matches_loop.simps)

text \<open>
  The namespace matcher of the sampling crate and the attribute-key matcher of the redaction
  crate, two copies of one algorithm, agree on every pattern and key.
\<close>

theorem glob_copies_agree: "glob_matches pattern key = glob_match pattern key"
  by (simp add: glob_matches_def glob_match_def glob_matches_loop_eq)

end
