(* ===== verification/Config.thy ===== *)
theory Config
  imports Decimal Redact Sampling
begin

text \<open>
  The configuration, \<^verbatim>\<open>crates/archiv-config/src/lib.rs\<close>: the typed sections and their defaults,
  validation, the translation into redaction rules and the policy fingerprint.  The YAML reader is
  the third-party crate \<^verbatim>\<open>serde_norway\<close> and the file system is the host's; both are parameters.
\<close>

section \<open>Sections and defaults\<close>

record ingest_config =
  ic_grpc_endpoint :: "u8 list"
  ic_http_endpoint :: "u8 list"
  ic_channel_capacity :: nat

definition ingest_default :: ingest_config where
  "ingest_default = \<lparr>ic_grpc_endpoint = bytes ''0.0.0.0:4317'', ic_http_endpoint = bytes ''0.0.0.0:4318'',
     ic_channel_capacity = 8192\<rparr>"

record sampling_match =
  sm_namespace :: "u8 list option"
  sm_severity_lte :: "u8 list option"

record sampling_rule =
  sr_selector :: sampling_match
  sr_target :: u16

record sampling_config =
  sc_default_target :: u16
  sc_rules :: "sampling_rule list"

definition sampling_default :: sampling_config where
  "sampling_default = \<lparr>sc_default_target = 100, sc_rules = []\<rparr>"

record regex_rule_config =
  rr_name :: "u8 list"
  rr_pattern :: "u8 list"
  rr_mask :: "u8 list"
  rr_fields :: "u8 list list"

record redaction_config =
  rc_regex_rules :: "regex_rule_config list"

record export_config =
  ec_otlp_endpoint :: "u8 list option"
  ec_spool_dir :: "u8 list"
  ec_spool_max_bytes :: u64

definition export_default :: export_config where
  "export_default = \<lparr>ec_otlp_endpoint = None, ec_spool_dir = bytes ''/var/lib/archiv/spool'',
     ec_spool_max_bytes = 512 * 1024 * 1024\<rparr>"

record limits =
  li_max_body_bytes :: nat

definition limits_default :: limits where
  "limits_default = \<lparr>li_max_body_bytes = 4 * 1024 * 1024\<rparr>"

record agent_config =
  ac_ingest :: ingest_config
  ac_sampling :: sampling_config
  ac_redaction :: redaction_config
  ac_export :: export_config
  ac_limits :: limits

definition agent_default :: agent_config where
  "agent_default = \<lparr>ac_ingest = ingest_default, ac_sampling = sampling_default,
     ac_redaction = \<lparr>rc_regex_rules = []\<rparr>, ac_export = export_default, ac_limits = limits_default\<rparr>"

section \<open>Errors and validation\<close>

text \<open>The causes of \<open>ConfigIo\<close> and \<open>ConfigParse\<close> are values of the host and of the YAML reader.\<close>

datatype ('io, 'y) config_error =
    ConfigIo "u8 list" 'io
  | ConfigParse 'y
  | TargetOutOfRange "u8 list" u16
  | ZeroChannelCapacity
  | ZeroMaxBodyBytes
  | EmptyFields "u8 list"
  | InvalidFieldSelector "u8 list" "u8 list"

text \<open>The loop of \<^verbatim>\<open>parse_selectors\<close>; \<open>name\<close> is the rule named in the error.\<close>

fun selector_loop :: "u8 list \<Rightarrow> u8 list list \<Rightarrow> field_selector list \<Rightarrow> (('io, 'y) config_error, field_selector list) result" where
  "selector_loop name [] out = Ok out"
| "selector_loop name (f # fs) out =
     (case field_selector_parse f of
        None \<Rightarrow> Err (InvalidFieldSelector name f)
      | Some sel \<Rightarrow> selector_loop name fs (out @ [sel]))"

definition parse_selectors :: "regex_rule_config \<Rightarrow> (('io, 'y) config_error, field_selector list) result" where
  "parse_selectors r =
     (if rr_fields r = [] then Err (EmptyFields (rr_name r)) else selector_loop (rr_name r) (rr_fields r) [])"

definition into_rule_spec :: "regex_rule_config \<Rightarrow> (('io, 'y) config_error, rule_spec) result" where
  "into_rule_spec r =
     rbind (parse_selectors r) (\<lambda>fields.
       Ok \<lparr>spec_name = rr_name r, spec_pattern = rr_pattern r, spec_mask = rr_mask r, spec_fields = fields\<rparr>)"

text \<open>Collecting an iterator of results stops at the first error.\<close>

fun collect :: "('a \<Rightarrow> ('e, 'b) result) \<Rightarrow> 'a list \<Rightarrow> ('e, 'b list) result" where
  "collect f [] = Ok []"
| "collect f (x # xs) = rbind (f x) (\<lambda>y. rbind (collect f xs) (\<lambda>ys. Ok (y # ys)))"

definition into_rule_specs :: "redaction_config \<Rightarrow> (('io, 'y) config_error, rule_spec list) result" where
  "into_rule_specs c = collect into_rule_spec (rc_regex_rules c)"

definition into_redaction_rule_specs :: "agent_config \<Rightarrow> (('io, 'y) config_error, rule_spec list) result" where
  "into_redaction_rule_specs cfg = into_rule_specs (ac_redaction cfg)"

text \<open>The two loops of \<^verbatim>\<open>validate\<close>.\<close>

fun validate_targets :: "nat \<Rightarrow> sampling_rule list \<Rightarrow> (('io, 'y) config_error, unit) result" where
  "validate_targets i [] = Ok ()"
| "validate_targets i (rule # rules) =
     (if 100 < sr_target rule then Err (TargetOutOfRange (bytes ''rules['' @ decimal i @ bytes '']'') (sr_target rule))
      else validate_targets (i + 1) rules)"

fun validate_selectors :: "regex_rule_config list \<Rightarrow> (('io, 'y) config_error, unit) result" where
  "validate_selectors [] = Ok ()"
| "validate_selectors (rule # rules) = rbind (parse_selectors rule) (\<lambda>_. validate_selectors rules)"

definition validate :: "agent_config \<Rightarrow> (('io, 'y) config_error, unit) result" where
  "validate cfg =
     (if 100 < sc_default_target (ac_sampling cfg)
      then Err (TargetOutOfRange (bytes ''default'') (sc_default_target (ac_sampling cfg)))
      else rbind (validate_targets 0 (sc_rules (ac_sampling cfg))) (\<lambda>_.
        if ic_channel_capacity (ac_ingest cfg) = 0 then Err ZeroChannelCapacity
        else if li_max_body_bytes (ac_limits cfg) = 0 then Err ZeroMaxBodyBytes
        else validate_selectors (rc_regex_rules (ac_redaction cfg))))"

definition from_yaml :: "(u8 list \<Rightarrow> 'y + agent_config) \<Rightarrow> u8 list \<Rightarrow> (('io, 'y) config_error, agent_config) result" where
  "from_yaml from_str yaml =
     (case from_str yaml of
        Inl e \<Rightarrow> Err (ConfigParse e)
      | Inr cfg \<Rightarrow> rbind (validate cfg) (\<lambda>_. Ok cfg))"

definition load ::
  "(u8 list \<Rightarrow> 'io + u8 list) \<Rightarrow> (u8 list \<Rightarrow> 'y + agent_config) \<Rightarrow> u8 list \<Rightarrow> (('io, 'y) config_error, agent_config) result" where
  "load read_to_string from_str path =
     (case read_to_string path of
        Inl e \<Rightarrow> Err (ConfigIo path e)
      | Inr text \<Rightarrow> from_yaml from_str text)"

section \<open>The fingerprint of the policy\<close>

definition le_bytes :: "u16 \<Rightarrow> u8 list" where
  "le_bytes t = [ucast t, ucast (drop_bit 8 t)]"

definition or_empty :: "u8 list option \<Rightarrow> u8 list" where
  "or_empty s = (case s of Some t \<Rightarrow> t | None \<Rightarrow> [])"

text \<open>The updates that each loop feeds to the hash, in order.\<close>

definition rule_updates :: "sampling_rule \<Rightarrow> u8 list list" where
  "rule_updates r =
     [or_empty (sm_namespace (sr_selector r)), [0], or_empty (sm_severity_lte (sr_selector r)), [0], le_bytes (sr_target r)]"

definition regex_updates :: "regex_rule_config \<Rightarrow> u8 list list" where
  "regex_updates r =
     concat (map (\<lambda>field. [field, [0]]) [rr_name r, rr_pattern r, rr_mask r]) @
     concat (map (\<lambda>f. [f, [0]]) (rr_fields r)) @ [[0xFE]]"

definition policy_fingerprint :: "'h hasher \<Rightarrow> agent_config \<Rightarrow> u64" where
  "policy_fingerprint hx cfg =
     (let h = hx_new hx 0;
          h = hx_update hx h (le_bytes (sc_default_target (ac_sampling cfg)));
          h = fold (\<lambda>r h. foldl (hx_update hx) h (rule_updates r)) (sc_rules (ac_sampling cfg)) h;
          h = hx_update hx h [0xFF];
          h = fold (\<lambda>r h. foldl (hx_update hx) h (regex_updates r)) (rc_regex_rules (ac_redaction cfg)) h
      in hx_digest hx h)"

section \<open>What validation means\<close>

text \<open>A configuration the agent may start with, and what each error says of one.\<close>

definition rule_valid :: "regex_rule_config \<Rightarrow> bool" where
  "rule_valid r \<longleftrightarrow> rr_fields r \<noteq> [] \<and> (\<forall>f \<in> set (rr_fields r). field_selector_parse f \<noteq> None)"

definition config_valid :: "agent_config \<Rightarrow> bool" where
  "config_valid cfg \<longleftrightarrow> unat (sc_default_target (ac_sampling cfg)) \<le> 100 \<and>
     (\<forall>r \<in> set (sc_rules (ac_sampling cfg)). unat (sr_target r) \<le> 100) \<and>
     0 < ic_channel_capacity (ac_ingest cfg) \<and> 0 < li_max_body_bytes (ac_limits cfg) \<and>
     (\<forall>r \<in> set (rc_regex_rules (ac_redaction cfg)). rule_valid r)"

fun describes :: "('io, 'y) config_error \<Rightarrow> agent_config \<Rightarrow> bool" where
  "describes (TargetOutOfRange which t) cfg \<longleftrightarrow> 100 < unat t \<and>
     (which = bytes ''default'' \<and> t = sc_default_target (ac_sampling cfg) \<or>
      (\<exists>i < length (sc_rules (ac_sampling cfg)). which = bytes ''rules['' @ decimal i @ bytes '']'' \<and>
         t = sr_target (sc_rules (ac_sampling cfg) ! i)))"
| "describes ZeroChannelCapacity cfg \<longleftrightarrow> ic_channel_capacity (ac_ingest cfg) = 0"
| "describes ZeroMaxBodyBytes cfg \<longleftrightarrow> li_max_body_bytes (ac_limits cfg) = 0"
| "describes (EmptyFields name) cfg \<longleftrightarrow>
     (\<exists>r \<in> set (rc_regex_rules (ac_redaction cfg)). rr_name r = name \<and> rr_fields r = [])"
| "describes (InvalidFieldSelector name sel) cfg \<longleftrightarrow>
     (\<exists>r \<in> set (rc_regex_rules (ac_redaction cfg)). rr_name r = name \<and> sel \<in> set (rr_fields r) \<and> field_selector_parse sel = None)"
| "describes _ cfg \<longleftrightarrow> False"

lemma selector_loop_result:
  "selector_loop name fs out =
    (if \<forall>f \<in> set fs. field_selector_parse f \<noteq> None then Ok (out @ map (the \<circ> field_selector_parse) fs)
     else Err (InvalidFieldSelector name (the (List.find (\<lambda>f. field_selector_parse f = None) fs))))"
  by (induction name fs out rule: selector_loop.induct) (auto split: option.splits)

lemma find_None_selector:
  "\<not> (\<forall>f \<in> set fs. field_selector_parse f \<noteq> None) \<Longrightarrow>
    \<exists>f. List.find (\<lambda>f. field_selector_parse f = None) fs = Some f \<and> f \<in> set fs \<and> field_selector_parse f = None"
  by (induction fs) auto

lemma parse_selectors_Ok:
  "parse_selectors r = Ok sels \<longleftrightarrow> rule_valid r \<and> sels = map (the \<circ> field_selector_parse) (rr_fields r)"
  by (auto simp: parse_selectors_def rule_valid_def selector_loop_result)

lemma parse_selectors_Err:
  "parse_selectors r = Err e \<Longrightarrow> e = EmptyFields (rr_name r) \<and> rr_fields r = [] \<or>
    (\<exists>f. e = InvalidFieldSelector (rr_name r) f \<and> f \<in> set (rr_fields r) \<and> field_selector_parse f = None)"
  using find_None_selector[of "rr_fields r"]
  by (auto simp: parse_selectors_def selector_loop_result split: if_splits)

lemma parse_selectors_not_Panic: "parse_selectors r \<noteq> Panic"
  by (simp add: parse_selectors_def selector_loop_result)

lemma word_less_100: "100 < t \<longleftrightarrow> 100 < unat t" for t :: u16
  by (simp add: word_less_nat_alt)

lemma validate_targets_result:
  "validate_targets i rules =
    (if \<forall>r \<in> set rules. unat (sr_target r) \<le> 100 then Ok ()
     else Err (let k = length (takeWhile (\<lambda>r. unat (sr_target r) \<le> 100) rules)
               in TargetOutOfRange (bytes ''rules['' @ decimal (i + k) @ bytes '']'') (sr_target (rules ! k))))"
  by (induction i rules rule: validate_targets.induct) (auto simp: word_less_100 Let_def)

lemma first_bad_rule:
  assumes "\<not> (\<forall>r \<in> set rules. unat (sr_target r) \<le> 100)"
  shows "length (takeWhile (\<lambda>r. unat (sr_target r) \<le> 100) rules) < length rules \<and>
    100 < unat (sr_target (rules ! length (takeWhile (\<lambda>r. unat (sr_target r) \<le> 100) rules)))"
  using assms by (induction rules) auto

lemma validate_selectors_Ok: "validate_selectors rules = Ok () \<longleftrightarrow> (\<forall>r \<in> set rules. rule_valid r)"
  by (induction rules) (auto simp: result_simps parse_selectors_Ok)

lemma validate_selectors_Err: "validate_selectors rules = Err e \<Longrightarrow> \<exists>r \<in> set rules. parse_selectors r = Err e"
  by (induction rules) (auto simp: result_simps)

lemma validate_selectors_not_Panic: "validate_selectors rules \<noteq> Panic"
  by (induction rules) (auto simp: result_simps parse_selectors_not_Panic)

lemma validate_result:
  "case (validate cfg :: (('io, 'y) config_error, unit) result) of
     Ok u \<Rightarrow> config_valid cfg
   | Err e \<Rightarrow> \<not> config_valid cfg \<and> describes e cfg
   | Panic \<Rightarrow> False"
proof -
  let ?v = "validate cfg :: (('io, 'y) config_error, unit) result"
  let ?t = "sc_rules (ac_sampling cfg)" and ?r = "rc_regex_rules (ac_redaction cfg)"
  consider (d) "100 < unat (sc_default_target (ac_sampling cfg))"
    | (t) "\<not> 100 < unat (sc_default_target (ac_sampling cfg))" "\<not> (\<forall>r \<in> set ?t. unat (sr_target r) \<le> 100)"
    | (r) "unat (sc_default_target (ac_sampling cfg)) \<le> 100" "\<forall>r \<in> set ?t. unat (sr_target r) \<le> 100"
    by fastforce
  then show ?thesis
  proof cases
    case d
    then show ?thesis by (simp add: validate_def word_less_100 config_valid_def)
  next
    case t
    from first_bad_rule[OF t(2)] t show ?thesis
      by (auto simp: validate_def word_less_100 config_valid_def validate_targets_result Let_def)
  next
    case r
    then have v: "?v = (if ic_channel_capacity (ac_ingest cfg) = 0 then Err ZeroChannelCapacity
        else if li_max_body_bytes (ac_limits cfg) = 0 then Err ZeroMaxBodyBytes else validate_selectors ?r)"
      by (simp add: validate_def word_less_100 validate_targets_result)
    show ?thesis
    proof (cases "validate_selectors ?r :: (('io, 'y) config_error, unit) result")
      case (Ok u)
      then have "\<forall>x \<in> set ?r. rule_valid x" by (simp add: validate_selectors_Ok)
      with Ok r show ?thesis by (simp add: v config_valid_def)
    next
      case (Err e)
      from validate_selectors_Err[OF Err] obtain x where x: "x \<in> set ?r" "parse_selectors x = Err e" by blast
      moreover have "\<not> rule_valid x"
      proof
        assume "rule_valid x"
        then obtain sels where "(parse_selectors x :: (('io, 'y) config_error, field_selector list) result) = Ok sels"
          using parse_selectors_Ok by blast
        with x(2) show False by simp
      qed
      ultimately show ?thesis
        using Err r parse_selectors_Err[OF x(2)] by (auto simp: v config_valid_def)
    next
      case Panic
      with validate_selectors_not_Panic show ?thesis by blast
    qed
  qed
qed

lemma validate_Ok:
  assumes v: "(validate cfg :: (('io, 'y) config_error, unit) result) = Ok u"
  shows "config_valid cfg"
proof -
  have "case (validate cfg :: (('io, 'y) config_error, unit) result) of
     Ok u \<Rightarrow> config_valid cfg | Err e \<Rightarrow> \<not> config_valid cfg \<and> describes e cfg | Panic \<Rightarrow> False"
    by (rule validate_result)
  with v show ?thesis by simp
qed

lemma collect_map: "(\<And>x. x \<in> set xs \<Longrightarrow> f x = Ok (g x)) \<Longrightarrow> collect f xs = Ok (map g xs)"
  by (induction xs) simp_all

definition spec_of :: "regex_rule_config \<Rightarrow> rule_spec" where
  "spec_of r = \<lparr>spec_name = rr_name r, spec_pattern = rr_pattern r, spec_mask = rr_mask r,
     spec_fields = map (the \<circ> field_selector_parse) (rr_fields r)\<rparr>"

lemma into_rule_specs_valid:
  assumes "config_valid cfg"
  shows "into_rule_specs (ac_redaction cfg) = Ok (map spec_of (rc_regex_rules (ac_redaction cfg)))"
  unfolding into_rule_specs_def
  by (rule collect_map) (use assms in \<open>auto simp: config_valid_def into_rule_spec_def spec_of_def result_simps parse_selectors_Ok\<close>)

lemma show_selector_spec:
  assumes "rule_valid r"
  shows "map show_selector (spec_fields (spec_of r)) = rr_fields r"
proof -
  have "show_selector (the (field_selector_parse f)) = f" if "f \<in> set (rr_fields r)" for f
  proof -
    from assms that obtain sel where "field_selector_parse f = Some sel" by (auto simp: rule_valid_def)
    then show ?thesis using field_selector_parse_Some[of f sel] by simp
  qed
  then show ?thesis by (simp add: spec_of_def map_idI)
qed

section \<open>What the fingerprint covers\<close>

definition policy_updates :: "agent_config \<Rightarrow> u8 list list" where
  "policy_updates cfg = [le_bytes (sc_default_target (ac_sampling cfg))] @
     concat (map rule_updates (sc_rules (ac_sampling cfg))) @ [[0xFF]] @
     concat (map regex_updates (rc_regex_rules (ac_redaction cfg)))"

lemma fold_updates: "fold (\<lambda>r h. foldl u h (g r)) xs h = foldl u h (concat (map g xs))"
  by (induction xs arbitrary: h) simp_all

lemma policy_fingerprint_stream:
  "policy_fingerprint hx cfg = hx_digest hx (foldl (hx_update hx) (hx_new hx 0) (policy_updates cfg))"
  by (simp add: policy_fingerprint_def policy_updates_def fold_updates Let_def)

text \<open>
  Bytes of a text that holds no NUL: UTF-8 never uses the bytes \<open>0xFE\<close> and \<open>0xFF\<close>.
\<close>

definition text_ok :: "u8 list \<Rightarrow> bool" where
  "text_ok s \<longleftrightarrow> 0 \<notin> set s \<and> 0xFE \<notin> set s \<and> 0xFF \<notin> set s"

definition policy_text_ok :: "agent_config \<Rightarrow> bool" where
  "policy_text_ok cfg \<longleftrightarrow>
     (\<forall>r \<in> set (sc_rules (ac_sampling cfg)). text_ok (or_empty (sm_namespace (sr_selector r))) \<and>
        text_ok (or_empty (sm_severity_lte (sr_selector r)))) \<and>
     (\<forall>r \<in> set (rc_regex_rules (ac_redaction cfg)). text_ok (rr_name r) \<and> text_ok (rr_pattern r) \<and> text_ok (rr_mask r) \<and>
        list_all text_ok (rr_fields r))"

text \<open>What a sampling rule hashes to: an absent selector counts as an empty one.\<close>

definition rule_shape :: "sampling_rule \<Rightarrow> u8 list \<times> u8 list \<times> u16" where
  "rule_shape r = (or_empty (sm_namespace (sr_selector r)), or_empty (sm_severity_lte (sr_selector r)), sr_target r)"

lemma text_ok_nul: "text_ok s \<Longrightarrow> 0 \<notin> set s"
  by (simp add: text_ok_def)

lemma terminated_inj: "xs @ z # r = ys @ z # r' \<Longrightarrow> z \<notin> set xs \<Longrightarrow> z \<notin> set ys \<Longrightarrow> xs = ys \<and> r = r'"
proof (induction xs arbitrary: ys)
  case Nil
  then show ?case by (cases ys) auto
next
  case (Cons x xs)
  then show ?case by (cases ys) auto
qed

lemma le_bytes_inj: "le_bytes s @ xs = le_bytes t @ ys \<Longrightarrow> s = t \<and> xs = ys"
proof -
  assume "le_bytes s @ xs = le_bytes t @ ys"
  then have e: "(ucast s :: u8) = ucast t" "(ucast (drop_bit 8 s) :: u8) = ucast (drop_bit 8 t)" "xs = ys"
    by (simp_all add: le_bytes_def)
  have "bit s n = bit t n" if "n < 16" for n
  proof (cases "n < 8")
    case True
    have "bit (ucast s :: u8) n = bit (ucast t :: u8) n" using e(1) by simp
    with True show ?thesis by (simp add: bit_simps)
  next
    case False
    have "bit (ucast (drop_bit 8 s) :: u8) (n - 8) = bit (ucast (drop_bit 8 t) :: u8) (n - 8)" using e(2) by simp
    moreover have "n - 8 < 8" using that by simp
    ultimately show ?thesis using False by (simp add: bit_simps)
  qed
  then have "s = t" by (intro bit_word_eqI) simp
  with e(3) show ?thesis by simp
qed

lemma head_not:
  assumes "text_ok s" "z = 0xFE \<or> z = 0xFF" "s @ 0 # xs = z # ys"
  shows False
  using assms by (cases s) (auto simp: text_ok_def)

lemma rule_updates_concat:
  "concat (rule_updates r) = or_empty (sm_namespace (sr_selector r)) @ 0 #
    or_empty (sm_severity_lte (sr_selector r)) @ 0 # le_bytes (sr_target r)"
  by (simp add: rule_updates_def)

lemma rules_inj:
  assumes "concat (concat (map rule_updates rs)) @ 0xFF # xs = concat (concat (map rule_updates rs')) @ 0xFF # ys"
    and "\<forall>r \<in> set rs \<union> set rs'. text_ok (or_empty (sm_namespace (sr_selector r))) \<and> text_ok (or_empty (sm_severity_lte (sr_selector r)))"
  shows "map rule_shape rs = map rule_shape rs' \<and> xs = ys"
  using assms
proof (induction rs arbitrary: rs')
  case Nil
  then show ?case
    by (cases rs') (auto simp: rule_updates_concat dest!: head_not[OF _ disjI2[OF refl] sym])
next
  case (Cons r rs)
  show ?case
  proof (cases rs')
    case Nil
    with Cons.prems show ?thesis by (auto simp: rule_updates_concat dest!: head_not[OF _ disjI2[OF refl]])
  next
    case (Cons r' rs'')
    let ?ns = "\<lambda>r. or_empty (sm_namespace (sr_selector r))" and ?sv = "\<lambda>r. or_empty (sm_severity_lte (sr_selector r))"
    have z: "0 \<notin> set (?ns r)" "0 \<notin> set (?ns r')" "0 \<notin> set (?sv r)" "0 \<notin> set (?sv r')"
      using Cons.prems(2) Cons by (simp_all add: text_ok_def)
    let ?k = "concat (concat (map rule_updates rs)) @ 0xFF # xs" and ?k' = "concat (concat (map rule_updates rs'')) @ 0xFF # ys"
    have "?ns r @ 0 # ?sv r @ 0 # le_bytes (sr_target r) @ ?k = ?ns r' @ 0 # ?sv r' @ 0 # le_bytes (sr_target r') @ ?k'"
      using Cons.prems(1) Cons by (simp add: rule_updates_concat)
    from terminated_inj[OF this z(1,2)] have ns: "?ns r = ?ns r'"
      and "?sv r @ 0 # le_bytes (sr_target r) @ ?k = ?sv r' @ 0 # le_bytes (sr_target r') @ ?k'" by simp_all
    from terminated_inj[OF this(2) z(3,4)] le_bytes_inj
    have "?sv r = ?sv r'" "sr_target r = sr_target r'" "?k = ?k'" by blast+
    with ns Cons.IH[of rs''] Cons.prems(2) Cons show ?thesis by (simp add: rule_shape_def)
  qed
qed

lemma fields_inj:
  assumes "concat (map (\<lambda>f. f @ [0]) fs) @ 0xFE # xs = concat (map (\<lambda>f. f @ [0]) fs') @ 0xFE # ys"
    and "list_all text_ok fs" "list_all text_ok fs'"
  shows "fs = fs' \<and> xs = ys"
  using assms
proof (induction fs arbitrary: fs')
  case Nil
  then show ?case by (cases fs') (auto dest!: head_not[OF _ disjI1[OF refl] sym])
next
  case (Cons f fs)
  show ?case
  proof (cases fs')
    case Nil
    with Cons.prems show ?thesis by (auto dest!: head_not[OF _ disjI1[OF refl]])
  next
    case (Cons f' fs'')
    with Cons.prems have "f @ 0 # concat (map (\<lambda>f. f @ [0]) fs) @ 0xFE # xs =
        f' @ 0 # concat (map (\<lambda>f. f @ [0]) fs'') @ 0xFE # ys" "0 \<notin> set f" "0 \<notin> set f'"
      by (simp_all add: text_ok_def)
    from terminated_inj[OF this] Cons.IH[of fs''] Cons.prems Cons show ?thesis by simp
  qed
qed

lemma concat_pairs: "concat (concat (map (\<lambda>f. [f, [z]]) fs)) = concat (map (\<lambda>f. f @ [z]) fs)"
  by (induction fs) simp_all

lemma regex_updates_concat:
  "concat (regex_updates r) = rr_name r @ 0 # rr_pattern r @ 0 # rr_mask r @ 0 #
    concat (map (\<lambda>f. f @ [0]) (rr_fields r)) @ [0xFE]"
  by (simp add: regex_updates_def concat_pairs)

lemma regex_rules_inj:
  assumes "concat (concat (map regex_updates rs)) = concat (concat (map regex_updates rs'))"
    and "\<forall>r \<in> set rs \<union> set rs'. text_ok (rr_name r) \<and> text_ok (rr_pattern r) \<and> text_ok (rr_mask r) \<and> list_all text_ok (rr_fields r)"
  shows "rs = rs'"
  using assms
proof (induction rs arbitrary: rs')
  case Nil
  then show ?case by (cases rs') (auto simp: regex_updates_concat)
next
  case (Cons r rs)
  show ?case
  proof (cases rs')
    case Nil
    with Cons.prems show ?thesis by (auto simp: regex_updates_concat)
  next
    case (Cons r' rs'')
    let ?k = "concat (concat (map regex_updates rs))" and ?k' = "concat (concat (map regex_updates rs''))"
    let ?f = "\<lambda>r. concat (map (\<lambda>f. f @ [0]) (rr_fields r)) :: u8 list"
    have z: "0 \<notin> set (rr_name r)" "0 \<notin> set (rr_name r')" "0 \<notin> set (rr_pattern r)" "0 \<notin> set (rr_pattern r')"
      "0 \<notin> set (rr_mask r)" "0 \<notin> set (rr_mask r')" "list_all text_ok (rr_fields r)" "list_all text_ok (rr_fields r')"
      using Cons.prems(2) Cons by (simp_all add: text_ok_nul)
    have "rr_name r @ 0 # rr_pattern r @ 0 # rr_mask r @ 0 # ?f r @ 0xFE # ?k =
        rr_name r' @ 0 # rr_pattern r' @ 0 # rr_mask r' @ 0 # ?f r' @ 0xFE # ?k'"
      using Cons.prems(1) Cons by (simp add: regex_updates_concat)
    from terminated_inj[OF this z(1,2)] have n: "rr_name r = rr_name r'"
      and e1: "rr_pattern r @ 0 # rr_mask r @ 0 # ?f r @ 0xFE # ?k = rr_pattern r' @ 0 # rr_mask r' @ 0 # ?f r' @ 0xFE # ?k'" by simp_all
    from terminated_inj[OF e1 z(3,4)] have p: "rr_pattern r = rr_pattern r'"
      and e2: "rr_mask r @ 0 # ?f r @ 0xFE # ?k = rr_mask r' @ 0 # ?f r' @ 0xFE # ?k'" by simp_all
    from terminated_inj[OF e2 z(5,6)] fields_inj[OF _ z(7,8)]
    have "rr_mask r = rr_mask r'" "rr_fields r = rr_fields r'" "?k = ?k'" by blast+
    with n p Cons.IH[of rs''] Cons.prems(2) Cons show ?thesis by simp
  qed
qed

lemma policy_updates_inj:
  assumes "policy_text_ok a" "policy_text_ok b" "concat (policy_updates a) = concat (policy_updates b)"
  shows "sc_default_target (ac_sampling a) = sc_default_target (ac_sampling b)"
    "map rule_shape (sc_rules (ac_sampling a)) = map rule_shape (sc_rules (ac_sampling b))"
    "ac_redaction a = ac_redaction b"
proof -
  let ?r = "\<lambda>c. concat (concat (map rule_updates (sc_rules (ac_sampling c))))"
  let ?x = "\<lambda>c. concat (concat (map regex_updates (rc_regex_rules (ac_redaction c))))"
  have e: "le_bytes (sc_default_target (ac_sampling a)) @ ?r a @ 0xFF # ?x a =
      le_bytes (sc_default_target (ac_sampling b)) @ ?r b @ 0xFF # ?x b"
    using assms(3) by (simp add: policy_updates_def)
  note E = le_bytes_inj[OF e]
  then show "sc_default_target (ac_sampling a) = sc_default_target (ac_sampling b)" by simp
  have R: "map rule_shape (sc_rules (ac_sampling a)) = map rule_shape (sc_rules (ac_sampling b)) \<and> ?x a = ?x b"
    by (rule rules_inj[OF conjunct2[OF E]]) (use assms(1,2) in \<open>auto simp: policy_text_ok_def\<close>)
  then show "map rule_shape (sc_rules (ac_sampling a)) = map rule_shape (sc_rules (ac_sampling b))" by simp
  have "rc_regex_rules (ac_redaction a) = rc_regex_rules (ac_redaction b)"
    by (rule regex_rules_inj[OF conjunct2[OF R]]) (use assms(1,2) in \<open>auto simp: policy_text_ok_def\<close>)
  then show "ac_redaction a = ac_redaction b" by (intro redaction_config.equality) simp_all
qed

section \<open>Properties\<close>

text \<open>
  C31: validation decides: it accepts exactly the valid configurations (targets are percentages, the
  channel and the body limit are not zero, every redaction rule has selectors and all of them parse),
  each error it returns names a fault the configuration has, and it never panics.
\<close>

theorem validate_decides:
  "case (validate cfg :: (('io, 'y) config_error, unit) result) of
     Ok u \<Rightarrow> config_valid cfg
   | Err e \<Rightarrow> \<not> config_valid cfg \<and> describes e cfg
   | Panic \<Rightarrow> False"
  by (rule validate_result)

text \<open>
  What is loaded is usable: a configuration that \<^verbatim>\<open>load\<close> returns is valid and is the one the YAML
  reader produced from the file, and its redaction rules convert without an error into one
  specification each, in order, with the same name, pattern and mask and the selectors spelled in
  the file.
\<close>

theorem load_sound:
  assumes "(load read_to_string from_str path :: (('io, 'y) config_error, agent_config) result) = Ok cfg"
  shows "config_valid cfg \<and> (\<exists>text. read_to_string path = Inr text \<and> from_str text = Inr cfg) \<and>
    (\<exists>specs. (into_redaction_rule_specs cfg :: (('io, 'y) config_error, rule_spec list) result) = Ok specs \<and>
       list_all2 (\<lambda>r spec. spec_name spec = rr_name r \<and> spec_pattern spec = rr_pattern r \<and> spec_mask spec = rr_mask r \<and>
         spec_fields spec \<noteq> [] \<and> map show_selector (spec_fields spec) = rr_fields r)
         (rc_regex_rules (ac_redaction cfg)) specs)"
proof -
  from assms obtain doc where t: "read_to_string path = Inr doc" "from_str doc = Inr cfg"
    and v: "(validate cfg :: (('io, 'y) config_error, unit) result) = Ok ()"
    by (auto simp: load_def from_yaml_def result_simps split: sum.splits)
  from validate_Ok[OF v] have c: "config_valid cfg" .
  then have "\<forall>r \<in> set (rc_regex_rules (ac_redaction cfg)). rule_valid r" by (simp add: config_valid_def)
  then have "list_all2 (\<lambda>r spec. spec_name spec = rr_name r \<and> spec_pattern spec = rr_pattern r \<and> spec_mask spec = rr_mask r \<and>
         spec_fields spec \<noteq> [] \<and> map show_selector (spec_fields spec) = rr_fields r)
         (rc_regex_rules (ac_redaction cfg)) (map spec_of (rc_regex_rules (ac_redaction cfg)))"
    unfolding list_all2_map2 by (intro list.rel_refl_strong) (simp_all add: show_selector_spec, simp_all add: spec_of_def rule_valid_def)
  with c t show ?thesis by (simp add: into_redaction_rule_specs_def into_rule_specs_valid[OF c])
qed

text \<open>A reader that knows one document: a body rule under the default settings.\<close>

definition body_config :: agent_config where
  "body_config = agent_default\<lparr>ac_redaction := \<lparr>rc_regex_rules = [\<lparr>rr_name = bytes ''at'', rr_pattern = bytes ''@'',
     rr_mask = bytes ''[AT]'', rr_fields = [bytes ''body'']\<rparr>]\<rparr>\<rparr>"

definition one_document :: "u8 list \<Rightarrow> unit + agent_config" where
  "one_document text = (if text = bytes ''doc'' then Inr body_config else Inl ())"

lemma load_body_config:
  "(load (\<lambda>path. Inr (bytes ''doc'')) one_document [] :: ((unit, unit) config_error, agent_config) result) = Ok body_config"
  by (simp add: load_def from_yaml_def one_document_def validate_def body_config_def agent_default_def sampling_default_def
      ingest_default_def limits_default_def parse_selectors_def field_selector_parse_def)

theorem load_sound_witness:
  "\<exists>spec. (into_redaction_rule_specs body_config :: ((unit, unit) config_error, rule_spec list) result) = Ok [spec] \<and>
    map show_selector (spec_fields spec) = [bytes ''body'']"
  using load_sound[OF load_body_config] by (auto simp: body_config_def list_all2_Cons1)

text \<open>
  C32: the fingerprint covers the policy: it is the hash of a text which two policies share, when no
  string in them holds a NUL, only if they have the same default target, the same sampling rules up
  to an absent selector read as an empty one, and the same redaction rules.
\<close>

theorem fingerprint_covers:
  assumes "streams hx" "policy_text_ok a" "policy_text_ok b"
  shows "policy_fingerprint hx a = hx_oneshot hx (concat (policy_updates a)) 0 \<and>
    (concat (policy_updates a) = concat (policy_updates b) \<longleftrightarrow>
      sc_default_target (ac_sampling a) = sc_default_target (ac_sampling b) \<and>
      map rule_shape (sc_rules (ac_sampling a)) = map rule_shape (sc_rules (ac_sampling b)) \<and>
      ac_redaction a = ac_redaction b)"
proof
  show "policy_fingerprint hx a = hx_oneshot hx (concat (policy_updates a)) 0"
    using assms(1) by (simp add: policy_fingerprint_stream streams_def)
  have "concat (rule_updates r) = (\<lambda>(ns, sv, t). ns @ 0 # sv @ 0 # le_bytes t) (rule_shape r)" for r
    by (simp add: rule_updates_concat rule_shape_def)
  then have "concat (concat (map rule_updates rs)) = concat (map (\<lambda>(ns, sv, t). ns @ 0 # sv @ 0 # le_bytes t) (map rule_shape rs))" for rs
    by (induction rs) simp_all
  then have "concat (policy_updates a) = concat (policy_updates b)"
    if "sc_default_target (ac_sampling a) = sc_default_target (ac_sampling b)"
      "map rule_shape (sc_rules (ac_sampling a)) = map rule_shape (sc_rules (ac_sampling b))" "ac_redaction a = ac_redaction b"
    using that by (simp add: policy_updates_def del: map_map)
  with policy_updates_inj[OF assms(2,3)]
  show "concat (policy_updates a) = concat (policy_updates b) \<longleftrightarrow>
      sc_default_target (ac_sampling a) = sc_default_target (ac_sampling b) \<and>
      map rule_shape (sc_rules (ac_sampling a)) = map rule_shape (sc_rules (ac_sampling b)) \<and>
      ac_redaction a = ac_redaction b" by blast
qed

theorem fingerprint_covers_witness:
  "policy_fingerprint poly_hasher body_config = hx_oneshot poly_hasher (concat (policy_updates body_config)) 0 \<and>
    concat (policy_updates body_config) \<noteq> concat (policy_updates agent_default)"
proof -
  have "policy_text_ok body_config" "policy_text_ok agent_default"
    by (simp_all add: policy_text_ok_def body_config_def agent_default_def sampling_default_def text_ok_def)
  from fingerprint_covers[OF streams_poly this] show ?thesis
    by (simp add: body_config_def agent_default_def)
qed

end
