(* ===== verification/Breaker.thy ===== *)
theory Breaker
  imports Prelude
begin

text \<open>
  The circuit breaker of \<^verbatim>\<open>src/breaker.rs\<close>: its two operations, the runs of a shared breaker as a
  step relation, and what a trip and an open breaker mean for the faults that were recorded.

  An \<^verbatim>\<open>Instant\<close> is the number of nanoseconds since some origin and a \<^verbatim>\<open>Duration\<close> a number of them;
  \<^verbatim>\<open>saturating_duration_since\<close> is the truncating subtraction.  The mutex makes each operation one
  step.  The fault counter is a \<^verbatim>\<open>u32\<close> and wraps, as in the release profile.
\<close>

section \<open>The breaker\<close>

type_synonym instant = nat
type_synonym duration = nat

definition saturating_duration_since :: "instant \<Rightarrow> instant \<Rightarrow> duration" where
  "saturating_duration_since now earlier = now - earlier"

record breaker_inner =
  bi_window_start :: instant
  bi_faults :: u32
  bi_opened_at :: "instant option"

record circuit_breaker =
  cb_threshold :: u32
  cb_window :: duration
  cb_cooldown :: duration
  cb_inner :: breaker_inner

definition breaker_new :: "instant \<Rightarrow> u32 \<Rightarrow> duration \<Rightarrow> duration \<Rightarrow> circuit_breaker" where
  "breaker_new now threshold window cooldown =
     \<lparr>cb_threshold = max threshold 1, cb_window = window, cb_cooldown = cooldown,
      cb_inner = \<lparr>bi_window_start = now, bi_faults = 0, bi_opened_at = None\<rparr>\<rparr>"

definition from_secs :: "nat \<Rightarrow> duration" where
  "from_secs s = s * 1000000000"

definition breaker_defaults :: "instant \<Rightarrow> circuit_breaker" where
  "breaker_defaults now = breaker_new now 5 (from_secs 10) (from_secs 30)"

definition allow_at :: "instant \<Rightarrow> circuit_breaker \<Rightarrow> circuit_breaker \<times> bool" where
  "allow_at now b =
     (let g = cb_inner b in
      case bi_opened_at g of
        Some opened \<Rightarrow>
          if saturating_duration_since now opened < cb_cooldown b then (b, False)
          else (b\<lparr>cb_inner := \<lparr>bi_window_start = now, bi_faults = 0, bi_opened_at = None\<rparr>\<rparr>, True)
      | None \<Rightarrow> (b, True))"

definition record_fault_at :: "instant \<Rightarrow> circuit_breaker \<Rightarrow> circuit_breaker \<times> bool" where
  "record_fault_at now b =
     (let g = cb_inner b;
          g = (if cb_window b < saturating_duration_since now (bi_window_start g)
               then g\<lparr>bi_window_start := now, bi_faults := 0\<rparr> else g);
          g = g\<lparr>bi_faults := bi_faults g + 1\<rparr>
      in if cb_threshold b \<le> bi_faults g \<and> bi_opened_at g = None
         then (b\<lparr>cb_inner := g\<lparr>bi_opened_at := Some now\<rparr>\<rparr>, True)
         else (b\<lparr>cb_inner := g\<rparr>, False))"

section \<open>Runs\<close>

text \<open>An event is one call with its clock reading and its result.\<close>

datatype breaker_event = Allow instant bool | Fault instant bool

fun event_time :: "breaker_event \<Rightarrow> instant" where
  "event_time (Allow t ok) = t"
| "event_time (Fault t tripped) = t"

inductive breaker_step :: "circuit_breaker \<Rightarrow> breaker_event \<Rightarrow> circuit_breaker \<Rightarrow> bool" where
  step_allow: "allow_at now b = (b', ok) \<Longrightarrow> breaker_step b (Allow now ok) b'"
| step_fault: "record_fault_at now b = (b', tripped) \<Longrightarrow> breaker_step b (Fault now tripped) b'"

inductive_cases breaker_stepE: "breaker_step b e b'"
inductive_simps breaker_step_Allow: "breaker_step b (Allow now ok) b'"
inductive_simps breaker_step_Fault: "breaker_step b (Fault now tripped) b'"

text \<open>A run: the calls in the order in which they took the lock.\<close>

inductive breaker_run :: "circuit_breaker \<Rightarrow> breaker_event list \<Rightarrow> circuit_breaker \<Rightarrow> bool" where
  run_nil: "breaker_run b [] b"
| run_snoc: "breaker_run b es b1 \<Longrightarrow> breaker_step b1 e b2 \<Longrightarrow> breaker_run b (es @ [e]) b2"

inductive_cases breaker_run_nilE: "breaker_run b [] b'"

lemma breaker_run_snoc_iff: "breaker_run b (es @ [e]) b' \<longleftrightarrow> (\<exists>b1. breaker_run b es b1 \<and> breaker_step b1 e b')"
  by (auto elim: breaker_run.cases intro: run_snoc)

lemma breaker_run_append: "breaker_run b (es @ es') b' \<longleftrightarrow> (\<exists>b1. breaker_run b es b1 \<and> breaker_run b1 es' b')"
proof (induction es' arbitrary: b' rule: rev_induct)
  case (snoc e es')
  have "breaker_run b (es @ es' @ [e]) b' \<longleftrightarrow> (\<exists>b1. breaker_run b (es @ es') b1 \<and> breaker_step b1 e b')"
    using breaker_run_snoc_iff[of b "es @ es'" e b'] by simp
  then show ?case using snoc by (auto simp: breaker_run_snoc_iff)
qed (auto elim: breaker_run_nilE intro: run_nil)

fun fault_times :: "breaker_event list \<Rightarrow> instant list" where
  "fault_times [] = []"
| "fault_times (Allow t ok # es) = fault_times es"
| "fault_times (Fault t tripped # es) = t # fault_times es"

lemma fault_times_append [simp]: "fault_times (es @ es') = fault_times es @ fault_times es'"
  by (induction es rule: fault_times.induct) simp_all

definition clocked :: "breaker_event list \<Rightarrow> bool" where
  "clocked es \<longleftrightarrow> sorted (map event_time es)"

lemma clocked_snoc: "clocked (es @ [e]) \<longleftrightarrow> clocked es \<and> (\<forall>e' \<in> set es. event_time e' \<le> event_time e)"
  by (auto simp: clocked_def sorted_append)

lemma fault_times_event: "t \<in> set (fault_times es) \<Longrightarrow> \<exists>e \<in> set es. event_time e = t"
  by (induction es rule: fault_times.induct) auto

text \<open>The parameters never change, and the threshold is positive.\<close>

lemma step_params: "breaker_step b e b' \<Longrightarrow>
    cb_threshold b' = cb_threshold b \<and> cb_window b' = cb_window b \<and> cb_cooldown b' = cb_cooldown b"
  by (erule breaker_stepE)
    (auto simp: allow_at_def record_fault_at_def Let_def split: option.splits if_splits)

lemma run_params: "breaker_run b es b' \<Longrightarrow>
    cb_threshold b' = cb_threshold b \<and> cb_window b' = cb_window b \<and> cb_cooldown b' = cb_cooldown b"
  by (induction rule: breaker_run.induct) (auto dest: step_params)

subsection \<open>What the counter counts\<close>

text \<open>
  The counter never exceeds the number of faults recorded since the window started; it may be
  smaller after a wrap.
\<close>

definition counted :: "circuit_breaker \<Rightarrow> instant list \<Rightarrow> bool" where
  "counted b ts \<longleftrightarrow> (\<exists>old recent. ts = old @ recent \<and> unat (bi_faults (cb_inner b)) \<le> length recent \<and>
     (\<forall>t \<in> set recent. bi_window_start (cb_inner b) \<le> t))"

lemma counted_reset: "bi_faults (cb_inner b) = 0 \<Longrightarrow> counted b ts"
  unfolding counted_def by (rule exI[of _ ts], rule exI[of _ "[]"]) simp

lemma unat_suc_le: "unat (x + 1) \<le> unat x + 1" for x :: u32
proof -
  have "unat (x + 1) = (unat x + 1) mod 2 ^ 32" by (simp add: unat_word_ariths(1))
  then show ?thesis by (simp add: mod_less_eq_dividend)
qed

lemma window_start_seen:
  assumes "breaker_run b es b'"
  shows "bi_window_start (cb_inner b') = bi_window_start (cb_inner b) \<or> bi_window_start (cb_inner b') \<in> event_time ` set es"
  using assms
proof (induction rule: breaker_run.induct)
  case (run_snoc b es b1 e b2)
  then have "bi_window_start (cb_inner b2) = bi_window_start (cb_inner b1) \<or> bi_window_start (cb_inner b2) = event_time e"
    by (auto elim!: breaker_stepE simp: allow_at_def record_fault_at_def Let_def split: option.splits if_splits)
  with run_snoc.IH show ?case by auto
qed simp

lemma counted_step:
  assumes "breaker_step b e b'" "counted b ts" "bi_window_start (cb_inner b) \<le> event_time e"
  shows "counted b' (ts @ fault_times [e])"
  using assms(1)
proof (cases rule: breaker_step.cases)
  case (step_allow now ok)
  then have "b' = b \<or> bi_faults (cb_inner b') = 0"
    by (auto simp: allow_at_def Let_def split: option.splits if_splits)
  with step_allow assms(2) show ?thesis by (auto intro: counted_reset)
next
  case (step_fault now tripped)
  then have ws: "bi_window_start (cb_inner b) \<le> now" using assms(3) by simp
  show ?thesis
  proof (cases "cb_window b < now - bi_window_start (cb_inner b)")
    case True
    with step_fault have "bi_window_start (cb_inner b') = now \<and> bi_faults (cb_inner b') = 1"
      by (auto simp: record_fault_at_def saturating_duration_since_def Let_def split: if_splits)
    with step_fault show ?thesis
      unfolding counted_def by (intro exI[of _ ts] exI[of _ "[now]"]) simp
  next
    case False
    with step_fault have b': "bi_window_start (cb_inner b') = bi_window_start (cb_inner b)"
      "bi_faults (cb_inner b') = bi_faults (cb_inner b) + 1"
      by (auto simp: record_fault_at_def saturating_duration_since_def Let_def split: if_splits)
    from assms(2) obtain old recent where r: "ts = old @ recent" "unat (bi_faults (cb_inner b)) \<le> length recent"
      "\<forall>t \<in> set recent. bi_window_start (cb_inner b) \<le> t"
      unfolding counted_def by blast
    have "unat (bi_faults (cb_inner b')) \<le> length (recent @ [now])"
      using unat_suc_le[of "bi_faults (cb_inner b)"] r(2) b'(2) by simp
    with r b'(1) ws step_fault show ?thesis
      unfolding counted_def by (intro exI[of _ old] exI[of _ "recent @ [now]"]) simp
  qed
qed

lemma counted_run:
  assumes "breaker_run b es b'" "bi_faults (cb_inner b) = 0" "clocked es" "\<forall>e \<in> set es. bi_window_start (cb_inner b) \<le> event_time e"
  shows "counted b' (fault_times es)"
  using assms
proof (induction rule: breaker_run.induct)
  case (run_nil b)
  then show ?case by (simp add: counted_reset)
next
  case (run_snoc b es b1 e b2)
  have "bi_window_start (cb_inner b1) \<le> event_time e"
    using window_start_seen[OF run_snoc.hyps(1)] run_snoc.prems by (auto simp: clocked_snoc)
  moreover have "counted b1 (fault_times es)"
    using run_snoc.IH run_snoc.prems by (simp add: clocked_snoc)
  ultimately show ?case using counted_step[OF run_snoc.hyps(2)] by simp
qed

text \<open>A fault that trips the breaker, and the breaker it leaves.\<close>

lemma trip_elim:
  assumes "record_fault_at t b = (b', True)"
  shows "cb_threshold b' \<le> bi_faults (cb_inner b')" "t - bi_window_start (cb_inner b') \<le> cb_window b'"
    "bi_opened_at (cb_inner b') = Some t"
  using assms by (auto simp: record_fault_at_def saturating_duration_since_def Let_def split: if_splits)

lemma open_step:
  assumes "breaker_step b e b'" "bi_opened_at (cb_inner b) = Some t" "event_time e - t < cb_cooldown b"
  shows "bi_opened_at (cb_inner b') = Some t" "\<nexists>x. e = Allow x True" "\<nexists>x. e = Fault x True"
  using assms
  by (auto elim!: breaker_stepE simp: allow_at_def record_fault_at_def saturating_duration_since_def Let_def split: if_splits)

lemma open_run:
  assumes "breaker_run b es b'" "bi_opened_at (cb_inner b) = Some t" "\<forall>e \<in> set es. event_time e - t < cb_cooldown b"
  shows "bi_opened_at (cb_inner b') = Some t \<and> (\<forall>e \<in> set es. (\<nexists>x. e = Allow x True) \<and> (\<nexists>x. e = Fault x True))"
  using assms
proof (induction rule: breaker_run.induct)
  case (run_snoc b es b1 e b2)
  then have IH: "bi_opened_at (cb_inner b1) = Some t \<and> (\<forall>e \<in> set es. (\<nexists>x. e = Allow x True) \<and> (\<nexists>x. e = Fault x True))"
    by simp
  have "event_time e - t < cb_cooldown b1" using run_snoc.prems(2) run_params[OF run_snoc.hyps(1)] by simp
  from open_step[OF run_snoc.hyps(2) _ this, of] IH show ?case by auto
qed simp

subsection \<open>Bursts\<close>

definition fault_burst :: "breaker_event list \<Rightarrow> bool" where
  "fault_burst es \<longleftrightarrow> (\<forall>e \<in> set es. \<exists>t tripped. e = Fault t tripped)"

text \<open>What a burst leaves when none of its faults tripped: at most one window started inside it.\<close>

definition quiet :: "circuit_breaker \<Rightarrow> nat \<Rightarrow> instant \<Rightarrow> circuit_breaker \<Rightarrow> bool" where
  "quiet b n t1 b' \<longleftrightarrow> bi_opened_at (cb_inner b') = None \<and> (bi_faults (cb_inner b') < cb_threshold b) \<and>
     (n \<le> unat (bi_faults (cb_inner b')) \<or>
      n < unat (cb_threshold b) + unat (bi_faults (cb_inner b')) \<and> t1 \<le> bi_window_start (cb_inner b'))"

lemma quiet_step:
  assumes "quiet b n t1 b1" "record_fault_at t b1 = (b2, False)" "t1 \<le> t" "t \<le> t1 + cb_window b" "cb_window b1 = cb_window b"
    and "cb_threshold b1 = cb_threshold b" "1 \<le> cb_threshold b"
  shows "quiet b (Suc n) t1 b2"
proof -
  let ?f = "bi_faults (cb_inner b1)"
  have q: "bi_opened_at (cb_inner b1) = None" "?f < cb_threshold b" using assms(1) by (simp_all add: quiet_def)
  have "unat ?f < unat (cb_threshold b)" "unat (cb_threshold b) < 2 ^ 32"
    using q(2) unsigned_less[of "cb_threshold b"] by (simp_all add: word_less_nat_alt)
  then have inc: "unat (?f + 1) = Suc (unat ?f)" by (simp add: unat_word_ariths(1))
  show ?thesis
  proof (cases "cb_window b < t - bi_window_start (cb_inner b1)")
    case True
    then have "bi_window_start (cb_inner b1) < t1" using assms(4) by linarith
    then have "n \<le> unat ?f" using assms(1) by (auto simp: quiet_def)
    moreover from True assms(2,5,6) q(1) have "bi_faults (cb_inner b2) = 1" "bi_window_start (cb_inner b2) = t"
      "bi_opened_at (cb_inner b2) = None" "bi_faults (cb_inner b2) < cb_threshold b"
      by (auto simp: record_fault_at_def saturating_duration_since_def Let_def split: if_splits)
    ultimately show ?thesis using assms(3) q(2) by (simp add: quiet_def word_less_nat_alt)
  next
    case False
    with assms(2,5,6) q(1) have "bi_faults (cb_inner b2) = ?f + 1"
      "bi_window_start (cb_inner b2) = bi_window_start (cb_inner b1)" "bi_opened_at (cb_inner b2) = None"
      "bi_faults (cb_inner b2) < cb_threshold b"
      by (auto simp: record_fault_at_def saturating_duration_since_def Let_def split: if_splits)
    with assms(1) inc show ?thesis by (auto simp: quiet_def)
  qed
qed

lemma quiet_run:
  assumes "breaker_run b es b'" "fault_burst es" "\<forall>e \<in> set es. t1 \<le> event_time e \<and> event_time e \<le> t1 + cb_window b"
    and "bi_opened_at (cb_inner b) = None" "bi_faults (cb_inner b) < cb_threshold b" "1 \<le> cb_threshold b"
    and "\<forall>t. Fault t True \<notin> set es"
  shows "quiet b (length es) t1 b'"
  using assms
proof (induction rule: breaker_run.induct)
  case (run_nil b)
  then show ?case by (simp add: quiet_def)
next
  case (run_snoc b es b1 e b2)
  then have IH: "quiet b (length es) t1 b1" by (simp add: fault_burst_def)
  from run_snoc.prems obtain t where e: "e = Fault t False"
    by (auto simp: fault_burst_def)
  with run_snoc.hyps(2) have f: "record_fault_at t b1 = (b2, False)" by (simp add: breaker_step_Fault)
  have "quiet b (Suc (length es)) t1 b2"
    by (rule quiet_step[OF IH f]) (use run_snoc.prems(2,5) e run_params[OF run_snoc.hyps(1)] in simp_all)
  then show ?case by simp
qed

section \<open>Properties\<close>

text \<open>
  C37: no false trips: when a fault trips the breaker, at least \<open>threshold\<close> faults (one when the
  threshold was given as 0) were recorded in the window of time that ends with it.
\<close>

theorem trip_sound:
  assumes "breaker_run (breaker_new t0 threshold window cooldown) (es @ [Fault t True]) b"
    and "clocked (es @ [Fault t True])" "\<forall>e \<in> set es. t0 \<le> event_time e" "t0 \<le> t"
  shows "\<exists>old recent. fault_times (es @ [Fault t True]) = old @ recent \<and> unat (max threshold 1) \<le> length recent \<and>
    (\<forall>x \<in> set recent. x \<le> t \<and> t \<le> x + window)"
proof -
  let ?b0 = "breaker_new t0 threshold window cooldown"
  from assms(1) obtain b1 where r: "breaker_run ?b0 es b1" "record_fault_at t b1 = (b, True)"
    by (auto simp: breaker_run_snoc_iff breaker_step_Fault)
  note T = trip_elim[OF r(2)]
  have P: "cb_threshold b = max threshold 1" "cb_window b = window"
    using run_params[OF assms(1)] by (simp_all add: breaker_new_def)
  have "counted b (fault_times (es @ [Fault t True]))"
    by (rule counted_run[OF assms(1)]) (use assms in \<open>auto simp: breaker_new_def\<close>)
  then obtain old recent where o: "fault_times (es @ [Fault t True]) = old @ recent"
    "unat (bi_faults (cb_inner b)) \<le> length recent" "\<forall>x \<in> set recent. bi_window_start (cb_inner b) \<le> x"
    unfolding counted_def by blast
  have le: "x \<le> t" if "x \<in> set recent" for x
  proof -
    have "x \<in> set (fault_times (es @ [Fault t True]))" using o(1) that by simp
    from fault_times_event[OF this] show ?thesis using assms(2) by (auto simp: clocked_snoc)
  qed
  have "t \<le> x + window" if "x \<in> set recent" for x
    using T(2) o(3) that P(2) by fastforce
  with le have "\<forall>x \<in> set recent. x \<le> t \<and> t \<le> x + window" by blast
  moreover have "unat (max threshold 1) \<le> length recent"
    using T(1) o(2) unfolding P(1) word_le_nat_alt by (rule order.trans)
  ultimately show ?thesis using o(1) by (intro exI[of _ old] exI[of _ recent] conjI)
qed

text \<open>A breaker with threshold three, a window of 10 and a cooldown of 30, after \<open>n\<close> faults.\<close>

definition three :: "u32 \<Rightarrow> instant option \<Rightarrow> circuit_breaker" where
  "three n at = \<lparr>cb_threshold = 3, cb_window = 10, cb_cooldown = 30,
     cb_inner = \<lparr>bi_window_start = 0, bi_faults = n, bi_opened_at = at\<rparr>\<rparr>"

lemma breaker_new_three: "breaker_new 0 3 10 30 = three 0 None" "max 3 (1 :: u32) = 3"
  by (simp_all add: breaker_new_def three_def max_def word_le_nat_alt)

lemma three_step: "record_fault_at t (three n at) = (three n' at', x) \<Longrightarrow> breaker_run b es (three n at) \<Longrightarrow>
    breaker_run b (es @ [Fault t x]) (three n' at')"
  by (rule run_snoc[OF _ step_fault])

lemma three_faults:
  "breaker_run (three 0 None) ([Fault 4 False, Fault 5 False] @ [Fault 6 True]) (three 3 (Some 6))"
  "breaker_run (three 0 None) ((([Fault 4 False, Fault 5 False] @ [Fault 6 True]) @ [Fault 6 False]) @ [Fault 6 False]) (three 5 (Some 6))"
proof -
  have "record_fault_at 4 (three 0 None) = (three 1 None, False)" "record_fault_at 5 (three 1 None) = (three 2 None, False)"
    and t: "record_fault_at 6 (three 2 None) = (three 3 (Some 6), True)"
      "record_fault_at 6 (three 3 (Some 6)) = (three 4 (Some 6), False)"
      "record_fault_at 6 (three 4 (Some 6)) = (three 5 (Some 6), False)"
    by code_simp+
  from three_step[OF this(2) three_step[OF this(1) run_nil]]
  have "breaker_run (three 0 None) [Fault 4 False, Fault 5 False] (three 2 None)" by simp
  from three_step[OF t(1) this] show A: "breaker_run (three 0 None) ([Fault 4 False, Fault 5 False] @ [Fault 6 True]) (three 3 (Some 6))" .
  show "breaker_run (three 0 None) ((([Fault 4 False, Fault 5 False] @ [Fault 6 True]) @ [Fault 6 False]) @ [Fault 6 False]) (three 5 (Some 6))"
    by (rule three_step[OF t(3) three_step[OF t(2) A]])
qed

theorem trip_sound_witness:
  "\<exists>old recent. [4, 5, 6] = old @ recent \<and> 3 \<le> length recent \<and> (\<forall>x \<in> set recent. x \<le> 6 \<and> 6 \<le> x + (10 :: nat))"
  using trip_sound[OF three_faults(1)[folded breaker_new_three(1)]] by (simp add: clocked_def breaker_new_three(2))

text \<open>
  C38: an open breaker skips the stage and reports no second trip until the cooldown is over; the
  first call after that is let through and closes it with an empty window.
\<close>

theorem open_until_cooldown:
  assumes "record_fault_at t b = (b1, True)" "breaker_run b1 es b2"
    and "\<forall>e \<in> set es. event_time e - t < cb_cooldown b" "t + cb_cooldown b \<le> t'"
  shows "(\<forall>e \<in> set es. (\<nexists>x. e = Allow x True) \<and> (\<nexists>x. e = Fault x True)) \<and>
    allow_at t' b2 = (b2\<lparr>cb_inner := \<lparr>bi_window_start = t', bi_faults = 0, bi_opened_at = None\<rparr>\<rparr>, True)"
proof -
  have c: "cb_cooldown b1 = cb_cooldown b"
    using step_params[OF step_fault[OF assms(1)]] by simp
  have "bi_opened_at (cb_inner b2) = Some t \<and> (\<forall>e \<in> set es. (\<nexists>x. e = Allow x True) \<and> (\<nexists>x. e = Fault x True))"
    by (rule open_run[OF assms(2) trip_elim(3)[OF assms(1)]]) (use assms(3) c in simp)
  moreover have "cb_cooldown b2 = cb_cooldown b" using run_params[OF assms(2)] c by simp
  ultimately show ?thesis using assms(4) by (simp add: allow_at_def saturating_duration_since_def Let_def)
qed

theorem open_until_cooldown_witness:
  "\<exists>b. allow_at 31 b = (b\<lparr>cb_inner := \<lparr>bi_window_start = 31, bi_faults = 0, bi_opened_at = None\<rparr>\<rparr>, True) \<and>
    bi_opened_at (cb_inner b) = Some 1"
proof -
  let ?b1 = "\<lparr>cb_threshold = 1, cb_window = 10, cb_cooldown = 30, cb_inner = \<lparr>bi_window_start = 0, bi_faults = 1, bi_opened_at = Some 1\<rparr>\<rparr>"
  have f: "record_fault_at 1 (breaker_new 0 1 10 30) = (?b1, True)"
    by (simp add: breaker_new_def record_fault_at_def saturating_duration_since_def Let_def)
  have "breaker_run ?b1 ([] @ [Allow 2 False]) ?b1"
    by (rule run_snoc[OF run_nil step_allow]) (simp add: allow_at_def saturating_duration_since_def Let_def)
  from open_until_cooldown[OF f this, of 31] show ?thesis
    by (intro exI[of _ ?b1]) (simp add: breaker_new_def)
qed

text \<open>
  A dense enough burst always trips a closed breaker: among \<open>2 * threshold - 1\<close> faults that lie
  within one window of time, one trips it.
\<close>

theorem burst_trips:
  assumes "breaker_run b es b'" "fault_burst es" "2 * unat (cb_threshold b) - 1 \<le> length es"
    and "\<forall>e \<in> set es. t1 \<le> event_time e \<and> event_time e \<le> t1 + cb_window b"
    and "bi_opened_at (cb_inner b) = None" "bi_faults (cb_inner b) < cb_threshold b"
  shows "\<exists>t. Fault t True \<in> set es"
proof (rule ccontr)
  assume n: "\<not> ?thesis"
  have th: "1 \<le> cb_threshold b" using assms(6) by (simp add: word_le_nat_alt word_less_nat_alt)
  from quiet_run[OF assms(1,2,4,5,6) th] n have "quiet b (length es) t1 b'" by blast
  then show False using assms(3) th by (auto simp: quiet_def word_less_nat_alt word_le_nat_alt)
qed

theorem burst_trips_witness:
  "\<exists>t. Fault t True \<in> set [Fault 4 False, Fault 5 False, Fault 6 True, Fault 6 False, Fault 6 False]"
proof -
  have "2 * unat (cb_threshold (three 0 None)) - 1 = 5" "bi_faults (cb_inner (three 0 None)) < cb_threshold (three 0 None)"
    by code_simp+
  with burst_trips[OF three_faults(2), of 4] show ?thesis
    by (simp add: fault_burst_def three_def)
qed

text \<open>
  The window tumbles, it does not roll: three faults within two seconds do not trip a breaker
  with threshold three and a window of ten seconds when a new window starts between them.
\<close>

theorem window_tumbles:
  "snd (record_fault_at 11 (fst (record_fault_at 10 (fst (record_fault_at 9 (breaker_new 0 3 10 30)))))) = False"
  by code_simp

end
