(* ===== verification/Wire.thy ===== *)
theory Wire
  imports Prelude
begin

text \<open>
  The protobuf wire cursor of \<^verbatim>\<open>crates/archiv-ingest/src/otlp.rs\<close>: \<^verbatim>\<open>WireCursor\<close> and its
  operations, the loop skeleton that every walker over a message window shares, and the meaning
  of a window as a list of fields.  Both the parser and the export re-encoder are instances of
  the one skeleton, as both use the one cursor of the source.
\<close>

section \<open>The cursor\<close>

datatype parse_error =
    Truncated nat
  | VarintOverflow nat
  | UnsupportedWire u8 nat
  | LengthOverrun nat

record cursor =
  cur_buf :: "u8 list"
  cur_pos :: nat
  cur_end :: nat

definition cursor_new :: "u8 list \<Rightarrow> brange \<Rightarrow> cursor" where
  "cursor_new buf window = \<lparr>cur_buf = buf, cur_pos = rstart window, cur_end = rend window\<rparr>"

definition cursor_done :: "cursor \<Rightarrow> bool" where
  "cursor_done c \<longleftrightarrow> cur_end c \<le> cur_pos c"

definition cursor_byte :: "cursor \<Rightarrow> (parse_error, u8 \<times> cursor) result" where
  "cursor_byte c =
     (if cur_end c \<le> cur_pos c then Err (Truncated (cur_pos c))
      else rbind (buf_index (cur_buf c) (cur_pos c)) (\<lambda>b. Ok (b, c\<lparr>cur_pos := cur_pos c + 1\<rparr>)))"

lemma cursor_byte_Ok: "cursor_byte c = Ok (b, c') \<longleftrightarrow>
    cur_pos c < cur_end c \<and> cur_pos c < length (cur_buf c) \<and> b = cur_buf c ! cur_pos c \<and>
    c' = c\<lparr>cur_pos := cur_pos c + 1\<rparr>"
  by (auto simp: cursor_byte_def result_simps)

text \<open>The \<^verbatim>\<open>loop\<close> of \<^verbatim>\<open>varint\<close>; \<open>start\<close> is the offset named in the error.\<close>

function varint_loop :: "nat \<Rightarrow> u64 \<Rightarrow> nat \<Rightarrow> cursor \<Rightarrow> (parse_error, u64 \<times> cursor) result" where
  "varint_loop start v shift c =
     rbind (cursor_byte c) (\<lambda>(b, c').
       if 64 \<le> shift then Err (VarintOverflow start)
       else let v' = v OR push_bit shift (ucast (b AND 0x7F))
            in if b AND 0x80 = 0 then Ok (v', c') else varint_loop start v' (shift + 7) c')"
  by pat_completeness auto
termination
  by (relation "measure (\<lambda>(start, v, shift, c). cur_end c - cur_pos c)") (auto simp: cursor_byte_Ok)

declare varint_loop.simps [simp del]

definition cursor_varint :: "cursor \<Rightarrow> (parse_error, u64 \<times> cursor) result" where
  "cursor_varint c = varint_loop (cur_pos c) 0 0 c"

text \<open>\<^verbatim>\<open>tag\<close>: the field number is truncated to 32 bits, as the cast does.\<close>

definition cursor_tag :: "cursor \<Rightarrow> (parse_error, (u32 \<times> u8) \<times> cursor) result" where
  "cursor_tag c =
     rbind (cursor_varint c) (\<lambda>(t, c'). Ok ((ucast (drop_bit 3 t), ucast (t AND 0x7)), c'))"

text \<open>\<^verbatim>\<open>len_range\<close>; \<^verbatim>\<open>usize::try_from\<close> of a \<^verbatim>\<open>u64\<close> does not fail on a 64-bit target.\<close>

definition cursor_len_range :: "cursor \<Rightarrow> (parse_error, brange \<times> cursor) result" where
  "cursor_len_range c =
     (let at = cur_pos c in
      rbind (cursor_varint c) (\<lambda>(len, c1).
        let start = cur_pos c1 in
        case checked_add start (unat len) of
          None \<Rightarrow> Err (LengthOverrun at)
        | Some e \<Rightarrow> if cur_end c1 < e then Err (LengthOverrun at)
            else Ok (rng start e, c1\<lparr>cur_pos := e\<rparr>)))"

definition cursor_advance :: "cursor \<Rightarrow> nat \<Rightarrow> (parse_error, cursor) result" where
  "cursor_advance c n =
     (case checked_add (cur_pos c) n of
        None \<Rightarrow> Err (Truncated (cur_pos c))
      | Some e \<Rightarrow> if cur_end c < e then Err (Truncated (cur_pos c)) else Ok (c\<lparr>cur_pos := e\<rparr>))"

definition cursor_skip :: "cursor \<Rightarrow> u8 \<Rightarrow> (parse_error, cursor) result" where
  "cursor_skip c wire =
     (if wire = 0 then rbind (cursor_varint c) (\<lambda>(_, c'). Ok c')
      else if wire = 1 then cursor_advance c 8
      else if wire = 2 then rbind (cursor_len_range c) (\<lambda>(_, c'). Ok c')
      else if wire = 5 then cursor_advance c 4
      else Err (UnsupportedWire wire (cur_pos c)))"

section \<open>Cursor operations only move forward inside their window\<close>

text \<open>
  A cursor on a window of its buffer; no Rust allocation reaches \<open>2 ^ 64\<close> bytes (it is at most
  \<^verbatim>\<open>isize::MAX\<close>).
\<close>

definition cursor_ok :: "cursor \<Rightarrow> bool" where
  "cursor_ok c \<longleftrightarrow> cur_pos c \<le> cur_end c \<and> cur_end c \<le> length (cur_buf c) \<and> length (cur_buf c) < 2 ^ 64"

definition moved :: "cursor \<Rightarrow> cursor \<Rightarrow> bool" where
  "moved c c' \<longleftrightarrow> cur_buf c' = cur_buf c \<and> cur_end c' = cur_end c \<and> cur_pos c \<le> cur_pos c' \<and>
     (cursor_ok c \<longrightarrow> cursor_ok c')"

lemma moved_refl [simp]: "moved c c"
  by (simp add: moved_def)

lemma moved_trans: "moved a b \<Longrightarrow> moved b c \<Longrightarrow> moved a c"
  by (auto simp: moved_def)

lemma varint_loop_moved: "varint_loop start v shift c = Ok (x, c') \<Longrightarrow> moved c c' \<and> cur_pos c < cur_pos c' \<and> cur_pos c < cur_end c"
proof (induction start v shift c arbitrary: x c' rule: varint_loop.induct)
  case (1 start v shift c)
  from "1.prems" obtain b c1 where b: "cursor_byte c = Ok (b, c1)" and sh: "shift < 64"
    and r: "(if b AND 0x80 = 0 then Ok (v OR push_bit shift (ucast (b AND 0x7F)), c1)
        else varint_loop start (v OR push_bit shift (ucast (b AND 0x7F))) (shift + 7) c1) = Ok (x, c')"
    by (auto simp: varint_loop.simps[of start v shift c] result_simps Let_def split: if_splits)
  from b have m: "moved c c1" "cur_pos c < cur_pos c1" "cur_pos c < cur_end c"
    by (auto simp: cursor_byte_Ok moved_def cursor_ok_def)
  show ?case
  proof (cases "b AND 0x80 = 0")
    case True
    with r m show ?thesis by simp
  next
    case False
    with r b sh have "moved c1 c' \<and> cur_pos c1 < cur_pos c'"
      using "1.IH"[OF b refl] by (auto simp: not_le)
    with m show ?thesis by (auto intro: moved_trans)
  qed
qed

lemma cursor_varint_moved:
  "cursor_varint c = Ok (x, c') \<Longrightarrow> moved c c' \<and> cur_pos c < cur_pos c' \<and> cur_pos c < cur_end c"
  unfolding cursor_varint_def by (rule varint_loop_moved)

lemma cursor_tag_moved:
  "cursor_tag c = Ok (t, c') \<Longrightarrow> moved c c' \<and> cur_pos c < cur_pos c' \<and> cur_pos c < cur_end c"
  by (auto simp: cursor_tag_def result_simps dest: cursor_varint_moved)

lemma cursor_len_range_moved:
  assumes "cursor_len_range c = Ok (r, c')"
  shows "moved c c' \<and> cur_pos c < rstart r \<and> rstart r \<le> rend r \<and> rend r = cur_pos c' \<and> rend r \<le> cur_end c"
proof -
  from assms obtain len c1 where v: "cursor_varint c = Ok (len, c1)"
    and e: "cur_pos c1 + unat len \<le> cur_end c1" "r = rng (cur_pos c1) (cur_pos c1 + unat len)"
      "c' = c1\<lparr>cur_pos := cur_pos c1 + unat len\<rparr>"
    by (auto simp: cursor_len_range_def Let_def result_simps checked_add_Some split: option.splits if_splits)
  from cursor_varint_moved[OF v] e show ?thesis by (auto simp: moved_def cursor_ok_def)
qed

lemma cursor_advance_moved: "cursor_advance c n = Ok c' \<Longrightarrow> moved c c'"
  by (auto simp: cursor_advance_def checked_add_Some moved_def cursor_ok_def split: option.splits if_splits)

lemma cursor_skip_moved: "cursor_skip c w = Ok c' \<Longrightarrow> moved c c'"
  by (auto simp: cursor_skip_def result_simps split: if_splits
      dest: cursor_advance_moved cursor_len_range_moved cursor_varint_moved)

lemmas cursor_moved = cursor_varint_moved cursor_tag_moved cursor_len_range_moved cursor_skip_moved

text \<open>No operation indexes outside the buffer.\<close>

lemma varint_loop_no_panic: "cursor_ok c \<Longrightarrow> varint_loop start v shift c \<noteq> Panic"
proof (induction start v shift c rule: varint_loop.induct)
  case (1 start v shift c)
  have np: "cursor_byte c \<noteq> Panic"
    using "1.prems" by (auto simp: cursor_byte_def cursor_ok_def result_simps)
  have ok: "cursor_byte c = Ok (b, c') \<Longrightarrow> cursor_ok c'" for b c'
    using "1.prems" by (auto simp: cursor_byte_Ok cursor_ok_def)
  show ?case
    using np ok "1.IH" by (auto simp: varint_loop.simps[of start v shift c] result_simps Let_def)
qed

lemma cursor_no_panic:
  assumes "cursor_ok c"
  shows "cursor_varint c \<noteq> Panic" "cursor_tag c \<noteq> Panic" "cursor_len_range c \<noteq> Panic" "cursor_skip c w \<noteq> Panic"
  using varint_loop_no_panic[OF assms]
  by (auto simp: cursor_varint_def cursor_tag_def cursor_len_range_def cursor_skip_def cursor_advance_def
      Let_def result_simps split: option.splits if_splits)

section \<open>The walk over a window\<close>

text \<open>
  Every walker of the source has the shape
  \<^verbatim>\<open>while !cur.done() { let tag_start = cur.pos(); let (field, wire) = cur.tag()?; match (field, wire) {..} }\<close>,
  where an arm of the \<^verbatim>\<open>match\<close> makes exactly one cursor read: \<^verbatim>\<open>len_range\<close>, \<^verbatim>\<open>varint\<close> or \<^verbatim>\<open>skip(wire)\<close>.
  \<open>walk\<close> is that loop; the arms are its argument.  A \<open>TakeLen\<close> action receives \<open>tag_start\<close>, the
  range read, \<^verbatim>\<open>cur.pos()\<close> after the read and the walker's local variables.  \<open>conv\<close> is the \<^verbatim>\<open>From\<close>
  conversion that \<^verbatim>\<open>?\<close> applies to a cursor error.
\<close>

datatype ('e, 's) arm =
    TakeLen "nat \<Rightarrow> brange \<Rightarrow> nat \<Rightarrow> 's \<Rightarrow> ('e, 's) result"
  | TakeVarint "u64 \<Rightarrow> 's \<Rightarrow> ('e, 's) result"
  | SkipField

definition walk_step ::
  "(parse_error \<Rightarrow> 'e) \<Rightarrow> (u32 \<Rightarrow> u8 \<Rightarrow> ('e, 's) arm) \<Rightarrow> cursor \<Rightarrow> 's \<Rightarrow> ('e, cursor \<times> 's) result" where
  "walk_step conv arms c s =
     rbind (map_err conv (cursor_tag c)) (\<lambda>((field, wire), c1).
       case arms field wire of
         TakeLen k \<Rightarrow>
           rbind (map_err conv (cursor_len_range c1)) (\<lambda>(r, c2).
           rbind (k (cur_pos c) r (cur_pos c2) s) (\<lambda>s'. Ok (c2, s')))
       | TakeVarint k \<Rightarrow>
           rbind (map_err conv (cursor_varint c1)) (\<lambda>(v, c2).
           rbind (k v s) (\<lambda>s'. Ok (c2, s')))
       | SkipField \<Rightarrow> rbind (map_err conv (cursor_skip c1 wire)) (\<lambda>c2. Ok (c2, s)))"

lemma walk_step_moved:
  assumes "walk_step conv arms c s = Ok (c', s')"
  shows "moved c c' \<and> cur_pos c < cur_pos c' \<and> cur_pos c < cur_end c"
proof -
  from assms obtain f w c1 where t: "cursor_tag c = Ok ((f, w), c1)"
    unfolding walk_step_def by (auto simp: result_simps)
  with assms have "moved c1 c'"
    by (cases "arms f w") (auto simp: walk_step_def result_simps
        dest: cursor_len_range_moved cursor_varint_moved cursor_skip_moved)
  with cursor_tag_moved[OF t] show ?thesis by (auto simp: moved_def)
qed

function walk ::
  "(parse_error \<Rightarrow> 'e) \<Rightarrow> (u32 \<Rightarrow> u8 \<Rightarrow> ('e, 's) arm) \<Rightarrow> cursor \<Rightarrow> 's \<Rightarrow> ('e, 's) result" where
  "walk conv arms c s =
     (if cursor_done c then Ok s
      else rbind (walk_step conv arms c s) (\<lambda>(c', s'). walk conv arms c' s'))"
  by pat_completeness auto
termination
  by (relation "measure (\<lambda>(conv, arms, c, s). cur_end c - cur_pos c)")
    (auto dest!: walk_step_moved simp: moved_def)

declare walk.simps [simp del]

lemmas wire_eval = walk.simps walk_step_def cursor_new_def cursor_done_def cursor_tag_def cursor_varint_def
  varint_loop.simps cursor_byte_def cursor_len_range_def cursor_advance_def cursor_skip_def buf_index_def
  checked_add_def Let_def

text \<open>
  \<open>post r P\<close>: no panic, and the value returned, if any, satisfies \<open>P\<close>.  The rule for \<open>walk\<close> takes an
  invariant over the cursor position and the walker's state.
\<close>

fun post :: "('e, 'a) result \<Rightarrow> ('a \<Rightarrow> bool) \<Rightarrow> bool" where
  "post (Ok x) P = P x"
| "post (Err e) P = True"
| "post Panic P = False"

lemma post_rbind: "post (rbind r f) P \<longleftrightarrow> post r (\<lambda>x. post (f x) P)"
  by (cases r) auto

lemma post_map_err [simp]: "post (map_err g r) P \<longleftrightarrow> post r P"
  by (cases r) auto

lemma post_mono: "post r P \<Longrightarrow> (\<And>x. r = Ok x \<Longrightarrow> P x \<Longrightarrow> Q x) \<Longrightarrow> post r Q"
  by (cases r) auto

lemma postI: "r \<noteq> Panic \<Longrightarrow> (\<And>x. r = Ok x \<Longrightarrow> P x) \<Longrightarrow> post r P"
  by (cases r) auto

lemma post_iff: "post r P \<longleftrightarrow> r \<noteq> Panic \<and> (\<forall>x. r = Ok x \<longrightarrow> P x)"
  by (cases r) auto

lemma post_cursor_tag:
  assumes "cursor_ok c"
    and "\<And>t c1. cursor_tag c = Ok (t, c1) \<Longrightarrow> moved c c1 \<Longrightarrow> cursor_ok c1 \<Longrightarrow> cur_pos c < cur_pos c1 \<Longrightarrow> post (f (t, c1)) P"
  shows "post (rbind (cursor_tag c) f) P"
proof -
  have "post (f p) P" if p: "cursor_tag c = Ok p" for p
  proof -
    obtain t c1 where "p = (t, c1)" by (cases p)
    with p assms(1) cursor_tag_moved[of c t c1] show ?thesis
      by (auto simp: moved_def intro!: assms(2))
  qed
  with cursor_no_panic(2)[OF assms(1)] show ?thesis
    by (cases "cursor_tag c") auto
qed

lemma post_cursor_len_range:
  assumes "cursor_ok c"
    and "\<And>r c1. cursor_len_range c = Ok (r, c1) \<Longrightarrow> in_window (cur_pos c) (cur_end c) r \<Longrightarrow> post (f (r, c1)) P"
  shows "post (rbind (cursor_len_range c) f) P"
proof -
  have "post (f p) P" if p: "cursor_len_range c = Ok p" for p
  proof -
    obtain r c1 where "p = (r, c1)" by (cases p)
    with p cursor_len_range_moved[of c r c1] show ?thesis
      by (auto simp: in_window_def intro!: assms(2))
  qed
  with cursor_no_panic(3)[OF assms(1)] show ?thesis
    by (cases "cursor_len_range c") auto
qed

lemma post_cursor_skip:
  assumes "cursor_ok c"
    and "\<And>c1. cursor_skip c w = Ok c1 \<Longrightarrow> moved c c1 \<Longrightarrow> cursor_ok c1 \<Longrightarrow> post (f c1) P"
  shows "post (rbind (cursor_skip c w) f) P"
proof -
  have "post (f c1) P" if p: "cursor_skip c w = Ok c1" for c1
    using p assms(1) cursor_skip_moved[OF p] by (auto simp: moved_def intro!: assms(2))
  with cursor_no_panic(4)[OF assms(1)] show ?thesis
    by (cases "cursor_skip c w") auto
qed

text \<open>What an action may rely on: the range it receives lies in the window, after its tag.\<close>

definition arms_keep ::
  "(u32 \<Rightarrow> u8 \<Rightarrow> ('e, 's) arm) \<Rightarrow> nat \<Rightarrow> nat \<Rightarrow> (nat \<Rightarrow> 's \<Rightarrow> bool) \<Rightarrow> bool" where
  "arms_keep arms a b I \<longleftrightarrow>
     (\<forall>f w k ts r s. arms f w = TakeLen k \<longrightarrow> I ts s \<longrightarrow> a \<le> ts \<longrightarrow> in_window a b r \<longrightarrow> ts < rstart r \<longrightarrow>
        post (k ts r (rend r) s) (I (rend r))) \<and>
     (\<forall>f w k v p q s. arms f w = TakeVarint k \<longrightarrow> I p s \<longrightarrow> p < q \<longrightarrow> q \<le> b \<longrightarrow> post (k v s) (I q)) \<and>
     (\<forall>p q s. I p s \<longrightarrow> p < q \<longrightarrow> q \<le> b \<longrightarrow> I q s)"

lemma arms_keepI:
  assumes "\<And>f w k ts r s. arms f w = TakeLen k \<Longrightarrow> I ts s \<Longrightarrow> a \<le> ts \<Longrightarrow> in_window a b r \<Longrightarrow>
      ts < rstart r \<Longrightarrow> post (k ts r (rend r) s) (I (rend r))"
    and "\<And>f w k v p q s. arms f w = TakeVarint k \<Longrightarrow> I p s \<Longrightarrow> p < q \<Longrightarrow> q \<le> b \<Longrightarrow> post (k v s) (I q)"
    and "\<And>p q s. I p s \<Longrightarrow> p < q \<Longrightarrow> q \<le> b \<Longrightarrow> I q s"
  shows "arms_keep arms a b I"
  using assms unfolding arms_keep_def by blast

lemma arms_keepD:
  "arms_keep arms a b I \<Longrightarrow> arms f w = TakeLen k \<Longrightarrow> I ts s \<Longrightarrow> a \<le> ts \<Longrightarrow> in_window a b r \<Longrightarrow>
    ts < rstart r \<Longrightarrow> post (k ts r (rend r) s) (I (rend r))"
  "arms_keep arms a b I \<Longrightarrow> arms f w = TakeVarint k' \<Longrightarrow> I p s \<Longrightarrow> p < q \<Longrightarrow> q \<le> b \<Longrightarrow> post (k' v s) (I q)"
  "arms_keep arms a b I \<Longrightarrow> I p s \<Longrightarrow> p < q \<Longrightarrow> q \<le> b \<Longrightarrow> I q s"
  unfolding arms_keep_def by blast+

lemma walk_step_post:
  assumes ok: "cursor_ok c" and a: "a \<le> cur_pos c" and I: "I (cur_pos c) s"
    and keep: "arms_keep arms a (cur_end c) I"
  shows "post (walk_step conv arms c s) (\<lambda>(c', s'). I (cur_pos c') s')"
proof (rule postI, safe)
  have np: "walk_step conv arms c s \<noteq> Panic \<and>
      (walk_step conv arms c s = Ok (c', s') \<longrightarrow> I (cur_pos c') s')" for c' s'
  proof (cases "cursor_tag c")
    case (Ok t)
    obtain f w c1 where T: "cursor_tag c = result.Ok ((f, w), c1)" using Ok by (cases t) auto
    from cursor_tag_moved[OF T] ok
    have m: "cur_pos c < cur_pos c1" "cursor_ok c1" "cur_end c1 = cur_end c" by (auto simp: moved_def)
    note np = cursor_no_panic[OF m(2)]
    show ?thesis
    proof (cases "arms f w")
      case (TakeLen k)
      have "post (k (cur_pos c) r (cur_pos c2) s) (I (cur_pos c2))"
        if "cursor_len_range c1 = result.Ok (r, c2)" for r c2
        using cursor_len_range_moved[OF that] arms_keepD(1)[OF keep TakeLen I a, of r] m a
        by (simp add: in_window_def)
      with np show ?thesis
        by (auto simp: walk_step_def T TakeLen result_simps post_iff split: prod.splits)
    next
      case (TakeVarint k)
      have "post (k v s) (I (cur_pos c2))" if "cursor_varint c1 = result.Ok (v, c2)" for v c2
        using cursor_varint_moved[OF that] arms_keepD(2)[OF keep TakeVarint I, of "cur_pos c2"] m
        by (auto simp: moved_def cursor_ok_def)
      with np show ?thesis
        by (auto simp: walk_step_def T TakeVarint result_simps post_iff split: prod.splits)
    next
      case SkipField
      have "I (cur_pos c2) s" if "cursor_skip c1 w = result.Ok c2" for c2
        using cursor_skip_moved[OF that] arms_keepD(3)[OF keep I, of "cur_pos c2"] m
        by (auto simp: moved_def cursor_ok_def)
      with np show ?thesis
        by (auto simp: walk_step_def T SkipField result_simps)
    qed
  qed (use cursor_no_panic[OF ok] in \<open>auto simp: walk_step_def\<close>)
  show "walk_step conv arms c s = Panic \<Longrightarrow> False" using np by simp
  show "walk_step conv arms c s = Ok (c', s') \<Longrightarrow> I (cur_pos c') s'" for c' s' using np by simp
qed

lemma walk_post:
  assumes "cursor_ok c" "a \<le> cur_pos c" "I (cur_pos c) s" "arms_keep arms a (cur_end c) I"
  shows "post (walk conv arms c s) (I (cur_end c))"
  using assms
proof (induction conv arms c s rule: walk.induct)
  case (1 conv arms c s)
  show ?case
  proof (cases "cursor_done c")
    case True
    with "1.prems" show ?thesis
      by (auto simp: walk.simps[of conv arms c s] cursor_done_def cursor_ok_def)
  next
    case False
    have "post (walk_step conv arms c s) (\<lambda>(c', s'). post (walk conv arms c' s') (I (cur_end c)))"
      using walk_step_post[OF "1.prems"]
    proof (rule post_mono, clarify)
      fix c' s' assume st: "walk_step conv arms c s = Ok (c', s')" and I': "I (cur_pos c') s'"
      from walk_step_moved[OF st] "1.prems"
      have "cursor_ok c'" "a \<le> cur_pos c'" "cur_end c' = cur_end c" by (auto simp: moved_def)
      with "1.IH"[OF False st refl] I' "1.prems"(4)
      show "post (walk conv arms c' s') (I (cur_end c))" by simp
    qed
    with False show ?thesis
      by (simp add: walk.simps[of conv arms c s] post_rbind case_prod_unfold)
  qed
qed

end
