(* ===== verification/WireFields.thy ===== *)
theory WireFields
  imports Wire
begin

text \<open>
  The meaning of a message window, independent of offsets: \<open>wire_fields\<close> reads a byte list as the list
  of its protobuf fields, each with the bytes it occupies.  \<open>walk_fields\<close> reduces every walker of
  the program, which works on absolute offsets of the request buffer, to a fold over that list.
\<close>

section \<open>Reading fields off a byte list\<close>

text \<open>Each reader returns its value and the number of bytes it consumed.\<close>

fun lvarint_loop :: "u64 \<Rightarrow> nat \<Rightarrow> u8 list \<Rightarrow> (u64 \<times> nat) option" where
  "lvarint_loop v shift [] = None"
| "lvarint_loop v shift (b # bs) =
     (if 64 \<le> shift then None
      else let v' = v OR push_bit shift (ucast (b AND 0x7F))
           in if b AND 0x80 = 0 then Some (v', 1)
              else map_option (apsnd Suc) (lvarint_loop v' (shift + 7) bs))"

definition lvarint :: "u8 list \<Rightarrow> (u64 \<times> nat) option" where
  "lvarint bs = lvarint_loop 0 0 bs"

definition ltag :: "u8 list \<Rightarrow> ((u32 \<times> u8) \<times> nat) option" where
  "ltag bs = map_option (\<lambda>(t, n). ((ucast (drop_bit 3 t), ucast (t AND 0x7)), n)) (lvarint bs)"

text \<open>A length-delimited payload: its offset and its end.\<close>

definition llen :: "u8 list \<Rightarrow> (nat \<times> nat) option" where
  "llen bs = (case lvarint bs of
      None \<Rightarrow> None
    | Some (len, n) \<Rightarrow> if n + unat len \<le> length bs then Some (n, n + unat len) else None)"

definition lskip :: "u8 list \<Rightarrow> u8 \<Rightarrow> nat option" where
  "lskip bs wire =
     (if wire = 0 then map_option snd (lvarint bs)
      else if wire = 1 then if 8 \<le> length bs then Some 8 else None
      else if wire = 2 then map_option snd (llen bs)
      else if wire = 5 then if 4 \<le> length bs then Some 4 else None
      else None)"

text \<open>
  A field: number, wire type, value (of a varint field), the bytes it occupies and the offset of
  its payload in them (of a length-delimited field).
\<close>

record field =
  fd_num :: u32
  fd_wire :: u8
  fd_val :: u64
  fd_off :: nat
  fd_raw :: "u8 list"

definition payload :: "field \<Rightarrow> u8 list" where
  "payload fd = drop (fd_off fd) (fd_raw fd)"

definition lfield :: "u8 list \<Rightarrow> field option" where
  "lfield bs =
     (case ltag bs of
        None \<Rightarrow> None
      | Some ((f, w), n) \<Rightarrow>
          (case lskip (drop n bs) w of
             None \<Rightarrow> None
           | Some m \<Rightarrow> Some \<lparr>fd_num = f, fd_wire = w,
               fd_val = (if w = 0 then fst (the (lvarint (drop n bs))) else 0),
               fd_off = (if w = 2 then n + fst (the (llen (drop n bs))) else n + m),
               fd_raw = take (n + m) bs\<rparr>))"

subsection \<open>What the readers consume\<close>

lemma lvarint_loop_consumed: "lvarint_loop v sh bs = Some (x, n) \<Longrightarrow> 0 < n \<and> n \<le> length bs"
  by (induction v sh bs arbitrary: x n rule: lvarint_loop.induct)
    (fastforce simp: Let_def split: if_splits)+

lemma lvarint_consumed: "lvarint bs = Some (x, n) \<Longrightarrow> 0 < n \<and> n \<le> length bs"
  unfolding lvarint_def by (rule lvarint_loop_consumed)

lemma ltag_consumed: "ltag bs = Some (t, n) \<Longrightarrow> 0 < n \<and> n \<le> length bs"
  by (auto simp: ltag_def dest: lvarint_consumed)

lemma llen_consumed: "llen bs = Some (a, b) \<Longrightarrow> 0 < a \<and> a \<le> b \<and> b \<le> length bs"
  by (auto simp: llen_def split: option.splits if_splits dest: lvarint_consumed)

lemma lskip_consumed: "lskip bs w = Some m \<Longrightarrow> m \<le> length bs"
  by (auto simp: lskip_def split: if_splits dest: lvarint_consumed llen_consumed)

lemma lfield_raw:
  assumes "lfield bs = Some fd"
  shows "fd_raw fd \<noteq> []" "bs = fd_raw fd @ drop (length (fd_raw fd)) bs" "fd_off fd \<le> length (fd_raw fd)"
    "fd_wire fd \<noteq> 2 \<Longrightarrow> fd_off fd = length (fd_raw fd)"
proof -
  from assms obtain f w n m where t: "ltag bs = Some ((f, w), n)" and s: "lskip (drop n bs) w = Some m"
    and fd: "fd_raw fd = take (n + m) bs" "fd_wire fd = w"
      "fd_off fd = (if w = 2 then n + fst (the (llen (drop n bs))) else n + m)"
    by (auto simp: lfield_def split: option.splits)
  from ltag_consumed[OF t] lskip_consumed[OF s] have c: "0 < n" "n + m \<le> length bs" by auto
  from c fd(1) show "fd_raw fd \<noteq> []" by auto
  from c fd(1) show "bs = fd_raw fd @ drop (length (fd_raw fd)) bs" by simp
  show "fd_wire fd \<noteq> 2 \<Longrightarrow> fd_off fd = length (fd_raw fd)" using c fd by simp
  show "fd_off fd \<le> length (fd_raw fd)"
    using c fd s llen_consumed[of "drop n bs"] by (fastforce simp: lskip_def)
qed

function wire_fields :: "u8 list \<Rightarrow> field list option" where
  "wire_fields bs =
     (if bs = [] then Some []
      else case lfield bs of
          None \<Rightarrow> None
        | Some fd \<Rightarrow> map_option ((#) fd) (wire_fields (drop (length (fd_raw fd)) bs)))"
  by pat_completeness auto
termination
  by (relation "measure length") (auto dest: lfield_raw(1))

declare wire_fields.simps [simp del]

lemma fields_Nil [simp]: "wire_fields [] = Some []"
  by (simp add: wire_fields.simps)

lemma fields_raw: "wire_fields bs = Some fds \<Longrightarrow> concat (map fd_raw fds) = bs"
proof (induction bs arbitrary: fds rule: wire_fields.induct)
  case (1 bs)
  show ?case
  proof (cases "bs = []")
    case False
    with "1.prems" obtain fd fds' where "lfield bs = Some fd" "fds = fd # fds'"
      "wire_fields (drop (length (fd_raw fd)) bs) = Some fds'"
      by (auto simp: wire_fields.simps[of bs] split: option.splits)
    with "1.IH"[OF False] lfield_raw(2)[of bs fd] show ?thesis by simp
  qed (use "1.prems" in simp)
qed

subsection \<open>A reader that succeeds ignores what follows\<close>

lemma lvarint_loop_append:
  "lvarint_loop v sh bs = Some (x, n) \<Longrightarrow> lvarint_loop v sh (bs @ cs) = Some (x, n)"
  by (induction v sh bs arbitrary: x n rule: lvarint_loop.induct)
    (fastforce simp: Let_def split: if_splits)+

lemma lvarint_append: "lvarint bs = Some (x, n) \<Longrightarrow> lvarint (bs @ cs) = Some (x, n)"
  unfolding lvarint_def by (rule lvarint_loop_append)

lemma llen_append: "llen bs = Some r \<Longrightarrow> llen (bs @ cs) = Some r"
  by (auto simp: llen_def lvarint_append split: option.splits if_splits)

lemma lskip_append: "lskip bs w = Some m \<Longrightarrow> lskip (bs @ cs) w = Some m"
  by (auto simp: lskip_def split: if_splits dest: lvarint_append llen_append)

lemma lfield_append:
  assumes "lfield bs = Some fd"
  shows "lfield (bs @ cs) = Some fd"
proof -
  from assms obtain f w n m where t: "ltag bs = Some ((f, w), n)" and s: "lskip (drop n bs) w = Some m"
    and fd: "fd = \<lparr>fd_num = f, fd_wire = w,
               fd_val = (if w = 0 then fst (the (lvarint (drop n bs))) else 0),
               fd_off = (if w = 2 then n + fst (the (llen (drop n bs))) else n + m),
               fd_raw = take (n + m) bs\<rparr>"
    by (auto simp: lfield_def split: option.splits)
  from ltag_consumed[OF t] lskip_consumed[OF s] have c: "n \<le> length bs" "n + m \<le> length bs" by auto
  have "ltag (bs @ cs) = Some ((f, w), n)"
    using t by (auto simp: ltag_def dest: lvarint_append)
  moreover have "lskip (drop n (bs @ cs)) w = Some m"
    using lskip_append[OF s, of cs] c(1) by simp
  moreover have "w = 0 \<Longrightarrow> lvarint (drop n (bs @ cs)) = lvarint (drop n bs)"
    using s c(1) by (auto simp: lskip_def dest: lvarint_append)
  moreover have "w = 2 \<Longrightarrow> llen (drop n (bs @ cs)) = llen (drop n bs)"
    using s c(1) by (auto simp: lskip_def dest: llen_append)
  ultimately show ?thesis using c(2) by (simp add: lfield_def fd)
qed

lemma fields_append:
  "wire_fields bs = Some fds \<Longrightarrow> wire_fields cs = Some gds \<Longrightarrow> wire_fields (bs @ cs) = Some (fds @ gds)"
proof (induction bs arbitrary: fds rule: wire_fields.induct)
  case (1 bs)
  show ?case
  proof (cases "bs = []")
    case False
    with "1.prems"(1) obtain fd fds' where l: "lfield bs = Some fd" "fds = fd # fds'"
      "wire_fields (drop (length (fd_raw fd)) bs) = Some fds'"
      by (auto simp: wire_fields.simps[of bs] split: option.splits)
    have "length (fd_raw fd) \<le> length bs"
      using lfield_raw(2)[OF l(1)] by (metis length_append le_add1)
    with "1.IH"[OF False l(1) l(3) "1.prems"(2)] lfield_append[OF l(1), of cs] False l(2)
    show ?thesis by (simp add: wire_fields.simps[of "bs @ cs"])
  qed (use "1.prems" in simp)
qed

lemma fields_single: "lfield bs = Some fd \<Longrightarrow> fd_raw fd = bs \<Longrightarrow> wire_fields bs = Some [fd]"
  by (subst wire_fields.simps) (auto dest: lfield_raw(1))

section \<open>Cursor operations read the bytes that remain\<close>

definition rest :: "cursor \<Rightarrow> u8 list" where
  "rest c = bslice (cur_buf c) (cur_pos c) (cur_end c)"

definition ahead :: "cursor \<Rightarrow> nat \<Rightarrow> cursor" where
  "ahead c n = c\<lparr>cur_pos := cur_pos c + n\<rparr>"

lemma ahead_simps [simp]:
  "cur_buf (ahead c n) = cur_buf c" "cur_end (ahead c n) = cur_end c" "cur_pos (ahead c n) = cur_pos c + n"
  "ahead (ahead c n) m = ahead c (n + m)"
  by (simp_all add: ahead_def)

lemma length_rest: "cursor_ok c \<Longrightarrow> length (rest c) = cur_end c - cur_pos c"
  by (simp add: rest_def length_bslice cursor_ok_def)

lemma rest_ahead: "rest (ahead c n) = drop n (rest c)"
  by (simp add: rest_def bslice_def drop_take add.commute)

lemma cursor_ok_ahead: "cursor_ok c \<Longrightarrow> n \<le> length (rest c) \<Longrightarrow> cursor_ok (ahead c n)"
  by (simp add: length_rest) (auto simp: cursor_ok_def)

lemma cursor_byte_rest:
  assumes "cursor_ok c"
  shows "cursor_byte c = (case rest c of [] \<Rightarrow> Err (Truncated (cur_pos c)) | b # _ \<Rightarrow> Ok (b, ahead c 1))"
proof (cases "cur_pos c < cur_end c")
  case True
  with assms have "rest c = cur_buf c ! cur_pos c # rest (ahead c 1)"
    by (simp add: rest_def bslice_Cons cursor_ok_def)
  with True assms show ?thesis
    by (simp add: cursor_byte_def buf_index_def cursor_ok_def ahead_def)
qed (simp add: cursor_byte_def rest_def)

text \<open>
  \<open>reads op lop c\<close>: the cursor operation succeeds exactly when the list reader does on the bytes
  that remain, with the same value and the cursor moved past what the reader consumed.
\<close>

lemma varint_loop_rest: "cursor_ok c \<Longrightarrow> varint_loop st v sh c = Ok (x, c') \<longleftrightarrow>
    (\<exists>n. lvarint_loop v sh (rest c) = Some (x, n) \<and> c' = ahead c n)"
proof (induction st v sh c rule: varint_loop.induct)
  case (1 st v sh c)
  show ?case
  proof (cases "rest c")
    case Nil
    with "1.prems" show ?thesis
      by (simp add: varint_loop.simps[of st v sh c] cursor_byte_rest)
  next
    case (Cons b bs)
    then have r: "rest (ahead c 1) = bs" and ok: "cursor_ok (ahead c 1)"
      using "1.prems" by (simp_all add: rest_ahead cursor_ok_ahead)
    have B: "cursor_byte c = Ok (b, ahead c 1)"
      using "1.prems" Cons by (simp add: cursor_byte_rest)
    show ?thesis
    proof (cases "64 \<le> sh \<or> b AND 0x80 = 0")
      case True
      then show ?thesis by (auto simp: varint_loop.simps[of st v sh c] B Cons Let_def)
    next
      case False
      define v' where "v' = v OR push_bit sh (ucast (b AND 0x7F))"
      from False have IH: "varint_loop st v' (sh + 7) (ahead c 1) = Ok (x, c') \<longleftrightarrow>
          (\<exists>n. lvarint_loop v' (sh + 7) bs = Some (x, n) \<and> c' = ahead (ahead c 1) n)"
        using "1.IH"[OF B refl _ v'_def _ ok] r by simp
      from False have "varint_loop st v sh c = varint_loop st v' (sh + 7) (ahead c 1)"
        by (simp add: varint_loop.simps[of st v sh c] B Let_def v'_def)
      moreover from False have "lvarint_loop v sh (rest c) = map_option (apsnd Suc) (lvarint_loop v' (sh + 7) bs)"
        by (simp add: Cons Let_def v'_def)
      ultimately show ?thesis using IH by (cases "lvarint_loop v' (sh + 7) bs") auto
    qed
  qed
qed

lemma cursor_varint_rest: "cursor_ok c \<Longrightarrow> cursor_varint c = Ok (x, c') \<longleftrightarrow>
    (\<exists>n. lvarint (rest c) = Some (x, n) \<and> c' = ahead c n)"
  by (simp add: cursor_varint_def lvarint_def varint_loop_rest)

lemma cursor_tag_rest: "cursor_ok c \<Longrightarrow> cursor_tag c = Ok (x, c') \<longleftrightarrow>
    (\<exists>n. ltag (rest c) = Some (x, n) \<and> c' = ahead c n)"
  by (fastforce simp: cursor_tag_def ltag_def cursor_varint_rest result_simps)

lemma cursor_len_range_rest:
  assumes ok: "cursor_ok c"
  shows "cursor_len_range c = Ok (r, c') \<longleftrightarrow>
    (\<exists>a b. llen (rest c) = Some (a, b) \<and> r = rng (cur_pos c + a) (cur_pos c + b) \<and> c' = ahead c b)"
proof -
  have inside: "cur_pos c + n \<le> cur_end c \<longleftrightarrow> n \<le> length (rest c)" for n
    using ok by (auto simp: length_rest cursor_ok_def)
  have fits: "n \<le> length (rest c) \<Longrightarrow> cur_pos c + n < 2 ^ 64" for n
    using ok by (simp add: length_rest) (auto simp: cursor_ok_def)
  show ?thesis
  proof (cases "lvarint (rest c)")
    case None
    then have "\<And>x c'. cursor_varint c \<noteq> Ok (x, c')" using cursor_varint_rest[OF ok] by simp
    then show ?thesis by (auto simp: cursor_len_range_def llen_def None Let_def result_simps)
  next
    case (Some p)
    obtain len n where p: "p = (len, n)" by (cases p)
    then have "cursor_varint c = Ok (len, ahead c n)" using cursor_varint_rest[OF ok] Some by simp
    then show ?thesis
      using inside[of "n + unat len"] fits[of "n + unat len"]
      by (auto simp: cursor_len_range_def llen_def Some p Let_def result_simps checked_add_def
          ahead_def add.assoc)
  qed
qed

lemma cursor_advance_rest: "cursor_ok c \<Longrightarrow>
    cursor_advance c n = Ok c' \<longleftrightarrow> n \<le> length (rest c) \<and> c' = ahead c n"
  by (simp add: length_rest) (auto simp: cursor_advance_def checked_add_def cursor_ok_def ahead_def)

lemma cursor_skip_rest: "cursor_ok c \<Longrightarrow> cursor_skip c w = Ok c' \<longleftrightarrow>
    (\<exists>n. lskip (rest c) w = Some n \<and> c' = ahead c n)"
  by (auto simp: cursor_skip_def lskip_def result_simps cursor_varint_rest cursor_len_range_rest
      cursor_advance_rest)

lemmas cursor_rest = cursor_varint_rest cursor_tag_rest cursor_len_range_rest cursor_skip_rest

section \<open>A walk is a fold over the fields\<close>

definition field_step ::
  "(u32 \<Rightarrow> u8 \<Rightarrow> ('e, 's) arm) \<Rightarrow> nat \<Rightarrow> field \<Rightarrow> 's \<Rightarrow> ('e, 's) result" where
  "field_step arms p fd s =
     (case arms (fd_num fd) (fd_wire fd) of
        TakeLen k \<Rightarrow> k p (rng (p + fd_off fd) (p + length (fd_raw fd))) (p + length (fd_raw fd)) s
      | TakeVarint k \<Rightarrow> k (fd_val fd) s
      | SkipField \<Rightarrow> Ok s)"

fun run_fields ::
  "(u32 \<Rightarrow> u8 \<Rightarrow> ('e, 's) arm) \<Rightarrow> nat \<Rightarrow> field list \<Rightarrow> 's \<Rightarrow> ('e, 's) result" where
  "run_fields arms p [] s = Ok s"
| "run_fields arms p (fd # fds) s =
     rbind (field_step arms p fd s) (run_fields arms (p + length (fd_raw fd)) fds)"

text \<open>The arms read lengths off length-delimited fields and varints off varint fields only.\<close>

definition arms_match :: "(u32 \<Rightarrow> u8 \<Rightarrow> ('e, 's) arm) \<Rightarrow> bool" where
  "arms_match arms \<longleftrightarrow> (\<forall>f w. (\<forall>k. arms f w = TakeLen k \<longrightarrow> w = 2) \<and> (\<forall>k. arms f w = TakeVarint k \<longrightarrow> w = 0))"

lemma walk_step_field:
  assumes ok: "cursor_ok c" and m: "arms_match arms"
  shows "walk_step conv arms c s = Ok (c', s') \<longleftrightarrow>
    (\<exists>fd. lfield (rest c) = Some fd \<and> field_step arms (cur_pos c) fd s = Ok s' \<and> c' = ahead c (length (fd_raw fd)))"
proof (cases "ltag (rest c)")
  case None
  then show ?thesis by (auto simp: walk_step_def result_simps cursor_tag_rest[OF ok] lfield_def)
next
  case (Some t)
  obtain f w n where t: "t = ((f, w), n)" by (cases t) auto
  have T: "cursor_tag c = Ok ((f, w), ahead c n)" using Some t by (simp add: cursor_tag_rest[OF ok])
  have n: "n \<le> length (rest c)" using ltag_consumed[OF Some[unfolded t]] by simp
  note ok1 = cursor_ok_ahead[OF ok n]
  show ?thesis
  proof (cases "arms f w")
    case (TakeLen k)
    with m have w: "w = 2" by (auto simp: arms_match_def)
    show ?thesis
    proof (cases "llen (drop n (rest c))")
      case None
      then show ?thesis
        by (auto simp: walk_step_def T[unfolded w] TakeLen[unfolded w] result_simps
            cursor_len_range_rest[OF ok1] rest_ahead lfield_def Some t w lskip_def)
    next
      case (Some p)
      obtain a b where p: "p = (a, b)" by (cases p)
      with Some llen_consumed[of "drop n (rest c)" a b] n
      have len: "length (take (n + b) (rest c)) = n + b" by auto
      have L: "cursor_len_range (ahead c n) = Ok (rng (cur_pos c + n + a) (cur_pos c + n + b), ahead c (n + b))"
        using Some p by (simp add: cursor_len_range_rest[OF ok1] rest_ahead)
      show ?thesis
        using Some \<open>ltag (rest c) = Some t\<close> len
        by (auto simp: walk_step_def T[unfolded w] TakeLen[unfolded w] result_simps L lfield_def t p w lskip_def field_step_def add.assoc)
    qed
  next
    case (TakeVarint k)
    with m have w: "w = 0" by (auto simp: arms_match_def)
    show ?thesis
    proof (cases "lvarint (drop n (rest c))")
      case None
      then show ?thesis
        by (auto simp: walk_step_def T[unfolded w] TakeVarint[unfolded w] result_simps
            cursor_varint_rest[OF ok1] rest_ahead lfield_def Some t w lskip_def)
    next
      case (Some p)
      obtain v b where p: "p = (v, b)" by (cases p)
      with Some lvarint_consumed[of "drop n (rest c)" v b] n
      have len: "length (take (n + b) (rest c)) = n + b" by auto
      have L: "cursor_varint (ahead c n) = Ok (v, ahead c (n + b))"
        using Some p by (simp add: cursor_varint_rest[OF ok1] rest_ahead)
      show ?thesis
        using Some \<open>ltag (rest c) = Some t\<close> len
        by (auto simp: walk_step_def T[unfolded w] TakeVarint[unfolded w] result_simps L lfield_def t p w lskip_def field_step_def)
    qed
  next
    case SkipField
    show ?thesis
    proof (cases "lskip (drop n (rest c)) w")
      case None
      then show ?thesis
        by (auto simp: walk_step_def T SkipField result_simps cursor_skip_rest[OF ok1] rest_ahead lfield_def Some t)
    next
      case (Some b)
      then have "min (length (rest c)) (n + b) = n + b" using lskip_consumed[OF Some] n by simp
      with Some \<open>ltag (rest c) = Some t\<close> show ?thesis
        by (auto simp: walk_step_def T SkipField result_simps cursor_skip_rest[OF ok1] rest_ahead lfield_def
            t field_step_def)
    qed
  qed
qed

theorem walk_fields:
  assumes "cursor_ok c" "arms_match arms"
  shows "walk conv arms c s = Ok s' \<longleftrightarrow>
    (\<exists>fds. wire_fields (rest c) = Some fds \<and> run_fields arms (cur_pos c) fds s = Ok s')"
  using assms
proof (induction conv arms c s rule: walk.induct)
  case (1 conv arms c s)
  note ok = "1.prems"(1) and m = "1.prems"(2)
  show ?case
  proof (cases "cursor_done c")
    case True
    then have "rest c = []" by (simp add: rest_def cursor_done_def)
    with True show ?thesis by (simp add: walk.simps[of conv arms c s])
  next
    case False
    then have ne: "rest c \<noteq> []" using ok length_rest[OF ok] by (auto simp: cursor_done_def)
    have "walk conv arms c s = Ok s' \<longleftrightarrow>
        (\<exists>c1 s1. walk_step conv arms c s = Ok (c1, s1) \<and> walk conv arms c1 s1 = Ok s')"
      using False by (auto simp: walk.simps[of conv arms c s] result_simps)
    also have "\<dots> \<longleftrightarrow> (\<exists>fd s1. lfield (rest c) = Some fd \<and> field_step arms (cur_pos c) fd s = Ok s1 \<and>
        (\<exists>fds. wire_fields (drop (length (fd_raw fd)) (rest c)) = Some fds \<and>
          run_fields arms (cur_pos c + length (fd_raw fd)) fds s1 = Ok s'))"
    proof -
      have "walk conv arms c1 s1 = Ok s' \<longleftrightarrow> (\<exists>fds. wire_fields (drop (length (fd_raw fd)) (rest c)) = Some fds \<and>
          run_fields arms (cur_pos c + length (fd_raw fd)) fds s1 = Ok s')"
        if st: "lfield (rest c) = Some fd" "field_step arms (cur_pos c) fd s = Ok s1"
          "c1 = ahead c (length (fd_raw fd))" for fd s1 c1
      proof -
        have "walk_step conv arms c s = Ok (c1, s1)" using walk_step_field[OF ok m] st by blast
        moreover have "length (fd_raw fd) \<le> length (rest c)"
          using lfield_raw(2)[OF st(1)] by (metis length_append le_add1)
        ultimately show ?thesis
          using "1.IH"[OF False _ refl cursor_ok_ahead[OF ok] m] st(3) by (simp add: rest_ahead)
      qed
      then show ?thesis unfolding walk_step_field[OF ok m] by blast
    qed
    also have "\<dots> \<longleftrightarrow> (\<exists>fds. wire_fields (rest c) = Some fds \<and> run_fields arms (cur_pos c) fds s = Ok s')"
      using ne by (auto simp: wire_fields.simps[of "rest c"] result_simps split: option.splits)
    finally show ?thesis .
  qed
qed

section \<open>Fields read again, and walks against a reference fold\<close>

text \<open>The bytes of a field are a field on their own, the same one.\<close>

lemma lvarint_loop_take:
  "lvarint_loop v sh bs = Some (x, n) \<Longrightarrow> n \<le> k \<Longrightarrow> lvarint_loop v sh (take k bs) = Some (x, n)"
proof (induction v sh bs arbitrary: x n k rule: lvarint_loop.induct)
  case (2 v sh b bs)
  then show ?case
    by (cases k) (fastforce simp: Let_def split: if_splits)+
qed simp

lemma lvarint_take: "lvarint bs = Some (x, n) \<Longrightarrow> n \<le> k \<Longrightarrow> lvarint (take k bs) = Some (x, n)"
  unfolding lvarint_def by (rule lvarint_loop_take)

lemma ltag_take: "ltag bs = Some (t, n) \<Longrightarrow> n \<le> k \<Longrightarrow> ltag (take k bs) = Some (t, n)"
  by (cases "lvarint bs") (auto simp: ltag_def lvarint_take)

lemma llen_take: "llen bs = Some (a, b) \<Longrightarrow> b \<le> k \<Longrightarrow> llen (take k bs) = Some (a, b)"
  by (auto simp: llen_def lvarint_take split: option.splits if_splits)

lemma lskip_take: "lskip bs w = Some m \<Longrightarrow> m \<le> k \<Longrightarrow> lskip (take k bs) w = Some m"
  by (auto simp: lskip_def split: if_splits dest: lvarint_take llen_take)

lemma lfield_again:
  assumes "lfield bs = Some fd"
  shows "lfield (fd_raw fd) = Some fd"
proof -
  from assms obtain f w n m where t: "ltag bs = Some ((f, w), n)" and s: "lskip (drop n bs) w = Some m"
    and fd: "fd = \<lparr>fd_num = f, fd_wire = w,
               fd_val = (if w = 0 then fst (the (lvarint (drop n bs))) else 0),
               fd_off = (if w = 2 then n + fst (the (llen (drop n bs))) else n + m),
               fd_raw = take (n + m) bs\<rparr>"
    by (auto simp: lfield_def split: option.splits)
  have tk: "drop n (take (n + m) bs) = take m (drop n bs)" by (simp add: drop_take)
  have "ltag (take (n + m) bs) = Some ((f, w), n)"
    using ltag_take[OF t, of "n + m"] by simp
  moreover have "lskip (take m (drop n bs)) w = Some m" using s by (rule lskip_take) simp
  moreover have "w = 0 \<Longrightarrow> lvarint (take m (drop n bs)) = lvarint (drop n bs)"
    using s by (auto simp: lskip_def dest: lvarint_take[where k = m])
  moreover have "w = 2 \<Longrightarrow> llen (take m (drop n bs)) = llen (drop n bs)"
    using s by (auto simp: lskip_def dest: llen_take[where k = m])
  ultimately show ?thesis by (simp add: lfield_def fd tk)
qed

lemma fields_Cons_iff: "bs \<noteq> [] \<Longrightarrow> wire_fields bs = Some fds \<longleftrightarrow>
    (\<exists>fd gds. lfield bs = Some fd \<and> wire_fields (drop (length (fd_raw fd)) bs) = Some gds \<and> fds = fd # gds)"
  by (auto simp: wire_fields.simps[of bs] split: option.splits)

lemma fields_lfield: "wire_fields bs = Some fds \<Longrightarrow> fd \<in> set fds \<Longrightarrow> lfield (fd_raw fd) = Some fd"
proof (induction bs arbitrary: fds rule: wire_fields.induct)
  case (1 bs)
  then show ?case
    by (cases "bs = []") (auto simp: fields_Cons_iff dest: lfield_again)
qed

lemma fields_concat:
  "(\<And>fd. fd \<in> set fds \<Longrightarrow> lfield (fd_raw fd) = Some fd) \<Longrightarrow> wire_fields (concat (map fd_raw fds)) = Some fds"
proof (induction fds)
  case (Cons fd fds)
  then have "wire_fields (fd_raw fd) = Some [fd]" by (simp add: fields_single)
  with Cons show ?case using fields_append[of "fd_raw fd" "[fd]"] by simp
qed simp

text \<open>The value of a result as an option, and a fold that may fail.\<close>

fun ok_opt :: "('e, 'a) result \<Rightarrow> 'a option" where
  "ok_opt (Ok x) = Some x"
| "ok_opt (Err e) = None"
| "ok_opt Panic = None"

lemma ok_opt_rbind: "ok_opt (rbind r f) = Option.bind (ok_opt r) (\<lambda>x. ok_opt (f x))"
  by (cases r) auto

lemma ok_opt_map_err [simp]: "ok_opt (map_err g r) = ok_opt r"
  by (cases r) auto

lemma ok_opt_Some: "ok_opt r = Some x \<longleftrightarrow> r = Ok x"
  by (cases r) auto

fun fold_opt :: "('a \<Rightarrow> 's \<Rightarrow> 's option) \<Rightarrow> 'a list \<Rightarrow> 's \<Rightarrow> 's option" where
  "fold_opt f [] s = Some s"
| "fold_opt f (x # xs) s = Option.bind (f x s) (fold_opt f xs)"

lemma fold_opt_append: "fold_opt f (xs @ ys) s = Option.bind (fold_opt f xs s) (fold_opt f ys)"
proof (induction xs arbitrary: s)
  case (Cons a xs)
  then show ?case by (cases "f a s") simp_all
qed simp

lemma fold_opt_skip: "(\<And>x s. x \<in> set xs \<Longrightarrow> f x s = Some s) \<Longrightarrow> fold_opt f xs s = Some s"
  by (induction xs arbitrary: s) simp_all

lemma run_fields_fold:
  assumes "\<And>fd p s. fd \<in> set fds \<Longrightarrow> a \<le> p \<Longrightarrow> p + length (fd_raw fd) \<le> b \<Longrightarrow>
      bslice buf p (p + length (fd_raw fd)) = fd_raw fd \<Longrightarrow>
      map_option den (ok_opt (field_step arms p fd s)) = larm fd (den s)"
    and "bslice buf p b = concat (map fd_raw fds)" "a \<le> p" "p \<le> b" "b \<le> length buf"
  shows "map_option den (ok_opt (run_fields arms p fds s)) = fold_opt larm fds (den s)"
  using assms
proof (induction fds arbitrary: p s)
  case (Cons fd fds)
  let ?q = "p + length (fd_raw fd)"
  have len: "b - p = length (fd_raw fd) + length (concat (map fd_raw fds))"
    using Cons.prems(2,5) length_bslice[of b buf p] by simp
  have q: "?q \<le> b" using len Cons.prems(4) by simp
  have "bslice buf p ?q @ bslice buf ?q b = fd_raw fd @ concat (map fd_raw fds)"
    using q Cons.prems(2) by (simp add: bslice_append)
  moreover have "length (bslice buf p ?q) = length (fd_raw fd)"
    using q Cons.prems(5) by (simp add: length_bslice)
  ultimately have sl: "bslice buf p ?q = fd_raw fd" "bslice buf ?q b = concat (map fd_raw fds)"
    by (simp_all add: append_eq_append_conv)
  have st: "map_option den (ok_opt (field_step arms p fd s)) = larm fd (den s)"
    by (rule Cons.prems(1)) (use q sl Cons.prems in auto)
  show ?case
  proof (cases "ok_opt (field_step arms p fd s)")
    case None
    with st show ?thesis by (simp add: ok_opt_rbind)
  next
    case (Some s')
    have "map_option den (ok_opt (run_fields arms ?q fds s')) = fold_opt larm fds (den s')"
      by (rule Cons.IH) (use q sl Cons.prems in auto)
    with st Some show ?thesis by (cases "larm fd (den s)") (auto simp: ok_opt_rbind)
  qed
qed simp

lemma walk_run:
  assumes "cursor_ok c" "arms_match arms"
  shows "ok_opt (walk conv arms c s) =
    Option.bind (wire_fields (rest c)) (\<lambda>fds. ok_opt (run_fields arms (cur_pos c) fds s))"
  by (rule option_eqI) (auto simp: ok_opt_Some walk_fields[OF assms] bind_eq_Some_conv)

text \<open>
  The reduction the parser proofs use: a walk over offsets computes, up to \<open>den\<close>, the fold of a
  reference step over the fields of the window.
\<close>

theorem walk_refines:
  assumes ok: "cursor_ok c" and m: "arms_match arms"
    and step: "\<And>fd p s. lfield (fd_raw fd) = Some fd \<Longrightarrow> cur_pos c \<le> p \<Longrightarrow>
      p + length (fd_raw fd) \<le> cur_end c \<Longrightarrow>
      bslice (cur_buf c) p (p + length (fd_raw fd)) = fd_raw fd \<Longrightarrow>
      map_option den (ok_opt (field_step arms p fd s)) = larm fd (den s)"
  shows "map_option den (ok_opt (walk conv arms c s)) =
    Option.bind (wire_fields (rest c)) (\<lambda>fds. fold_opt larm fds (den s))"
proof -
  note w = walk_run[OF ok m, of conv s]
  show ?thesis
  proof (cases "wire_fields (rest c)")
    case (Some fds)
    have "map_option den (ok_opt (run_fields arms (cur_pos c) fds s)) = fold_opt larm fds (den s)"
    proof (rule run_fields_fold[where a = "cur_pos c" and b = "cur_end c" and buf = "cur_buf c"])
      show "bslice (cur_buf c) (cur_pos c) (cur_end c) = concat (map fd_raw fds)"
        using fields_raw[OF Some] by (simp add: rest_def)
    qed (use ok step fields_lfield[OF Some] in \<open>auto simp: cursor_ok_def\<close>)
    with w Some show ?thesis by simp
  qed (simp add: w)
qed

lemma bslice_payload:
  assumes "bslice buf p (p + length (fd_raw fd)) = fd_raw fd" "fd_off fd \<le> length (fd_raw fd)"
  shows "bslice buf (p + fd_off fd) (p + length (fd_raw fd)) = payload fd"
proof -
  have "payload fd = drop (fd_off fd) (bslice buf p (p + length (fd_raw fd)))"
    using assms by (simp add: payload_def)
  then show ?thesis by (simp add: bslice_def drop_take add.commute)
qed

end
