(* ===== verification/Encode.thy ===== *)
theory Encode
  imports WireFields
begin

text \<open>
  Writing the wire format: \<^verbatim>\<open>put_varint\<close>, \<^verbatim>\<open>varint_len\<close> and \<^verbatim>\<open>header_len\<close> of
  \<^verbatim>\<open>crates/archiv-export/src/lib.rs\<close>, that the lengths are the lengths of what is written, and that
  the reader of \<^verbatim>\<open>otlp.rs\<close> reads back what was written.
\<close>

section \<open>Varints\<close>

lemma drop_bit_7_less: "drop_bit 7 (v :: u64) \<noteq> 0 \<Longrightarrow> unat (drop_bit 7 v) < unat v"
proof -
  assume "drop_bit 7 v \<noteq> 0"
  then have "v \<noteq> 0" by auto
  then have "unat v \<noteq> 0" by (simp add: unat_eq_0)
  then have "unat v div 128 < unat v" by (intro div_less_dividend) simp_all
  then show ?thesis unfolding unat_drop_bit_eq by (simp add: drop_bit_eq_div)
qed

text \<open>The \<^verbatim>\<open>loop\<close> of \<^verbatim>\<open>put_varint\<close>: the bytes appended to \<open>out\<close>.\<close>

function put_varint :: "u64 \<Rightarrow> u8 list" where
  "put_varint v =
     (let b = ucast (v AND 0x7F); v' = drop_bit 7 v
      in if v' = 0 then [b] else (b OR 0x80) # put_varint v')"
  by pat_completeness auto
termination
  by (relation "measure unat") (auto intro: drop_bit_7_less)

declare put_varint.simps [simp del]

text \<open>\<^verbatim>\<open>u64::leading_zeros\<close> and \<^verbatim>\<open>usize::div_ceil\<close>.\<close>

definition leading_zeros :: "u64 \<Rightarrow> nat" where
  "leading_zeros v = length (takeWhile (\<lambda>i. \<not> bit v i) (rev [0..<64]))"

definition div_ceil :: "nat \<Rightarrow> nat \<Rightarrow> nat" where
  "div_ceil a b = a div b + (if a mod b = 0 then 0 else 1)"

definition varint_len :: "u64 \<Rightarrow> nat" where
  "varint_len v = div_ceil (64 - leading_zeros (v OR 1)) 7"

definition len_tag :: "u32 \<Rightarrow> u64" where
  "len_tag field = push_bit 3 (ucast field) OR 2"

definition header_len :: "u32 \<Rightarrow> nat \<Rightarrow> nat" where
  "header_len field sz = varint_len (len_tag field) + varint_len (of_nat sz)"

subsection \<open>The length is the length of the encoding\<close>

lemma bit_length_le:
  "n - length (takeWhile P (rev [0..<n])) \<le> m \<longleftrightarrow> (\<forall>i. m \<le> i \<longrightarrow> i < n \<longrightarrow> P i)"
proof (induction n)
  case (Suc n)
  show ?case
  proof (cases "P n")
    case True
    have "length (takeWhile P (rev [0..<n])) \<le> n"
      using length_takeWhile_le[of P "rev [0..<n]"] by simp
    with True Suc show ?thesis by (auto simp: less_Suc_eq)
  next
    case False
    then show ?thesis by (auto simp: not_le less_Suc_eq_le Suc_le_eq)
  qed
qed simp

lemma word_less_bits: "unat (v :: u64) < 2 ^ m \<longleftrightarrow> (\<forall>i. m \<le> i \<longrightarrow> i < 64 \<longrightarrow> \<not> bit v i)"
proof -
  have "unat v < 2 ^ m \<longleftrightarrow> take_bit m (unat v) = unat v" by (simp add: take_bit_nat_eq_self_iff)
  also have "\<dots> \<longleftrightarrow> take_bit m v = v" by (metis unsigned_take_bit_eq word_unat_eq_iff)
  also have "\<dots> \<longleftrightarrow> (\<forall>i. m \<le> i \<longrightarrow> i < 64 \<longrightarrow> \<not> bit v i)"
    by (simp add: bit_eq_iff bit_take_bit_iff) (metis linorder_not_le)
  finally show ?thesis .
qed

lemma div_ceil_le: "0 < b \<Longrightarrow> div_ceil a b \<le> k \<longleftrightarrow> a \<le> k * b"
proof -
  assume b: "0 < b"
  show ?thesis
  proof (cases "a mod b = 0")
    case True
    then obtain q where "a = q * b" by (metis mod_eq_0_iff_dvd dvd_def mult.commute)
    with b True show ?thesis by (simp add: div_ceil_def)
  next
    case False
    with b show ?thesis
      by (simp add: div_ceil_def Suc_le_eq div_less_iff_less_mult) (metis le_neq_implies_less mod_mult_self2_is_0 nat_less_le)
  qed
qed

lemma varint_len_le: "1 \<le> k \<Longrightarrow> varint_len v \<le> k \<longleftrightarrow> unat v < 2 ^ (7 * k)"
proof -
  assume k: "1 \<le> k"
  have "varint_len v \<le> k \<longleftrightarrow> 64 - leading_zeros (v OR 1) \<le> k * 7"
    by (simp add: varint_len_def div_ceil_le)
  also have "\<dots> \<longleftrightarrow> (\<forall>i. k * 7 \<le> i \<longrightarrow> i < 64 \<longrightarrow> \<not> bit (v OR 1) i)"
    unfolding leading_zeros_def by (rule bit_length_le)
  also have "\<dots> \<longleftrightarrow> (\<forall>i. k * 7 \<le> i \<longrightarrow> i < 64 \<longrightarrow> \<not> bit v i)"
    using k by (auto simp: bit_or_iff bit_1_iff)
  also have "\<dots> \<longleftrightarrow> unat v < 2 ^ (7 * k)" by (simp add: word_less_bits mult.commute)
  finally show ?thesis .
qed

lemma put_varint_le: "1 \<le> k \<Longrightarrow> length (put_varint v) \<le> k \<longleftrightarrow> unat v < 2 ^ (7 * k)"
proof (induction v arbitrary: k rule: put_varint.induct)
  case (1 v)
  have z: "drop_bit 7 v = 0 \<longleftrightarrow> unat v < 2 ^ 7"
    unfolding word_unat_eq_iff unat_drop_bit_eq by (simp add: drop_bit_eq_div div_eq_0_iff)
  show ?case
  proof (cases "drop_bit 7 v = 0")
    case True
    have "(2 :: nat) ^ 7 \<le> 2 ^ (7 * k)" using "1.prems" by (intro power_increasing) simp_all
    with True z "1.prems" show ?thesis by (simp add: put_varint.simps[of v] Let_def)
  next
    case False
    show ?thesis
    proof (cases "k = 1")
      case True
      have "put_varint (drop_bit 7 v) \<noteq> []" by (subst put_varint.simps) (simp add: Let_def)
      with True False z show ?thesis by (simp add: put_varint.simps[of v] Let_def)
    next
      case k: False
      then obtain k' where k': "k = Suc k'" "1 \<le> k'" using "1.prems" by (cases k) auto
      have "length (put_varint (drop_bit 7 v)) \<le> k' \<longleftrightarrow> unat (drop_bit 7 v) < 2 ^ (7 * k')"
        using "1.IH"[OF refl refl False k'(2)] .
      also have "\<dots> \<longleftrightarrow> unat v < 2 ^ (7 * k)"
        unfolding unat_drop_bit_eq by (simp add: drop_bit_eq_div k' power_add div_less_iff_less_mult mult.commute)
      finally show ?thesis using False k' by (simp add: put_varint.simps[of v] Let_def)
    qed
  qed
qed

lemma put_varint_not_Nil [simp]: "put_varint v \<noteq> []"
  by (subst put_varint.simps) (simp add: Let_def)

lemma varint_len_pos: "1 \<le> varint_len v"
proof -
  have "\<not> varint_len v \<le> 0"
    unfolding varint_len_def leading_zeros_def by (simp only: div_ceil_le bit_length_le) (auto simp: bit_or_iff bit_1_iff intro!: exI[of _ 0])
  then show ?thesis by simp
qed

lemma length_put_varint: "length (put_varint v) = varint_len v"
proof (rule antisym)
  show "length (put_varint v) \<le> varint_len v"
    using put_varint_le[of "varint_len v" v] varint_len_le[of "varint_len v" v] varint_len_pos by simp
  show "varint_len v \<le> length (put_varint v)"
    using put_varint_le[of "length (put_varint v)" v] varint_len_le[of "length (put_varint v)" v]
    by (simp add: Suc_le_eq)
qed

section \<open>What was written is read back\<close>

lemma bit_0x80: "bit (0x80 :: u8) n \<longleftrightarrow> n = 7" "bit (0x80 :: u64) n \<longleftrightarrow> n = 7"
  using bit_exp_iff[of 7 n, where 'a = u8] bit_exp_iff[of 7 n, where 'a = u64] by auto

lemma varint_byte:
  fixes w :: u64
  shows "(ucast (w AND 0x7F) :: u8) AND 0x80 = 0" "((ucast (w AND 0x7F) :: u8) OR 0x80) AND 0x80 \<noteq> 0"
    "(ucast ((ucast (w AND 0x7F) :: u8) AND 0x7F) :: u64) = w AND 0x7F"
    "(ucast (((ucast (w AND 0x7F) :: u8) OR 0x80) AND 0x7F) :: u64) = w AND 0x7F"
proof -
  have m: "(0x7F :: u64) = mask 7" "(0x7F :: u8) = mask 7" by (simp_all add: mask_eq_exp_minus_1)
  show "(ucast (w AND 0x7F) :: u8) AND 0x80 = 0"
    unfolding m by (rule bit_word_eqI) (simp only: bit_and_iff bit_0x80 bit_unsigned_iff bit_mask_iff, auto)
  have "bit (((ucast (w AND 0x7F) :: u8) OR 0x80) AND 0x80) 7"
    by (simp add: bit_simps bit_0x80)
  then show "((ucast (w AND 0x7F) :: u8) OR 0x80) AND 0x80 \<noteq> 0" by auto
  show "(ucast ((ucast (w AND 0x7F) :: u8) AND 0x7F) :: u64) = w AND 0x7F"
    unfolding m by (rule bit_word_eqI) (auto simp: bit_simps)
  show "(ucast (((ucast (w AND 0x7F) :: u8) OR 0x80) AND 0x7F) :: u64) = w AND 0x7F"
    unfolding m by (rule bit_word_eqI) (simp only: bit_and_iff bit_or_iff bit_0x80 bit_unsigned_iff bit_mask_iff, auto)
qed

lemma varint_step:
  fixes v :: u64
  shows "take_bit sh v OR push_bit sh (drop_bit sh v AND 0x7F) = take_bit (sh + 7) v"
proof -
  have m: "(0x7F :: u64) = mask 7" by (simp add: mask_eq_exp_minus_1)
  show ?thesis unfolding m by (rule bit_word_eqI) (auto simp: bit_simps)
qed

lemma take_bit_of_drop_zero: "drop_bit n (v :: u64) = 0 \<Longrightarrow> take_bit n v = v"
  using bits_ident[of n v] by simp

lemma lvarint_loop_put:
  "sh < 64 \<Longrightarrow> lvarint_loop (take_bit sh v) sh (put_varint (drop_bit sh v) @ r) =
    Some (v, length (put_varint (drop_bit sh v)))"
proof (induction "64 - sh" arbitrary: sh rule: less_induct)
  case less
  let ?w = "drop_bit sh v"
  have dd: "drop_bit 7 ?w = drop_bit (sh + 7) v" by (simp add: add.commute)
  show ?case
  proof (cases "drop_bit 7 ?w = 0")
    case True
    then have "take_bit (sh + 7) v = v" unfolding dd by (rule take_bit_of_drop_zero)
    with True less.prems show ?thesis
      by (simp add: put_varint.simps[of ?w] Let_def varint_byte varint_step del: push_bit_and)
  next
    case False
    have "sh + 7 < 64"
    proof (rule ccontr)
      assume "\<not> sh + 7 < 64"
      then have "drop_bit (sh + 7) v = 0" by (intro bit_word_eqI) (auto simp: bit_simps dest: bit_imp_le_length)
      with False show False unfolding dd by simp
    qed
    with less.hyps[of "sh + 7"] less.prems
    have "lvarint_loop (take_bit (sh + 7) v) (sh + 7) (put_varint (drop_bit (sh + 7) v) @ r) =
        Some (v, length (put_varint (drop_bit (sh + 7) v)))" by simp
    moreover have "put_varint ?w = (ucast (?w AND 0x7F) OR 0x80) # put_varint (drop_bit (sh + 7) v)"
      using False unfolding dd[symmetric] by (simp add: put_varint.simps[of ?w] Let_def)
    ultimately show ?thesis using less.prems by (simp add: Let_def varint_byte varint_step del: push_bit_and)
  qed
qed

lemma lvarint_put: "lvarint (put_varint v @ r) = Some (v, length (put_varint v))"
  using lvarint_loop_put[of 0 v r] by (simp add: lvarint_def)

text \<open>A length-delimited field as the exporter writes it.\<close>

definition len_field :: "u32 \<Rightarrow> u8 list \<Rightarrow> u8 list" where
  "len_field n pl = put_varint (len_tag n) @ put_varint (of_nat (length pl)) @ pl"

definition len_field_of :: "u32 \<Rightarrow> u8 list \<Rightarrow> field" where
  "len_field_of n pl = \<lparr>fd_num = n, fd_wire = 2, fd_val = 0, fd_off = header_len n (length pl), fd_raw = len_field n pl\<rparr>"

lemma length_len_field: "length (len_field n pl) = header_len n (length pl) + length pl"
  by (simp add: len_field_def header_len_def length_put_varint)

lemma len_tag_parts: "ucast (drop_bit 3 (len_tag n)) = n" "ucast (len_tag n AND 0x7) = (2 :: u8)"
proof -
  have two: "(2 :: u64) = push_bit 1 1" "(2 :: u8) = push_bit 1 1" by simp_all
  have m: "(0x7 :: u64) = mask 3" by (simp add: mask_eq_exp_minus_1)
  show "ucast (drop_bit 3 (len_tag n)) = n"
    unfolding len_tag_def two by (rule bit_word_eqI) (auto simp: bit_simps dest: bit_imp_le_length)
  show "ucast (len_tag n AND 0x7) = (2 :: u8)"
    unfolding len_tag_def two m by (rule bit_word_eqI) (auto simp: bit_simps)
qed

lemma lfield_len_field:
  assumes "length pl < 2 ^ 64"
  shows "lfield (len_field n pl) = Some (len_field_of n pl)"
proof -
  have t: "ltag (len_field n pl) = Some ((n, 2), length (put_varint (len_tag n)))"
    by (simp add: ltag_def len_field_def lvarint_put len_tag_parts)
  have u: "unat (of_nat (length pl) :: u64) = length pl"
    using assms by (simp add: unat_of_nat take_bit_nat_eq_self)
  have l: "llen (put_varint (of_nat (length pl)) @ pl) = Some (varint_len (of_nat (length pl)), varint_len (of_nat (length pl)) + length pl)"
    by (simp add: llen_def lvarint_put u length_put_varint)
  show ?thesis
    unfolding lfield_def t by (simp add: len_field_def lskip_def l len_field_of_def header_len_def length_put_varint)
qed

lemma len_field_of_simps [simp]:
  "fd_num (len_field_of n pl) = n" "fd_wire (len_field_of n pl) = 2" "fd_raw (len_field_of n pl) = len_field n pl"
  by (simp_all add: len_field_of_def)

lemma payload_len_field_of [simp]: "payload (len_field_of n pl) = pl"
  by (simp add: payload_def len_field_of_def len_field_def header_len_def length_put_varint)

section \<open>Properties\<close>

text \<open>
  A varint is written in exactly the number of bytes that the size computation predicts, which
  is the least number of 7-bit groups that hold it.
\<close>

theorem varint_len_exact:
  "length (put_varint v) = varint_len v \<and> unat v < 2 ^ (7 * varint_len v) \<and>
    (varint_len v = 1 \<or> 2 ^ (7 * (varint_len v - 1)) \<le> unat v)"
proof -
  let ?k = "varint_len v"
  have "unat v < 2 ^ (7 * ?k)" using varint_len_le[of ?k v] varint_len_pos by simp
  moreover have "?k = 1 \<or> 2 ^ (7 * (?k - 1)) \<le> unat v"
    using varint_len_le[of "?k - 1" v] varint_len_pos[of v] by (cases "?k = 1") (auto simp: not_less[symmetric])
  ultimately show ?thesis by (simp add: length_put_varint)
qed

text \<open>
  The cursor of the parser reads back every varint and every length-delimited field that the
  exporter writes, whatever bytes precede and follow it.
\<close>

theorem varint_roundtrip:
  assumes "c = cursor_new (pre @ put_varint v @ suf) (rng (length pre) (length (pre @ put_varint v @ suf)))"
    and "length (pre @ put_varint v @ suf) < 2 ^ 64"
  shows "cursor_varint c = Ok (v, c\<lparr>cur_pos := length pre + varint_len v\<rparr>)"
proof -
  have "cursor_ok c" using assms by (simp add: cursor_ok_def cursor_new_def)
  moreover have "rest c = put_varint v @ suf"
    using assms(1) by (simp add: rest_def cursor_new_def bslice_def)
  ultimately show ?thesis
    using assms(1) by (simp add: cursor_varint_rest lvarint_put ahead_def length_put_varint cursor_new_def)
qed

theorem varint_roundtrip_witness:
  "cursor_varint (cursor_new (9 # put_varint 300 @ [8]) (rng 1 4)) =
    Ok (300, (cursor_new (9 # put_varint 300 @ [8]) (rng 1 4))\<lparr>cur_pos := 3\<rparr>)"
proof -
  have p: "put_varint 300 = [172, 2]"
    by (simp add: put_varint.simps[of 300] put_varint.simps[of 2] Let_def)
  then have "varint_len 300 = 2" by (simp flip: length_put_varint)
  moreover have "length ([9] @ put_varint 300 @ [8]) = 4" by (simp add: p)
  ultimately show ?thesis
    using varint_roundtrip[OF refl, of "[9]" 300 "[8]"] by (simp only: append_Cons append_Nil list.size) simp
qed

end
