(* ===== verification/Export.thy ===== *)
theory Export
  imports Encode Envelope "HOL-Library.Product_Lexorder"
begin

text \<open>
  Vectored export assembly, \<^verbatim>\<open>crates/archiv-export/src/lib.rs\<close>: the segment tree that the walks
  build, the effective redaction spans, and the assembler that turns segments into chunks.
\<close>

section \<open>Masks and payloads\<close>

datatype assemble_error =
    WireError parse_error
  | RecordCountMismatch nat nat
  | UnknownMask u32

record mask_table =
  mt_masks :: "u8 list list"

definition mask_table_new :: "u8 list list \<Rightarrow> mask_table" where
  "mask_table_new masks = \<lparr>mt_masks = masks\<rparr>"

definition mask_table_bytes :: "mask_table \<Rightarrow> mask_id \<Rightarrow> u8 list option" where
  "mask_table_bytes masks mid =
     (let i = unat (mask_num mid) in if i < length (mt_masks masks) then Some (mt_masks masks ! i) else None)"

record assembled_payload =
  ap_chunks :: "u8 list list"
  ap_len :: nat

definition payload_is_empty :: "assembled_payload \<Rightarrow> bool" where
  "payload_is_empty p \<longleftrightarrow> ap_len p = 0"

definition passthrough :: "u8 list \<Rightarrow> assembled_payload" where
  "passthrough raw = \<lparr>ap_chunks = [raw], ap_len = length raw\<rparr>"

definition contiguous :: "assembled_payload \<Rightarrow> u8 list" where
  "contiguous p = concat (ap_chunks p)"

section \<open>Segments\<close>

datatype part = PRaw brange | PMask mask_id

datatype seg =
    Verbatim brange
  | Nested (sg_field: u32) (sg_size: nat) (sg_segs: "seg list")
  | Scalar (sg_field: u32) (sg_size: nat) (sg_parts: "part list")

fun seg_encoded_len :: "seg \<Rightarrow> nat" where
  "seg_encoded_len (Verbatim r) = rlen r"
| "seg_encoded_len (Nested field sz segs) = header_len field sz + sz"
| "seg_encoded_len (Scalar field sz parts) = header_len field sz + sz"

definition segs_encoded_len :: "seg list \<Rightarrow> nat" where
  "segs_encoded_len segs = sum_list (map seg_encoded_len segs)"

datatype child = Unchanged | Dropped | Rebuilt "seg list"

section \<open>Effective spans\<close>

text \<open>The filter of \<^verbatim>\<open>effective_spans\<close>, its stable sort, and the loop that drops overlaps.\<close>

definition spans_in :: "envelope \<Rightarrow> nat \<Rightarrow> brange \<Rightarrow> (brange \<times> mask_id) list" where
  "spans_in env idx window =
     map (\<lambda>r. (rd_target r, rd_mask r))
       (filter (\<lambda>r. rstart window \<le> rstart (rd_target r) \<and> rend (rd_target r) \<le> rend window)
         (redactions_for (ev_decisions env) idx))"

fun drop_overlaps :: "nat \<Rightarrow> (brange \<times> mask_id) list \<Rightarrow> (brange \<times> mask_id) list" where
  "drop_overlaps cur [] = []"
| "drop_overlaps cur ((r, m) # spans) =
     (if rstart r < cur then drop_overlaps cur spans
      else (r, m) # drop_overlaps (rend r) spans)"

definition span_key :: "brange \<times> mask_id \<Rightarrow> nat \<times> nat" where
  "span_key s = (rstart (fst s), rend (fst s))"

definition effective_spans :: "envelope \<Rightarrow> nat \<Rightarrow> brange \<Rightarrow> (brange \<times> mask_id) list" where
  "effective_spans env idx window =
     drop_overlaps (rstart window) (sort_key span_key (spans_in env idx window))"

text \<open>The loop of \<^verbatim>\<open>build_scalar\<close> over the spans: the parts, their size and the cursor reached.\<close>

fun scalar_parts ::
  "mask_table \<Rightarrow> (brange \<times> mask_id) list \<Rightarrow> part list \<Rightarrow> nat \<Rightarrow> nat \<Rightarrow> (assemble_error, part list \<times> nat \<times> nat) result" where
  "scalar_parts masks [] parts sz cur = Ok (parts, sz, cur)"
| "scalar_parts masks ((r, m) # spans) parts sz cur =
     (let (parts, sz) = (if cur < rstart r then (parts @ [PRaw (rng cur (rstart r))], sz + (rstart r - cur)) else (parts, sz))
      in case mask_table_bytes masks m of
           None \<Rightarrow> Err (UnknownMask (mask_num m))
         | Some bs \<Rightarrow> scalar_parts masks spans (parts @ [PMask m]) (sz + length bs) (rend r))"

definition build_scalar ::
  "u32 \<Rightarrow> brange \<Rightarrow> nat \<Rightarrow> envelope \<Rightarrow> mask_table \<Rightarrow> (assemble_error, seg option) result" where
  "build_scalar field window idx env masks =
     (let spans = effective_spans env idx window in
      if spans = [] then Ok None
      else rbind (scalar_parts masks spans [] 0 (rstart window)) (\<lambda>(parts, sz, cur).
        let (parts, sz) = (if cur < rend window then (parts @ [PRaw (rng cur (rend window))], sz + (rend window - cur))
                           else (parts, sz))
        in Ok (Some (Scalar field sz parts))))"

section \<open>The walks that rebuild a message\<close>

text \<open>The locals \<open>segs\<close>, \<open>run\<close> and \<open>changed\<close> that every builder keeps, and their updates.\<close>

record edits =
  ed_segs :: "seg list"
  ed_run :: nat
  ed_changed :: bool

definition edits_init :: "brange \<Rightarrow> edits" where
  "edits_init window = \<lparr>ed_segs = [], ed_run = rstart window, ed_changed = False\<rparr>"

text \<open>\<^verbatim>\<open>if tag_start > run { push(Verbatim) } ..; run = cur.pos(); changed = true;\<close>\<close>

definition splice_child :: "nat \<Rightarrow> nat \<Rightarrow> seg list \<Rightarrow> edits \<Rightarrow> edits" where
  "splice_child tag_start pos new s =
     \<lparr>ed_segs = ed_segs s @ (if ed_run s < tag_start then [Verbatim (rng (ed_run s) tag_start)] else []) @ new,
      ed_run = pos, ed_changed = True\<rparr>"

text \<open>The common end of the builders.\<close>

definition edits_finish :: "brange \<Rightarrow> edits \<Rightarrow> child" where
  "edits_finish window s =
     (if \<not> ed_changed s then Unchanged
      else Rebuilt (ed_segs s @ (if ed_run s < rend window then [Verbatim (rng (ed_run s) (rend window))] else [])))"

definition any_value_arms ::
  "nat \<Rightarrow> envelope \<Rightarrow> mask_table \<Rightarrow> u32 \<Rightarrow> u8 \<Rightarrow> (assemble_error, edits) arm" where
  "any_value_arms idx env masks field wire =
     (if field = 1 \<and> wire = 2 then
        TakeLen (\<lambda>tag_start w pos s.
          rbind (build_scalar 1 w idx env masks) (\<lambda>scalar.
            case scalar of Some sc \<Rightarrow> Ok (splice_child tag_start pos [sc] s) | None \<Rightarrow> Ok s))
      else SkipField)"

definition build_any_value ::
  "u8 list \<Rightarrow> brange \<Rightarrow> nat \<Rightarrow> envelope \<Rightarrow> mask_table \<Rightarrow> (assemble_error, child) result" where
  "build_any_value buf window idx env masks =
     rbind (walk WireError (any_value_arms idx env masks) (cursor_new buf window) (edits_init window)) (\<lambda>s.
       Ok (edits_finish window s))"

text \<open>\<^verbatim>\<open>Seg::Nested { field, size: segs_encoded_len(&inner), segs: inner }\<close>.\<close>

definition nested :: "u32 \<Rightarrow> seg list \<Rightarrow> seg" where
  "nested field inner = Nested field (segs_encoded_len inner) inner"

definition splice_rebuilt :: "u32 \<Rightarrow> nat \<Rightarrow> nat \<Rightarrow> child \<Rightarrow> edits \<Rightarrow> edits" where
  "splice_rebuilt field tag_start pos ch s =
     (case ch of Rebuilt inner \<Rightarrow> splice_child tag_start pos [nested field inner] s | _ \<Rightarrow> s)"

definition kv_build_arms ::
  "u8 list \<Rightarrow> nat \<Rightarrow> envelope \<Rightarrow> mask_table \<Rightarrow> u32 \<Rightarrow> u8 \<Rightarrow> (assemble_error, edits) arm" where
  "kv_build_arms buf idx env masks field wire =
     (if field = 2 \<and> wire = 2 then
        TakeLen (\<lambda>tag_start av pos s.
          rbind (build_any_value buf av idx env masks) (\<lambda>ch. Ok (splice_rebuilt 2 tag_start pos ch s)))
      else SkipField)"

definition build_key_value ::
  "u8 list \<Rightarrow> brange \<Rightarrow> nat \<Rightarrow> envelope \<Rightarrow> mask_table \<Rightarrow> (assemble_error, child) result" where
  "build_key_value buf window idx env masks =
     rbind (walk WireError (kv_build_arms buf idx env masks) (cursor_new buf window) (edits_init window)) (\<lambda>s.
       Ok (edits_finish window s))"

definition record_build_arms ::
  "u8 list \<Rightarrow> nat \<Rightarrow> envelope \<Rightarrow> mask_table \<Rightarrow> u32 \<Rightarrow> u8 \<Rightarrow> (assemble_error, edits) arm" where
  "record_build_arms buf idx env masks field wire =
     (if (field = 5 \<or> field = 6) \<and> wire = 2 then
        TakeLen (\<lambda>tag_start w pos s.
          rbind (if field = 5 then build_any_value buf w idx env masks else build_key_value buf w idx env masks)
            (\<lambda>ch. Ok (splice_rebuilt field tag_start pos ch s)))
      else SkipField)"

definition build_record ::
  "u8 list \<Rightarrow> brange \<Rightarrow> nat \<Rightarrow> envelope \<Rightarrow> mask_table \<Rightarrow> (assemble_error, child) result" where
  "build_record buf window idx env masks =
     (if sampling_verdict (ev_decisions env) idx = Drop then Ok Dropped
      else rbind (walk WireError (record_build_arms buf idx env masks) (cursor_new buf window) (edits_init window)) (\<lambda>s.
        Ok (edits_finish window s)))"

datatype level = LRequest | LResource | LScope

text \<open>
  \<^verbatim>\<open>build_container\<close>: the state is the record index and the edits; \<open>build\<close> is the child builder that
  the \<^verbatim>\<open>match level\<close> selects.
\<close>

definition container_arms ::
  "u32 \<Rightarrow> (brange \<Rightarrow> nat \<Rightarrow> (assemble_error, child \<times> nat) result) \<Rightarrow> u32 \<Rightarrow> u8 \<Rightarrow> (assemble_error, nat \<times> edits) arm" where
  "container_arms child_field build field wire =
     (if field = child_field \<and> wire = 2 then
        TakeLen (\<lambda>tag_start w pos s.
          rbind (build w (fst s)) (\<lambda>ch.
            Ok (snd ch,
              case fst ch of
                Unchanged \<Rightarrow> snd s
              | Dropped \<Rightarrow> splice_child tag_start pos [] (snd s)
              | Rebuilt inner \<Rightarrow> splice_child tag_start pos [nested child_field inner] (snd s))))
      else SkipField)"

definition container_walk ::
  "u8 list \<Rightarrow> brange \<Rightarrow> u32 \<Rightarrow> nat \<Rightarrow> (brange \<Rightarrow> nat \<Rightarrow> (assemble_error, child \<times> nat) result) \<Rightarrow>
   (assemble_error, child \<times> nat) result" where
  "container_walk buf window child_field rec_idx build =
     rbind (walk WireError (container_arms child_field build) (cursor_new buf window) (rec_idx, edits_init window)) (\<lambda>s.
       Ok (edits_finish window (snd s), fst s))"

fun level_depth :: "level \<Rightarrow> nat" where
  "level_depth LScope = 0"
| "level_depth LResource = 1"
| "level_depth LRequest = 2"

function build_container ::
  "u8 list \<Rightarrow> brange \<Rightarrow> u32 \<Rightarrow> envelope \<Rightarrow> mask_table \<Rightarrow> nat \<Rightarrow> level \<Rightarrow> (assemble_error, child \<times> nat) result" where
  "build_container buf window child_field env masks rec_idx LScope =
     container_walk buf window child_field rec_idx (\<lambda>w idx.
       rbind (build_record buf w idx env masks) (\<lambda>ch. Ok (ch, idx + 1)))"
| "build_container buf window child_field env masks rec_idx LResource =
     container_walk buf window child_field rec_idx (\<lambda>w idx. build_container buf w 2 env masks idx LScope)"
| "build_container buf window child_field env masks rec_idx LRequest =
     container_walk buf window child_field rec_idx (\<lambda>w idx. build_container buf w 2 env masks idx LResource)"
  by pat_completeness auto
termination
  by (relation "measure (\<lambda>(buf, window, child_field, env, masks, rec_idx, lv). level_depth lv)") auto

definition build_request ::
  "u8 list \<Rightarrow> envelope \<Rightarrow> mask_table \<Rightarrow> nat \<Rightarrow> (assemble_error, seg list \<times> nat) result" where
  "build_request buf env masks rec_idx =
     rbind (build_container buf (rng 0 (length buf)) 1 env masks rec_idx LRequest) (\<lambda>(ch, rec_idx).
       Ok (case ch of
             Rebuilt segs \<Rightarrow> (segs, rec_idx)
           | _ \<Rightarrow> ([Verbatim (rng 0 (length buf))], rec_idx)))"

section \<open>Emission\<close>

record assembler =
  as_raw :: "u8 list"
  as_chunks :: "u8 list list"
  as_scratch :: "u8 list"
  as_len :: nat

definition assembler_new :: "u8 list \<Rightarrow> assembler" where
  "assembler_new raw = \<lparr>as_raw = raw, as_chunks = [], as_scratch = [], as_len = 0\<rparr>"

definition flush_scratch :: "assembler \<Rightarrow> assembler" where
  "flush_scratch a =
     (if as_scratch a \<noteq> [] then a\<lparr>as_chunks := as_chunks a @ [as_scratch a], as_scratch := []\<rparr> else a)"

definition push_raw :: "brange \<Rightarrow> assembler \<Rightarrow> (assemble_error, assembler) result" where
  "push_raw r a =
     (if rempty r then Ok a
      else let a = flush_scratch (a\<lparr>as_len := as_len a + rlen r\<rparr>)
           in rbind (buf_slice (as_raw a) (rstart r) (rend r)) (\<lambda>bs. Ok (a\<lparr>as_chunks := as_chunks a @ [bs]\<rparr>)))"

definition push_header :: "u32 \<Rightarrow> nat \<Rightarrow> assembler \<Rightarrow> assembler" where
  "push_header field sz a =
     a\<lparr>as_scratch := as_scratch a @ put_varint (len_tag field) @ put_varint (of_nat sz),
       as_len := as_len a + header_len field sz\<rparr>"

definition push_mask :: "u8 list \<Rightarrow> assembler \<Rightarrow> assembler" where
  "push_mask mb a =
     (let a = flush_scratch (a\<lparr>as_len := as_len a + length mb\<rparr>) in a\<lparr>as_chunks := as_chunks a @ [mb]\<rparr>)"

definition assembler_finish :: "assembler \<Rightarrow> assembled_payload" where
  "assembler_finish a = (let a = flush_scratch a in \<lparr>ap_chunks = as_chunks a, ap_len = as_len a\<rparr>)"

fun emit_parts :: "mask_table \<Rightarrow> part list \<Rightarrow> assembler \<Rightarrow> (assemble_error, assembler) result" where
  "emit_parts masks [] a = Ok a"
| "emit_parts masks (PRaw r # parts) a = rbind (push_raw r a) (emit_parts masks parts)"
| "emit_parts masks (PMask m # parts) a =
     (case mask_table_bytes masks m of
        None \<Rightarrow> Err (UnknownMask (mask_num m))
      | Some mb \<Rightarrow> emit_parts masks parts (push_mask mb a))"

fun emit_seg :: "mask_table \<Rightarrow> seg \<Rightarrow> assembler \<Rightarrow> (assemble_error, assembler) result"
  and emit_segs :: "mask_table \<Rightarrow> seg list \<Rightarrow> assembler \<Rightarrow> (assemble_error, assembler) result" where
  "emit_seg masks (Verbatim r) a = push_raw r a"
| "emit_seg masks (Nested field sz segs) a = emit_segs masks segs (push_header field sz a)"
| "emit_seg masks (Scalar field sz parts) a = emit_parts masks parts (push_header field sz a)"
| "emit_segs masks [] a = Ok a"
| "emit_segs masks (sg # segs) a = rbind (emit_seg masks sg a) (emit_segs masks segs)"

definition assemble :: "envelope \<Rightarrow> mask_table \<Rightarrow> (assemble_error, assembled_payload) result" where
  "assemble env masks =
     (if \<not> any_dropped (ev_decisions env) \<and> redaction_total (ev_decisions env) = 0
      then Ok \<lparr>ap_chunks = [ev_raw env], ap_len = length (ev_raw env)\<rparr>
      else rbind (build_request (ev_raw env) env masks 0) (\<lambda>(segs, rec_idx).
        if rec_idx \<noteq> length (ev_records env)
        then Err (RecordCountMismatch (length (ev_records env)) rec_idx)
        else rbind (emit_segs masks segs (assembler_new (ev_raw env))) (\<lambda>a. Ok (assembler_finish a))))"

end
