(* ===== verification/Segments.thy ===== *)
theory Segments
  imports Export
begin

text \<open>
  What a segment tree denotes, and that the assembler emits exactly that: the recorded sizes are the
  lengths of what is nested, the chunks concatenate to the bytes of the tree, and the length the
  payload reports is the length of its chunks.
\<close>

section \<open>The bytes of a segment\<close>

fun part_bytes :: "u8 list \<Rightarrow> mask_table \<Rightarrow> part \<Rightarrow> u8 list" where
  "part_bytes raw masks (PRaw r) = vw raw r"
| "part_bytes raw masks (PMask m) = (case mask_table_bytes masks m of Some bs \<Rightarrow> bs | None \<Rightarrow> [])"

definition parts_bytes :: "u8 list \<Rightarrow> mask_table \<Rightarrow> part list \<Rightarrow> u8 list" where
  "parts_bytes raw masks parts = concat (map (part_bytes raw masks) parts)"

fun seg_bytes :: "u8 list \<Rightarrow> mask_table \<Rightarrow> seg \<Rightarrow> u8 list" where
  "seg_bytes raw masks (Verbatim r) = vw raw r"
| "seg_bytes raw masks (Nested field sz segs) =
     put_varint (len_tag field) @ put_varint (of_nat sz) @ concat (map (seg_bytes raw masks) segs)"
| "seg_bytes raw masks (Scalar field sz parts) =
     put_varint (len_tag field) @ put_varint (of_nat sz) @ parts_bytes raw masks parts"

definition segs_bytes :: "u8 list \<Rightarrow> mask_table \<Rightarrow> seg list \<Rightarrow> u8 list" where
  "segs_bytes raw masks segs = concat (map (seg_bytes raw masks) segs)"

text \<open>Well-formed trees: ranges inside the buffer, masks known, sizes exact.\<close>

fun part_ok :: "u8 list \<Rightarrow> mask_table \<Rightarrow> part \<Rightarrow> bool" where
  "part_ok raw masks (PRaw r) = in_window 0 (length raw) r"
| "part_ok raw masks (PMask m) = (mask_table_bytes masks m \<noteq> None)"

fun seg_ok :: "u8 list \<Rightarrow> mask_table \<Rightarrow> seg \<Rightarrow> bool" where
  "seg_ok raw masks (Verbatim r) = in_window 0 (length raw) r"
| "seg_ok raw masks (Nested field sz segs) =
     (list_all (seg_ok raw masks) segs \<and> sz = length (concat (map (seg_bytes raw masks) segs)))"
| "seg_ok raw masks (Scalar field sz parts) =
     (list_all (part_ok raw masks) parts \<and> sz = length (parts_bytes raw masks parts))"

abbreviation segs_ok :: "u8 list \<Rightarrow> mask_table \<Rightarrow> seg list \<Rightarrow> bool" where
  "segs_ok raw masks \<equiv> list_all (seg_ok raw masks)"

lemma segs_bytes_simps [simp]:
  "segs_bytes raw masks [] = []"
  "segs_bytes raw masks (sg # segs) = seg_bytes raw masks sg @ segs_bytes raw masks segs"
  "segs_bytes raw masks (segs @ segs') = segs_bytes raw masks segs @ segs_bytes raw masks segs'"
  by (simp_all add: segs_bytes_def)

lemma parts_bytes_simps [simp]:
  "parts_bytes raw masks [] = []"
  "parts_bytes raw masks (pt # parts) = part_bytes raw masks pt @ parts_bytes raw masks parts"
  "parts_bytes raw masks (parts @ parts') = parts_bytes raw masks parts @ parts_bytes raw masks parts'"
  by (simp_all add: parts_bytes_def)

lemma length_vw: "in_window 0 (length raw) r \<Longrightarrow> length (vw raw r) = rlen r"
  by (simp add: vw_def length_bslice in_window_def rlen_def)

lemma seg_encoded_len_exact: "seg_ok raw masks sg \<Longrightarrow> length (seg_bytes raw masks sg) = seg_encoded_len sg"
  by (cases sg) (auto simp: length_vw header_len_def length_put_varint)

lemma segs_encoded_len_exact: "segs_ok raw masks segs \<Longrightarrow> segs_encoded_len segs = length (segs_bytes raw masks segs)"
  by (induction segs) (auto simp: segs_encoded_len_def seg_encoded_len_exact)

lemma nested_ok: "segs_ok raw masks inner \<Longrightarrow>
    seg_ok raw masks (nested field inner) \<and> seg_bytes raw masks (nested field inner) = len_field field (segs_bytes raw masks inner)"
  by (simp add: nested_def segs_encoded_len_exact len_field_def) (simp add: segs_bytes_def)

section \<open>The assembler\<close>

definition asm_bytes :: "assembler \<Rightarrow> u8 list" where
  "asm_bytes a = concat (as_chunks a) @ as_scratch a"

definition asm_ok :: "u8 list \<Rightarrow> assembler \<Rightarrow> bool" where
  "asm_ok raw a \<longleftrightarrow> as_raw a = raw \<and> as_len a = length (asm_bytes a)"

text \<open>\<open>r\<close> appends \<open>bs\<close> to the assembler \<open>a\<close>.\<close>

definition emits :: "u8 list \<Rightarrow> assembler \<Rightarrow> u8 list \<Rightarrow> (assemble_error, assembler) result \<Rightarrow> bool" where
  "emits raw a bs r \<longleftrightarrow> (\<exists>a'. r = Ok a' \<and> asm_ok raw a' \<and> asm_bytes a' = asm_bytes a @ bs)"

lemma flush_scratch_simps [simp]:
  "as_raw (flush_scratch a) = as_raw a" "as_len (flush_scratch a) = as_len a"
  "as_scratch (flush_scratch a) = []" "concat (as_chunks (flush_scratch a)) = asm_bytes a"
  by (auto simp: flush_scratch_def asm_bytes_def)

lemma emits_rbind:
  assumes "emits raw a bs r" "\<And>a'. r = Ok a' \<Longrightarrow> asm_ok raw a' \<Longrightarrow> emits raw a' cs (f a')"
  shows "emits raw a (bs @ cs) (rbind r f)"
  using assms by (fastforce simp: emits_def)

lemma emits_push_raw:
  assumes "asm_ok raw a" "in_window 0 (length raw) r"
  shows "emits raw a (vw raw r) (push_raw r a)"
proof (cases "rempty r")
  case True
  with assms show ?thesis
    by (auto simp: emits_def push_raw_def rempty_def vw_def asm_ok_def not_less)
next
  case False
  have "concat (as_chunks (flush_scratch (a\<lparr>as_len := n\<rparr>))) = asm_bytes a" for n
    by (simp add: asm_bytes_def)
  then show ?thesis
    using assms False length_vw[OF assms(2)]
    by (auto simp: emits_def push_raw_def Let_def buf_slice_def in_window_def asm_ok_def asm_bytes_def vw_def)
qed

lemma push_header_ok:
  assumes "asm_ok raw a"
  shows "asm_ok raw (push_header field sz a)"
    "asm_bytes (push_header field sz a) = asm_bytes a @ put_varint (len_tag field) @ put_varint (of_nat sz)"
  using assms by (simp_all add: push_header_def asm_ok_def asm_bytes_def header_len_def length_put_varint)

lemma push_mask_ok:
  assumes "asm_ok raw a"
  shows "asm_ok raw (push_mask mb a) \<and> asm_bytes (push_mask mb a) = asm_bytes a @ mb"
proof -
  have "concat (as_chunks (flush_scratch (a\<lparr>as_len := n\<rparr>))) = asm_bytes a" for n
    by (simp add: asm_bytes_def)
  then show ?thesis
    using assms by (simp add: push_mask_def Let_def asm_ok_def asm_bytes_def)
qed

lemma emits_parts:
  "asm_ok raw a \<Longrightarrow> list_all (part_ok raw masks) parts \<Longrightarrow>
    emits raw a (parts_bytes raw masks parts) (emit_parts masks parts a)"
proof (induction masks parts a rule: emit_parts.induct)
  case (1 masks a)
  then show ?case by (simp add: emits_def)
next
  case (2 masks r parts a)
  have "emits raw a (vw raw r @ parts_bytes raw masks parts) (rbind (push_raw r a) (emit_parts masks parts))"
  proof (rule emits_rbind[OF emits_push_raw])
    fix a' assume "push_raw r a = Ok a'" "asm_ok raw a'"
    then show "emits raw a' (parts_bytes raw masks parts) (emit_parts masks parts a')"
      using 2 by simp
  qed (use 2 in simp_all)
  then show ?case by simp
next
  case (3 masks m parts a)
  then obtain mb where "mask_table_bytes masks m = Some mb" by auto
  with 3 push_mask_ok[of raw a mb] show ?case by (auto simp: emits_def)
qed

lemma emits_segs:
  "asm_ok raw a \<Longrightarrow> seg_ok raw masks sg \<Longrightarrow> emits raw a (seg_bytes raw masks sg) (emit_seg masks sg a)"
  "asm_ok raw a' \<Longrightarrow> segs_ok raw masks segs \<Longrightarrow> emits raw a' (segs_bytes raw masks segs) (emit_segs masks segs a')"
proof (induction masks sg a and masks segs a' rule: emit_seg_emit_segs.induct)
  case (1 masks r a)
  then show ?case by (simp add: emits_push_raw)
next
  case (2 masks field sz segs a)
  then show ?case
    using push_header_ok[OF 2(2), of field sz] by (simp add: segs_bytes_def emits_def)
next
  case (3 masks field sz parts a)
  then show ?case
    using push_header_ok[OF 3(1), of field sz] emits_parts[of raw "push_header field sz a" masks parts]
    by (simp add: emits_def)
next
  case (4 masks a)
  then show ?case by (simp add: emits_def)
next
  case (5 masks sg segs a)
  have "emits raw a (seg_bytes raw masks sg @ segs_bytes raw masks segs) (rbind (emit_seg masks sg a) (emit_segs masks segs))"
    by (rule emits_rbind) (use 5 in auto)
  then show ?case by simp
qed

end
