(* ===== verification/Ingest.thy ===== *)
theory Ingest
  imports WireFields Guard
begin

text \<open>
  The zero-copy OTLP parser, \<^verbatim>\<open>crates/archiv-ingest/src/otlp.rs\<close>, and the \<^verbatim>\<open>ParseStage\<close> of
  \<^verbatim>\<open>crates/archiv-ingest/src/lib.rs\<close>.  Each walker of the source is an instance of \<open>walk\<close> with the
  arms of its \<^verbatim>\<open>match\<close>; \<^verbatim>\<open>any_value_string\<close>, which returns from inside its loop, is a loop of
  its own.  On an error the callers drop the records read so far, so the model returns none.
\<close>

section \<open>Values\<close>

text \<open>\<^verbatim>\<open>AnyValue.string_value\<close>: the first field 1 of wire type 2.\<close>

function any_value_string_loop :: "cursor \<Rightarrow> (parse_error, brange option) result" where
  "any_value_string_loop c =
     (if cursor_done c then Ok None
      else rbind (cursor_tag c) (\<lambda>(tag, c1).
        if fst tag = 1 \<and> snd tag = 2 then rbind (cursor_len_range c1) (\<lambda>(r, _). Ok (Some r))
        else rbind (cursor_skip c1 (snd tag)) (\<lambda>c2. any_value_string_loop c2)))"
  by pat_completeness auto
termination
  by (relation "measure (\<lambda>c. cur_end c - cur_pos c)")
    (auto simp: moved_def dest!: cursor_tag_moved cursor_skip_moved)

declare any_value_string_loop.simps [simp del]

definition any_value_string :: "u8 list \<Rightarrow> brange \<Rightarrow> (parse_error, brange option) result" where
  "any_value_string buf window = any_value_string_loop (cursor_new buf window)"

text \<open>\<^verbatim>\<open>KeyValue\<close>: the locals \<open>key\<close> and \<open>value\<close>.\<close>

definition key_value_arms ::
  "u8 list \<Rightarrow> u32 \<Rightarrow> u8 \<Rightarrow> (parse_error, brange option \<times> brange option) arm" where
  "key_value_arms buf field wire =
     (if field = 1 \<and> wire = 2 then TakeLen (\<lambda>_ r _ (key, value). Ok (Some r, value))
      else if field = 2 \<and> wire = 2 then
        TakeLen (\<lambda>_ av _ (key, value). rbind (any_value_string buf av) (\<lambda>v. Ok (key, v)))
      else SkipField)"

definition parse_key_value :: "u8 list \<Rightarrow> brange \<Rightarrow> (parse_error, attr_view option) result" where
  "parse_key_value buf window =
     rbind (walk id (key_value_arms buf) (cursor_new buf window) (None, None)) (\<lambda>kv.
       Ok (case kv of
             (Some key, Some value) \<Rightarrow> Some \<lparr>av_key = key, av_value = value\<rparr>
           | _ \<Rightarrow> None))"

section \<open>Log records\<close>

text \<open>The locals of \<^verbatim>\<open>parse_log_record\<close>.\<close>

record log_locals =
  ll_body :: brange
  ll_trace_id :: "brange option"
  ll_severity_number :: "i32 option"
  ll_attrs :: "attr_view list"

definition log_record_arms :: "u8 list \<Rightarrow> u32 \<Rightarrow> u8 \<Rightarrow> (parse_error, log_locals) arm" where
  "log_record_arms buf field wire =
     (if field = 2 \<and> wire = 0 then
        TakeVarint (\<lambda>v s. Ok (s\<lparr>ll_severity_number := Some (ucast v)\<rparr>))
      else if field = 5 \<and> wire = 2 then
        TakeLen (\<lambda>_ av _ s. rbind (any_value_string buf av) (\<lambda>str.
          case str of Some r \<Rightarrow> Ok (s\<lparr>ll_body := r\<rparr>) | None \<Rightarrow> Ok s))
      else if field = 6 \<and> wire = 2 then
        TakeLen (\<lambda>_ kv _ s. rbind (parse_key_value buf kv) (\<lambda>attr.
          case attr of Some a \<Rightarrow> Ok (s\<lparr>ll_attrs := ll_attrs s @ [a]\<rparr>) | None \<Rightarrow> Ok s))
      else if field = 9 \<and> wire = 2 then
        TakeLen (\<lambda>_ r _ s. if rlen r = 16 \<or> rlen r = 32 then Ok (s\<lparr>ll_trace_id := Some r\<rparr>) else Ok s)
      else SkipField)"

definition parse_log_record ::
  "u8 list \<Rightarrow> brange \<Rightarrow> brange option \<Rightarrow> brange option \<Rightarrow> (parse_error, record_view) result" where
  "parse_log_record buf window namespace service_name =
     rbind (walk id (log_record_arms buf) (cursor_new buf window)
         \<lparr>ll_body = rng (rstart window) (rstart window), ll_trace_id = None, ll_severity_number = None,
          ll_attrs = []\<rparr>) (\<lambda>s.
       Ok \<lparr>rv_body = ll_body s, rv_trace_id = ll_trace_id s, rv_attrs = ll_attrs s,
           rv_severity_number = ll_severity_number s, rv_namespace = namespace,
           rv_service_name = service_name\<rparr>)"

section \<open>Containers\<close>

definition scope_logs_arms ::
  "u8 list \<Rightarrow> brange option \<Rightarrow> brange option \<Rightarrow> u32 \<Rightarrow> u8 \<Rightarrow> (parse_error, record_view list) arm" where
  "scope_logs_arms buf namespace service_name field wire =
     (if field = 2 \<and> wire = 2 then
        TakeLen (\<lambda>_ lr _ out. rbind (parse_log_record buf lr namespace service_name) (\<lambda>rv. Ok (out @ [rv])))
      else SkipField)"

definition parse_scope_logs ::
  "u8 list \<Rightarrow> brange \<Rightarrow> brange option \<Rightarrow> brange option \<Rightarrow> record_view list \<Rightarrow>
   (parse_error, record_view list) result" where
  "parse_scope_logs buf window namespace service_name out =
     walk id (scope_logs_arms buf namespace service_name) (cursor_new buf window) out"

record resource_attrs =
  ra_namespace :: "brange option"
  ra_service_name :: "brange option"

definition resource_attrs_arms :: "u8 list \<Rightarrow> u32 \<Rightarrow> u8 \<Rightarrow> (parse_error, resource_attrs) arm" where
  "resource_attrs_arms buf field wire =
     (if field = 1 \<and> wire = 2 then
        TakeLen (\<lambda>_ kv _ s. rbind (parse_key_value buf kv) (\<lambda>attr.
          case attr of
            None \<Rightarrow> Ok s
          | Some a \<Rightarrow>
              (case buf_get buf (rstart (av_key a)) (rend (av_key a)) of
                 None \<Rightarrow> Ok s
               | Some k \<Rightarrow>
                   if k = bytes ''k8s.namespace.name'' then Ok (s\<lparr>ra_namespace := Some (av_value a)\<rparr>)
                   else if k = bytes ''service.name'' then Ok (s\<lparr>ra_service_name := Some (av_value a)\<rparr>)
                   else Ok s)))
      else SkipField)"

definition parse_resource_attrs :: "u8 list \<Rightarrow> brange \<Rightarrow> (parse_error, resource_attrs) result" where
  "parse_resource_attrs buf window =
     walk id (resource_attrs_arms buf) (cursor_new buf window)
       \<lparr>ra_namespace = None, ra_service_name = None\<rparr>"

text \<open>The locals \<open>namespace\<close>, \<open>service_name\<close> and \<open>scopes\<close> of \<^verbatim>\<open>parse_resource_logs\<close>.\<close>

record resource_locals =
  rl_namespace :: "brange option"
  rl_service_name :: "brange option"
  rl_scopes :: "brange list"

definition resource_logs_arms :: "u8 list \<Rightarrow> u32 \<Rightarrow> u8 \<Rightarrow> (parse_error, resource_locals) arm" where
  "resource_logs_arms buf field wire =
     (if field = 1 \<and> wire = 2 then
        TakeLen (\<lambda>_ resource _ s. rbind (parse_resource_attrs buf resource) (\<lambda>attrs.
          Ok (s\<lparr>rl_namespace := ra_namespace attrs, rl_service_name := ra_service_name attrs\<rparr>)))
      else if field = 2 \<and> wire = 2 then
        TakeLen (\<lambda>_ r _ s. Ok (s\<lparr>rl_scopes := rl_scopes s @ [r]\<rparr>))
      else SkipField)"

text \<open>The \<^verbatim>\<open>for sl in scopes\<close> loop.\<close>

fun parse_scopes ::
  "u8 list \<Rightarrow> brange option \<Rightarrow> brange option \<Rightarrow> brange list \<Rightarrow> record_view list \<Rightarrow>
   (parse_error, record_view list) result" where
  "parse_scopes buf namespace service_name [] out = Ok out"
| "parse_scopes buf namespace service_name (sl # scopes) out =
     rbind (parse_scope_logs buf sl namespace service_name out)
       (parse_scopes buf namespace service_name scopes)"

definition parse_resource_logs ::
  "u8 list \<Rightarrow> brange \<Rightarrow> record_view list \<Rightarrow> (parse_error, record_view list) result" where
  "parse_resource_logs buf window out =
     rbind (walk id (resource_logs_arms buf) (cursor_new buf window)
         \<lparr>rl_namespace = None, rl_service_name = None, rl_scopes = []\<rparr>) (\<lambda>s.
       parse_scopes buf (rl_namespace s) (rl_service_name s) (rl_scopes s) out)"

definition request_arms :: "u8 list \<Rightarrow> u32 \<Rightarrow> u8 \<Rightarrow> (parse_error, record_view list) arm" where
  "request_arms buf field wire =
     (if field = 1 \<and> wire = 2 then TakeLen (\<lambda>_ rl _ out. parse_resource_logs buf rl out)
      else SkipField)"

definition parse_export_logs_request ::
  "u8 list \<Rightarrow> record_view list \<Rightarrow> (parse_error, record_view list) result" where
  "parse_export_logs_request buf out =
     walk id (request_arms buf) (cursor_new buf (rng 0 (length buf))) out"

section \<open>The parse stage\<close>

definition STAGE_PARSE :: stage_id where
  "STAGE_PARSE = StageId ''parse''"

definition parse_apply :: "unit \<Rightarrow> envelope \<Rightarrow> (unit \<times> envelope) \<times> (stage_error, unit) result" where
  "parse_apply self env =
     (case parse_export_logs_request (ev_raw env) [] of
        Ok records \<Rightarrow> ((self, env\<lparr>ev_records := records\<rparr>), Ok ())
      | Err _ \<Rightarrow> ((self, env), Err (Internal ''malformed OTLP logs payload''))
      | Panic \<Rightarrow> ((self, env), Panic))"

definition parse_stage :: "unit stage" where
  "parse_stage = \<lparr>st_id = STAGE_PARSE, st_apply = parse_apply\<rparr>"

interpretation parse: fail_open_stage parse_stage
  by unfold_locales
    (auto simp: parse_stage_def parse_apply_def STAGE_PARSE_def STAGE_SAMPLE_def split: result.splits)

section \<open>Every view lies in the buffer\<close>

definition win_ok :: "u8 list \<Rightarrow> brange \<Rightarrow> bool" where
  "win_ok buf w \<longleftrightarrow> in_window 0 (length buf) w \<and> length buf < 2 ^ 64"

abbreviation inside :: "brange \<Rightarrow> brange \<Rightarrow> bool" where
  "inside w r \<equiv> in_window (rstart w) (rend w) r"

lemma cursor_new_simps [simp]:
  "cur_buf (cursor_new buf w) = buf" "cur_pos (cursor_new buf w) = rstart w" "cur_end (cursor_new buf w) = rend w"
  by (simp_all add: cursor_new_def)

lemma cursor_ok_new [simp]: "cursor_ok (cursor_new buf w) \<longleftrightarrow> win_ok buf w"
  by (auto simp: cursor_ok_def win_ok_def in_window_def)

lemma rest_new [simp]: "rest (cursor_new buf w) = bslice buf (rstart w) (rend w)"
  by (simp add: rest_def)

lemma win_ok_inside: "win_ok buf w \<Longrightarrow> inside w r \<Longrightarrow> win_ok buf r"
  by (auto simp: win_ok_def in_window_def)

lemma inside_trans: "inside w v \<Longrightarrow> inside v r \<Longrightarrow> inside w r"
  by (auto simp: in_window_def)

lemma win_ok_whole: "length buf < 2 ^ 64 \<Longrightarrow> win_ok buf (rng 0 (length buf))"
  by (simp add: win_ok_def in_window_def)

lemma any_value_string_loop_post:
  "cursor_ok c \<Longrightarrow>
   post (any_value_string_loop c) (\<lambda>r. \<forall>x. r = Some x \<longrightarrow> in_window (cur_pos c) (cur_end c) x)"
proof (induction c rule: any_value_string_loop.induct)
  case (1 c)
  show ?case
  proof (cases "cursor_done c")
    case nd: False
    have "post (rbind (cursor_tag c) (\<lambda>(tag, c1).
        if fst tag = 1 \<and> snd tag = 2 then rbind (cursor_len_range c1) (\<lambda>(r, _). Ok (Some r))
        else rbind (cursor_skip c1 (snd tag)) (\<lambda>c2. any_value_string_loop c2)))
        (\<lambda>r. \<forall>x. r = Some x \<longrightarrow> in_window (cur_pos c) (cur_end c) x)"
    proof (rule post_cursor_tag[OF "1.prems"], simp only: prod.case)
      fix tag c1 assume t: "cursor_tag c = Ok (tag, c1)" and m: "moved c c1" "cursor_ok c1"
      show "post (if fst tag = 1 \<and> snd tag = 2 then rbind (cursor_len_range c1) (\<lambda>(r, _). Ok (Some r))
          else rbind (cursor_skip c1 (snd tag)) (\<lambda>c2. any_value_string_loop c2))
          (\<lambda>r. \<forall>x. r = Some x \<longrightarrow> in_window (cur_pos c) (cur_end c) x)"
      proof (cases "fst tag = 1 \<and> snd tag = 2")
        case True
        with m show ?thesis
          by (auto intro!: post_cursor_len_range simp: moved_def in_window_def)
      next
        case False
        have "post (rbind (cursor_skip c1 (snd tag)) (\<lambda>c2. any_value_string_loop c2))
            (\<lambda>r. \<forall>x. r = Some x \<longrightarrow> in_window (cur_pos c) (cur_end c) x)"
        proof (rule post_cursor_skip[OF m(2)])
          fix c2 assume s: "cursor_skip c1 (snd tag) = Ok c2" "moved c1 c2" "cursor_ok c2"
          show "post (any_value_string_loop c2) (\<lambda>r. \<forall>x. r = Some x \<longrightarrow> in_window (cur_pos c) (cur_end c) x)"
            using "1.IH"[OF nd t refl False s(1,3)] s m
            by (auto elim!: post_mono intro: in_window_mono simp: moved_def)
        qed
        then show ?thesis using False by (simp only: if_False)
      qed
    qed
    with nd show ?thesis by (simp add: any_value_string_loop.simps[of c])
  qed (simp add: any_value_string_loop.simps[of c])
qed

lemma any_value_string_post:
  "win_ok buf w \<Longrightarrow> post (any_value_string buf w) (\<lambda>r. \<forall>x. r = Some x \<longrightarrow> inside w x)"
  using any_value_string_loop_post[of "cursor_new buf w"] by (simp add: any_value_string_def)

text \<open>The rule for an invariant that does not depend on the position in the window.\<close>

lemma walk_inv:
  assumes w: "win_ok buf w" and J: "J s"
    and len: "\<And>f wi k ts r e s. arms f wi = TakeLen k \<Longrightarrow> J s \<Longrightarrow> inside w r \<Longrightarrow> win_ok buf r \<Longrightarrow> post (k ts r e s) J"
    and varint: "\<And>f wi k v s. arms f wi = TakeVarint k \<Longrightarrow> J s \<Longrightarrow> post (k v s) J"
  shows "post (walk conv arms (cursor_new buf w) s) J"
proof (rule walk_post[where I = "\<lambda>_. J" and a = "rstart w"])
  show "arms_keep arms (rstart w) (cur_end (cursor_new buf w)) (\<lambda>_. J)"
    by (rule arms_keepI) (auto intro: varint len win_ok_inside[OF w])
qed (use w J in simp_all)

definition attr_ok :: "brange \<Rightarrow> attr_view \<Rightarrow> bool" where
  "attr_ok w a \<longleftrightarrow> inside w (av_key a) \<and> inside w (av_value a)"

lemma attr_ok_trans: "inside w v \<Longrightarrow> attr_ok v a \<Longrightarrow> attr_ok w a"
  by (auto simp: attr_ok_def intro: inside_trans)

lemma parse_key_value_post:
  assumes "win_ok buf w"
  shows "post (parse_key_value buf w) (\<lambda>r. \<forall>a. r = Some a \<longrightarrow> attr_ok w a)"
proof -
  let ?J = "\<lambda>(key, value). (\<forall>k. key = Some k \<longrightarrow> inside w k) \<and> (\<forall>v. value = Some v \<longrightarrow> inside w v)"
  have "post (walk id (key_value_arms buf) (cursor_new buf w) (None, None)) ?J"
  proof (rule walk_inv[OF assms], goal_cases)
    case (2 f wi k ts r e s)
    then show ?case
      using any_value_string_post[OF 2(4)]
      by (auto simp: key_value_arms_def post_rbind split: if_splits elim!: post_mono
          dest!: inside_trans[OF 2(3)])
  qed (auto simp: key_value_arms_def split: if_splits)
  then show ?thesis
    by (auto simp: parse_key_value_def post_rbind attr_ok_def elim!: post_mono split: option.splits)
qed

text \<open>
  A record view is well formed when all its ranges are views of the buffer and the body does not
  touch an attribute value, also when one of them is empty.
\<close>

definition apart :: "brange \<Rightarrow> attr_view \<Rightarrow> bool" where
  "apart r a \<longleftrightarrow> rend (av_value a) < rstart r \<or> rend r < rstart (av_value a)"

definition record_ok :: "u8 list \<Rightarrow> record_view \<Rightarrow> bool" where
  "record_ok buf rv \<longleftrightarrow> (let B = rng 0 (length buf) in
     inside B (rv_body rv) \<and> list_all (attr_ok B) (rv_attrs rv) \<and> list_all (apart (rv_body rv)) (rv_attrs rv) \<and>
     (\<forall>r. rv_trace_id rv = Some r \<longrightarrow> inside B r \<and> (rlen r = 16 \<or> rlen r = 32)) \<and>
     (\<forall>r. rv_namespace rv = Some r \<longrightarrow> inside B r) \<and>
     (\<forall>r. rv_service_name rv = Some r \<longrightarrow> inside B r))"

abbreviation opt_inside :: "u8 list \<Rightarrow> brange option \<Rightarrow> bool" where
  "opt_inside buf x \<equiv> (\<forall>r. x = Some r \<longrightarrow> inside (rng 0 (length buf)) r)"

lemma win_ok_inside_buf: "win_ok buf w \<Longrightarrow> inside (rng 0 (length buf)) w"
  by (simp add: win_ok_def)

lemma parse_log_record_post:
  assumes w: "win_ok buf w" and ns: "opt_inside buf ns" "opt_inside buf svc"
  shows "post (parse_log_record buf w ns svc) (record_ok buf)"
proof -
  let ?B = "rng 0 (length buf)"
  let ?J = "\<lambda>s. inside ?B (ll_body s) \<and> list_all (attr_ok ?B) (ll_attrs s) \<and>
      (\<forall>r. ll_trace_id s = Some r \<longrightarrow> inside ?B r \<and> (rlen r = 16 \<or> rlen r = 32))"
  let ?A = "\<lambda>p s. rend (ll_body s) \<le> p \<and> list_all (\<lambda>a. rend (av_value a) \<le> p \<and> apart (ll_body s) a) (ll_attrs s)"
  let ?s = "\<lparr>ll_body = rng (rstart w) (rstart w), ll_trace_id = None, ll_severity_number = None, ll_attrs = []\<rparr>"
  have "post (walk id (log_record_arms buf) (cursor_new buf w) ?s) ((\<lambda>p s. ?J s \<and> ?A p s) (cur_end (cursor_new buf w)))"
  proof (rule walk_post[where a = "rstart w"])
    show "arms_keep (log_record_arms buf) (rstart w) (cur_end (cursor_new buf w)) (\<lambda>p s. ?J s \<and> ?A p s)"
    proof (rule arms_keepI, goal_cases)
      case (1 f wi k ts r s)
      have r: "win_ok buf r" using win_ok_inside[OF w] 1(4) by simp
      note B = inside_trans[OF win_ok_inside_buf[OF r]] attr_ok_trans[OF win_ok_inside_buf[OF r]]
      have body: "rend x \<le> rend r \<and> list_all (\<lambda>a. rend (av_value a) \<le> rend r \<and> apart x a) (ll_attrs s)"
        if "inside r x" for x
        using 1(2,4,5) that by (auto simp: in_window_def apart_def list_all_iff intro: order_trans)
      have attr: "rend (ll_body s) \<le> rend r \<and> rend (av_value a) \<le> rend r \<and> apart (ll_body s) a \<and>
          list_all (\<lambda>a. rend (av_value a) \<le> rend r \<and> apart (ll_body s) a) (ll_attrs s)"
        if "attr_ok r a" for a
        using 1(2,4,5) that by (auto simp: in_window_def attr_ok_def apart_def list_all_iff intro: order_trans)
      have same: "?A (rend r) s"
        using 1(2,4,5) by (auto simp: in_window_def list_all_iff intro: order_trans)
      have J: "?J s" using 1(2) by simp
      have P1: "post (any_value_string buf r) (\<lambda>x. \<forall>y. x = Some y \<longrightarrow>
          inside ?B y \<and> rend y \<le> rend r \<and> list_all (\<lambda>a. rend (av_value a) \<le> rend r \<and> apart y a) (ll_attrs s))"
        using any_value_string_post[OF r] by (rule post_mono) (use body B(1) in blast)
      have P2: "post (parse_key_value buf r) (\<lambda>x. \<forall>a. x = Some a \<longrightarrow>
          attr_ok ?B a \<and> rend (av_value a) \<le> rend r \<and> apart (ll_body s) a)"
        using parse_key_value_post[OF r] by (rule post_mono) (use attr B(2) in blast)
      show ?case
        using 1(1) P1 P2 win_ok_inside_buf[OF r] same J
        by (auto simp: log_record_arms_def post_rbind split: if_splits option.splits elim!: post_mono)
    next
      case (2 f wi k v p q s)
      then show ?case by (fastforce simp: log_record_arms_def list_all_iff split: if_splits)
    next
      case (3 p q s)
      then show ?case by (fastforce simp: list_all_iff)
    qed
  qed (use w in \<open>auto simp: win_ok_def in_window_def\<close>)
  then show ?thesis
    using ns by (auto simp: parse_log_record_def post_rbind record_ok_def Let_def list_all_iff elim!: post_mono)
qed

lemma parse_scope_logs_post:
  assumes w: "win_ok buf w" and ns: "opt_inside buf ns" "opt_inside buf svc" and out: "list_all (record_ok buf) out"
  shows "post (parse_scope_logs buf w ns svc out) (list_all (record_ok buf))"
  unfolding parse_scope_logs_def
proof (rule walk_inv[OF w, where J = "list_all (record_ok buf)"], goal_cases)
  case 1
  show ?case by (rule out)
next
  case (2 f wi k ts r e s)
  then show ?case
    using parse_log_record_post[OF 2(4) ns]
    by (auto simp: scope_logs_arms_def post_rbind split: if_splits elim!: post_mono)
qed (auto simp: scope_logs_arms_def split: if_splits)

lemma parse_resource_attrs_post:
  assumes w: "win_ok buf w"
  shows "post (parse_resource_attrs buf w) (\<lambda>s. opt_inside buf (ra_namespace s) \<and> opt_inside buf (ra_service_name s))"
  unfolding parse_resource_attrs_def
proof (rule walk_inv[OF w], goal_cases)
  case (2 f wi k ts r e s)
  then show ?case
    using parse_key_value_post[OF 2(4)]
    by (auto simp: resource_attrs_arms_def post_rbind attr_ok_def split: if_splits option.splits elim!: post_mono
        dest!: inside_trans[OF win_ok_inside_buf[OF 2(4)]])
qed (auto simp: resource_attrs_arms_def split: if_splits)

lemma parse_scopes_post:
  assumes "opt_inside buf ns" "opt_inside buf svc" "list_all (win_ok buf) ws" "list_all (record_ok buf) out"
  shows "post (parse_scopes buf ns svc ws out) (list_all (record_ok buf))"
  using assms
proof (induction ws arbitrary: out)
  case (Cons sl ws)
  then have "post (parse_scope_logs buf sl ns svc out) (list_all (record_ok buf))"
    by (intro parse_scope_logs_post) auto
  with Cons show ?case by (auto simp: post_rbind elim!: post_mono)
qed simp

lemma resource_logs_walk_post:
  assumes w: "win_ok buf w"
  shows "post (walk id (resource_logs_arms buf) (cursor_new buf w)
      \<lparr>rl_namespace = None, rl_service_name = None, rl_scopes = []\<rparr>)
    (\<lambda>s. opt_inside buf (rl_namespace s) \<and> opt_inside buf (rl_service_name s) \<and> list_all (win_ok buf) (rl_scopes s))"
proof (rule walk_inv[OF w], goal_cases)
  case (2 f wi k ts r e s)
  then show ?case
    using parse_resource_attrs_post[OF 2(4)]
    by (auto simp: resource_logs_arms_def post_rbind split: if_splits elim!: post_mono)
qed (auto simp: resource_logs_arms_def split: if_splits)

lemma parse_resource_logs_post:
  assumes w: "win_ok buf w" and out: "list_all (record_ok buf) out"
  shows "post (parse_resource_logs buf w out) (list_all (record_ok buf))"
  unfolding parse_resource_logs_def post_rbind
  by (rule post_mono[OF resource_logs_walk_post[OF w]]) (auto intro!: parse_scopes_post out)

lemma parse_request_post:
  assumes "length buf < 2 ^ 64"
  shows "post (parse_export_logs_request buf []) (list_all (record_ok buf))"
  unfolding parse_export_logs_request_def
proof (rule walk_inv[OF win_ok_whole[OF assms]], goal_cases)
  case (2 f wi k ts r e s)
  then show ?case
    using parse_resource_logs_post[OF 2(4)] by (auto simp: request_arms_def split: if_splits)
qed (auto simp: request_arms_def split: if_splits)

lemmas parse_eval = parse_export_logs_request_def request_arms_def parse_resource_logs_def resource_logs_arms_def
  parse_scope_logs_def scope_logs_arms_def parse_log_record_def log_record_arms_def any_value_string_def
  any_value_string_loop.simps

section \<open>Properties\<close>

text \<open>
  C10: the parser never panics, and every range of every record view it returns (body, trace id,
  attributes, namespace, service name) is in order and inside the request buffer; a trace id spans
  16 or 32 bytes, and the body does not touch an attribute value.
\<close>

theorem parse_views_in_bounds:
  assumes "length buf < 2 ^ 64"
  shows "parse_export_logs_request buf [] \<noteq> Panic \<and>
    (\<forall>rs. parse_export_logs_request buf [] = Ok rs \<longrightarrow> list_all (record_ok buf) rs)"
  using parse_request_post[OF assms] by (auto simp: post_iff)

theorem parse_views_in_bounds_witness:
  "parse_export_logs_request [10, 10, 18, 8, 18, 6, 42, 4, 10, 2, 104, 105] [] \<noteq> Panic"
  using parse_views_in_bounds[of "[10, 10, 18, 8, 18, 6, 42, 4, 10, 2, 104, 105]"] by simp

end
