(* ===== verification/Decode.thy ===== *)
theory Decode
  imports Ingest
begin

text \<open>
  A reference decoder for OTLP log requests that copies bytes instead of computing ranges, and the
  proof that the zero-copy parser refines it: the views the parser returns denote exactly the
  records the reference decoder reads, and one fails when the other does.  The reference is stated
  over the fields of a message and never mentions an offset.
\<close>

section \<open>The reference decoder\<close>

record log_rec =
  lr_body :: "u8 list"
  lr_trace :: "u8 list option"
  lr_attrs :: "(u8 list \<times> u8 list) list"
  lr_severity :: "i32 option"
  lr_namespace :: "u8 list option"
  lr_service :: "u8 list option"

fun map_opt :: "('a \<Rightarrow> 'b option) \<Rightarrow> 'a list \<Rightarrow> 'b list option" where
  "map_opt f [] = Some []"
| "map_opt f (x # xs) = Option.bind (f x) (\<lambda>y. map_option ((#) y) (map_opt f xs))"

definition is_len :: "u32 \<Rightarrow> field \<Rightarrow> bool" where
  "is_len n fd \<longleftrightarrow> fd_num fd = n \<and> fd_wire fd = 2"

text \<open>The payloads of the sub-messages in field \<open>n\<close>.\<close>

definition sub_messages :: "u32 \<Rightarrow> field list \<Rightarrow> u8 list list" where
  "sub_messages n fds = map payload (filter (is_len n) fds)"

text \<open>A fold over the fields of a message.\<close>

definition decode_fields :: "(field \<Rightarrow> 's \<Rightarrow> 's option) \<Rightarrow> u8 list \<Rightarrow> 's \<Rightarrow> 's option" where
  "decode_fields step bs s = Option.bind (wire_fields bs) (\<lambda>fds. fold_opt step fds s)"

text \<open>The first \<open>string_value\<close>; what follows it is not read.\<close>

function decode_any :: "u8 list \<Rightarrow> u8 list option option" where
  "decode_any bs =
     (if bs = [] then Some None
      else case lfield bs of
          None \<Rightarrow> None
        | Some fd \<Rightarrow> if is_len 1 fd then Some (Some (payload fd)) else decode_any (drop (length (fd_raw fd)) bs))"
  by pat_completeness auto
termination
  by (relation "measure length") (auto dest: lfield_raw(1))

declare decode_any.simps [simp del]

definition decode_kv_step :: "field \<Rightarrow> u8 list option \<times> u8 list option \<Rightarrow> (u8 list option \<times> u8 list option) option" where
  "decode_kv_step fd s =
     (if is_len 1 fd then Some (Some (payload fd), snd s)
      else if is_len 2 fd then map_option (\<lambda>v. (fst s, v)) (decode_any (payload fd))
      else Some s)"

definition decode_kv :: "u8 list \<Rightarrow> (u8 list \<times> u8 list) option option" where
  "decode_kv bs = map_option (\<lambda>s. case s of (Some k, Some v) \<Rightarrow> Some (k, v) | _ \<Rightarrow> None)
     (decode_fields decode_kv_step bs (None, None))"

definition decode_log_step :: "field \<Rightarrow> log_rec \<Rightarrow> log_rec option" where
  "decode_log_step fd s =
     (if fd_num fd = 2 \<and> fd_wire fd = 0 then Some (s\<lparr>lr_severity := Some (ucast (fd_val fd))\<rparr>)
      else if is_len 5 fd then map_option (\<lambda>v. case v of None \<Rightarrow> s | Some b \<Rightarrow> s\<lparr>lr_body := b\<rparr>) (decode_any (payload fd))
      else if is_len 6 fd then
        map_option (\<lambda>a. case a of None \<Rightarrow> s | Some kv \<Rightarrow> s\<lparr>lr_attrs := lr_attrs s @ [kv]\<rparr>) (decode_kv (payload fd))
      else if is_len 9 fd \<and> length (payload fd) \<in> {16, 32} then Some (s\<lparr>lr_trace := Some (payload fd)\<rparr>)
      else Some s)"

definition decode_log :: "u8 list option \<Rightarrow> u8 list option \<Rightarrow> u8 list \<Rightarrow> log_rec option" where
  "decode_log ns svc bs = decode_fields decode_log_step bs
     \<lparr>lr_body = [], lr_trace = None, lr_attrs = [], lr_severity = None, lr_namespace = ns, lr_service = svc\<rparr>"

definition decode_scope :: "u8 list option \<Rightarrow> u8 list option \<Rightarrow> u8 list \<Rightarrow> log_rec list option" where
  "decode_scope ns svc bs = Option.bind (wire_fields bs) (\<lambda>fds. map_opt (decode_log ns svc) (sub_messages 2 fds))"

definition decode_attrs_step :: "field \<Rightarrow> u8 list option \<times> u8 list option \<Rightarrow> (u8 list option \<times> u8 list option) option" where
  "decode_attrs_step fd s =
     (if is_len 1 fd then
        map_option (\<lambda>a. case a of
            None \<Rightarrow> s
          | Some (k, v) \<Rightarrow> if k = bytes ''k8s.namespace.name'' then (Some v, snd s)
              else if k = bytes ''service.name'' then (fst s, Some v) else s) (decode_kv (payload fd))
      else Some s)"

definition decode_attrs :: "u8 list \<Rightarrow> (u8 list option \<times> u8 list option) option" where
  "decode_attrs bs = decode_fields decode_attrs_step bs (None, None)"

text \<open>The last \<open>Resource\<close> of the message names the namespace and the service of all its records.\<close>

definition decode_resource_step :: "field \<Rightarrow> u8 list option \<times> u8 list option \<Rightarrow> (u8 list option \<times> u8 list option) option" where
  "decode_resource_step fd s = (if is_len 1 fd then decode_attrs (payload fd) else Some s)"

definition decode_resource :: "u8 list \<Rightarrow> log_rec list option" where
  "decode_resource bs = Option.bind (wire_fields bs) (\<lambda>fds.
     Option.bind (fold_opt decode_resource_step fds (None, None)) (\<lambda>(ns, svc).
       map_option concat (map_opt (decode_scope ns svc) (sub_messages 2 fds))))"

definition decode_request :: "u8 list \<Rightarrow> log_rec list option" where
  "decode_request bs = Option.bind (wire_fields bs) (\<lambda>fds. map_option concat (map_opt decode_resource (sub_messages 1 fds)))"

section \<open>What a view denotes\<close>

definition view_attr :: "u8 list \<Rightarrow> attr_view \<Rightarrow> u8 list \<times> u8 list" where
  "view_attr buf a = (vw buf (av_key a), vw buf (av_value a))"

definition view_record :: "u8 list \<Rightarrow> record_view \<Rightarrow> log_rec" where
  "view_record buf rv =
     \<lparr>lr_body = vw buf (rv_body rv), lr_trace = map_option (vw buf) (rv_trace_id rv),
      lr_attrs = map (view_attr buf) (rv_attrs rv), lr_severity = rv_severity_number rv,
      lr_namespace = map_option (vw buf) (rv_namespace rv),
      lr_service = map_option (vw buf) (rv_service_name rv)\<rparr>"

section \<open>The parser refines the reference\<close>

lemma fold_opt_collect:
  "fold_opt (\<lambda>fd out. if P fd then map_option ((@) out) (g (h fd)) else Some out) fds out =
    map_option (\<lambda>rs. out @ concat rs) (map_opt g (map h (filter P fds)))"
proof (induction fds arbitrary: out)
  case (Cons fd fds)
  show ?case
  proof (cases "P fd")
    case True
    show ?thesis
      by (cases "g (h fd)") (simp_all add: True Cons.IH option.map_comp o_def)
  qed (simp add: Cons.IH)
qed simp

lemma map_opt_concat_single:
  "map_option concat (map_opt (\<lambda>x. map_option (\<lambda>y. [y]) (f x)) xs) = map_opt f xs"
proof (induction xs)
  case (Cons x xs)
  show ?case
    by (cases "f x") (simp_all add: Cons.IH[symmetric] option.map_comp o_def)
qed simp

text \<open>Walks over a window of the buffer, field by field; the range of a field views its payload.\<close>

lemma walk_window:
  assumes w: "win_ok buf w" and m: "arms_match arms"
    and step: "\<And>fd p s r. r = rng (p + fd_off fd) (p + length (fd_raw fd)) \<Longrightarrow> win_ok buf r \<Longrightarrow>
      vw buf r = payload fd \<Longrightarrow> rlen r = length (payload fd) \<Longrightarrow>
      map_option den (ok_opt (case arms (fd_num fd) (fd_wire fd) of
          TakeLen k \<Rightarrow> k p r (rend r) s | TakeVarint k \<Rightarrow> k (fd_val fd) s | SkipField \<Rightarrow> Ok s)) =
        larm fd (den s)"
  shows "map_option den (ok_opt (walk conv arms (cursor_new buf w) s)) =
    decode_fields larm (vw buf w) (den s)"
proof -
  have "map_option den (ok_opt (field_step arms p fd s)) = larm fd (den s)"
    if fd: "lfield (fd_raw fd) = Some fd" "rstart w \<le> p" "p + length (fd_raw fd) \<le> rend w"
      "bslice buf p (p + length (fd_raw fd)) = fd_raw fd" for fd p s
  proof -
    have "fd_off fd \<le> length (fd_raw fd)" using lfield_raw(3)[OF fd(1)] .
    with fd w have "win_ok buf (rng (p + fd_off fd) (p + length (fd_raw fd)))"
      "vw buf (rng (p + fd_off fd) (p + length (fd_raw fd))) = payload fd"
      by (auto simp: win_ok_def in_window_def vw_def intro!: bslice_payload)
    then show ?thesis
      unfolding field_step_def using step[OF refl, of p fd s] by (simp add: rlen_def payload_def cong: arm.case_cong)
  qed
  then show ?thesis
    using walk_refines[of "cursor_new buf w" arms den larm conv s] w m by (simp add: vw_def decode_fields_def)
qed

lemma any_value_refines_loop:
  "cursor_ok c \<Longrightarrow> map_option (map_option (vw (cur_buf c))) (ok_opt (any_value_string_loop c)) = decode_any (rest c)"
proof (induction c rule: any_value_string_loop.induct)
  case (1 c)
  note ok = "1.prems"
  show ?case
  proof (cases "cursor_done c")
    case True
    then have "rest c = []" by (simp add: rest_def cursor_done_def)
    with True show ?thesis by (simp add: any_value_string_loop.simps[of c] decode_any.simps)
  next
    case nd: False
    then have ne: "rest c \<noteq> []" using length_rest[OF ok] ok by (auto simp: cursor_done_def)
    show ?thesis
    proof (cases "ltag (rest c)")
      case None
      then have "ok_opt (cursor_tag c) = None"
        using cursor_tag_rest[OF ok] by (cases "cursor_tag c") auto
      with nd ne None show ?thesis
        by (simp add: any_value_string_loop.simps[of c] decode_any.simps[of "rest c"] ok_opt_rbind lfield_def)
    next
      case (Some t)
      obtain f wi n where t: "t = ((f, wi), n)" by (cases t) auto
      have T: "cursor_tag c = Ok ((f, wi), ahead c n)" using Some t by (simp add: cursor_tag_rest[OF ok])
      have n: "n \<le> length (rest c)" using ltag_consumed[OF Some[unfolded t]] by simp
      note ok1 = cursor_ok_ahead[OF ok n]
      have sk: "ok_opt (cursor_skip (ahead c n) wi) = map_option (ahead (ahead c n)) (lskip (drop n (rest c)) wi)"
        by (rule option_eqI) (auto simp: ok_opt_Some cursor_skip_rest[OF ok1] rest_ahead)
      have lr: "ok_opt (cursor_len_range (ahead c n)) = map_option (\<lambda>(a, b).
          (rng (cur_pos c + n + a) (cur_pos c + n + b), ahead (ahead c n) b)) (llen (drop n (rest c)))"
        by (rule option_eqI) (auto simp: ok_opt_Some cursor_len_range_rest[OF ok1] rest_ahead)
      show ?thesis
      proof (cases "f = 1 \<and> wi = 2")
        case True
        then have f: "f = 1" and wi: "wi = 2" by simp_all
        show ?thesis
        proof (cases "llen (drop n (rest c))")
          case None
          with nd ne Some t T lr f wi show ?thesis
            by (simp add: any_value_string_loop.simps[of c] decode_any.simps[of "rest c"] ok_opt_rbind lfield_def lskip_def)
        next
          case (Some p)
          obtain a b where p: "p = (a, b)" by (cases p)
          have le: "n + a \<le> n + b" "n + b \<le> length (rest c)"
            using llen_consumed[of "drop n (rest c)" a b] Some p n by auto
          have "bslice (cur_buf c) (cur_pos c + (n + a)) (cur_pos c + (n + b)) = drop (n + a) (take (n + b) (rest c))"
            using le length_rest[OF ok] by (simp add: rest_def bslice_def drop_take min_def ac_simps)
          with nd ne \<open>ltag (rest c) = Some t\<close> t T lr f wi Some p show ?thesis
            by (simp add: any_value_string_loop.simps[of c] decode_any.simps[of "rest c"] ok_opt_rbind lfield_def
                lskip_def is_len_def vw_def payload_def add.assoc)
        qed
      next
        case False
        show ?thesis
        proof (cases "lskip (drop n (rest c)) wi")
          case None
          with nd ne Some t T sk False show ?thesis
            by (auto simp add: any_value_string_loop.simps[of c] decode_any.simps[of "rest c"] ok_opt_rbind lfield_def)
        next
          case (Some m)
          then have m: "n + m \<le> length (rest c)" using lskip_consumed[OF Some] n by simp
          have S: "cursor_skip (ahead c n) wi = Ok (ahead c (n + m))"
            using sk Some by (simp add: ok_opt_Some)
          have "map_option (map_option (vw (cur_buf c))) (ok_opt (any_value_string_loop (ahead c (n + m)))) =
              decode_any (drop (n + m) (rest c))"
            using "1.IH"[OF nd T refl, of "ahead c (n + m)"] False S cursor_ok_ahead[OF ok m] by (simp add: rest_ahead)
          with nd ne \<open>ltag (rest c) = Some t\<close> t T S False Some m show ?thesis
            by (auto simp add: any_value_string_loop.simps[of c] decode_any.simps[of "rest c"] lfield_def is_len_def min_def)
        qed
      qed
    qed
  qed
qed

lemma any_value_refines:
  "win_ok buf w \<Longrightarrow> map_option (map_option (vw buf)) (ok_opt (any_value_string buf w)) = decode_any (vw buf w)"
  using any_value_refines_loop[of "cursor_new buf w"] by (simp add: any_value_string_def vw_def)

lemma ok_opt_any_value:
  "win_ok buf w \<Longrightarrow> vw buf w = bs \<Longrightarrow>
    (case ok_opt (any_value_string buf w) of None \<Rightarrow> decode_any bs = None
      | Some v \<Rightarrow> decode_any bs = Some (map_option (vw buf) v))"
  using any_value_refines[of buf w] by (auto split: option.splits)

abbreviation view_pair :: "u8 list \<Rightarrow> brange option \<times> brange option \<Rightarrow> u8 list option \<times> u8 list option" where
  "view_pair buf p \<equiv> map_prod (map_option (vw buf)) (map_option (vw buf)) p"

lemma arms_match_parser:
  "arms_match (key_value_arms buf)" "arms_match (log_record_arms buf)"
  "arms_match (scope_logs_arms buf ns svc)" "arms_match (resource_attrs_arms buf)"
  "arms_match (resource_logs_arms buf)" "arms_match (request_arms buf)"
  by (auto simp: arms_match_def key_value_arms_def log_record_arms_def scope_logs_arms_def
      resource_attrs_arms_def resource_logs_arms_def request_arms_def)

lemma key_value_refines:
  assumes w: "win_ok buf w"
  shows "map_option (map_option (view_attr buf)) (ok_opt (parse_key_value buf w)) = decode_kv (vw buf w)"
proof -
  have W: "map_option (view_pair buf) (ok_opt (walk id (key_value_arms buf) (cursor_new buf w) (None, None))) =
      decode_fields decode_kv_step (vw buf w) (view_pair buf (None, None))"
  proof (rule walk_window[OF w arms_match_parser(1)])
    fix fd p r and s :: "brange option \<times> brange option"
    assume r: "win_ok buf r" "vw buf r = payload fd"
    show "map_option (view_pair buf) (ok_opt (case key_value_arms buf (fd_num fd) (fd_wire fd) of
          TakeLen k \<Rightarrow> k p r (rend r) s | TakeVarint k \<Rightarrow> k (fd_val fd) s | SkipField \<Rightarrow> Ok s)) =
        decode_kv_step fd (view_pair buf s)"
      using ok_opt_any_value[OF r] r(2)
      by (cases s) (auto simp: key_value_arms_def decode_kv_step_def is_len_def ok_opt_rbind split: option.splits)
  qed
  show ?thesis
    unfolding decode_kv_def W[simplified, symmetric] parse_key_value_def ok_opt_rbind
    by (cases "ok_opt (walk id (key_value_arms buf) (cursor_new buf w) (None, None))")
      (auto simp: view_attr_def split: option.splits)
qed

lemma ok_opt_key_value:
  "win_ok buf w \<Longrightarrow> vw buf w = bs \<Longrightarrow>
    (case ok_opt (parse_key_value buf w) of None \<Rightarrow> decode_kv bs = None
      | Some v \<Rightarrow> decode_kv bs = Some (map_option (view_attr buf) v))"
  using key_value_refines[of buf w] by (auto split: option.splits)

abbreviation log_den :: "u8 list \<Rightarrow> u8 list option \<Rightarrow> u8 list option \<Rightarrow> log_locals \<Rightarrow> log_rec" where
  "log_den buf ns svc s \<equiv>
     \<lparr>lr_body = vw buf (ll_body s), lr_trace = map_option (vw buf) (ll_trace_id s),
      lr_attrs = map (view_attr buf) (ll_attrs s), lr_severity = ll_severity_number s,
      lr_namespace = ns, lr_service = svc\<rparr>"

lemma log_record_refines:
  assumes w: "win_ok buf w"
  shows "map_option (view_record buf) (ok_opt (parse_log_record buf w ns svc)) =
    decode_log (map_option (vw buf) ns) (map_option (vw buf) svc) (vw buf w)"
proof -
  let ?d = "log_den buf (map_option (vw buf) ns) (map_option (vw buf) svc)"
  let ?s = "\<lparr>ll_body = rng (rstart w) (rstart w), ll_trace_id = None, ll_severity_number = None, ll_attrs = []\<rparr>"
  have W: "map_option ?d (ok_opt (walk id (log_record_arms buf) (cursor_new buf w) ?s)) =
      decode_fields decode_log_step (vw buf w) (?d ?s)"
  proof (rule walk_window[OF w arms_match_parser(2)])
    fix fd p r and s :: log_locals
    assume r: "win_ok buf r" "vw buf r = payload fd" and len: "rlen r = length (payload fd)"
    show "map_option ?d (ok_opt (case log_record_arms buf (fd_num fd) (fd_wire fd) of
          TakeLen k \<Rightarrow> k p r (rend r) s | TakeVarint k \<Rightarrow> k (fd_val fd) s | SkipField \<Rightarrow> Ok s)) =
        decode_log_step fd (?d s)"
      using ok_opt_any_value[OF r] ok_opt_key_value[OF r] r(2) len
      by (auto simp: log_record_arms_def decode_log_step_def is_len_def ok_opt_rbind split: option.splits)
  qed
  have "?d ?s = \<lparr>lr_body = [], lr_trace = None, lr_attrs = [], lr_severity = None,
      lr_namespace = map_option (vw buf) ns, lr_service = map_option (vw buf) svc\<rparr>"
    by (simp add: vw_def)
  then show ?thesis
    unfolding decode_log_def using W
    by (cases "ok_opt (walk id (log_record_arms buf) (cursor_new buf w) ?s)")
      (auto simp: parse_log_record_def ok_opt_rbind view_record_def)
qed

text \<open>A walk that appends what it finds in the sub-messages \<open>n\<close>.\<close>

lemma collect_refines:
  assumes w: "win_ok buf w" and m: "arms_match arms"
    and arm: "\<And>f wi. arms f wi = (if f = n \<and> wi = 2 then TakeLen (\<lambda>ts r e out. k r out) else SkipField)"
    and k: "\<And>r out. win_ok buf r \<Longrightarrow> map_option (map (view_record buf)) (ok_opt (k r out)) =
      map_option (\<lambda>rs. map (view_record buf) out @ rs) (g (vw buf r))"
  shows "map_option (map (view_record buf)) (ok_opt (walk conv arms (cursor_new buf w) out)) =
    map_option (\<lambda>rs. map (view_record buf) out @ rs)
      (Option.bind (wire_fields (vw buf w)) (\<lambda>fds. map_option concat (map_opt g (sub_messages n fds))))"
proof -
  let ?step = "\<lambda>fd out. if is_len n fd then map_option ((@) out) (g (payload fd)) else Some out"
  have "map_option (map (view_record buf)) (ok_opt (walk conv arms (cursor_new buf w) out)) =
      decode_fields ?step (vw buf w) (map (view_record buf) out)"
    by (rule walk_window[OF w m]) (auto simp: arm is_len_def k)
  then show ?thesis
    by (simp add: decode_fields_def fold_opt_collect sub_messages_def)
      (cases "wire_fields (vw buf w)", simp_all add: option.map_comp o_def)
qed

lemma scope_logs_refines:
  assumes "win_ok buf w"
  shows "map_option (map (view_record buf)) (ok_opt (parse_scope_logs buf w ns svc out)) =
    map_option (\<lambda>rs. map (view_record buf) out @ rs)
      (decode_scope (map_option (vw buf) ns) (map_option (vw buf) svc) (vw buf w))"
proof -
  let ?g = "\<lambda>bs. map_option (\<lambda>r. [r]) (decode_log (map_option (vw buf) ns) (map_option (vw buf) svc) bs)"
  let ?k = "\<lambda>r out. rbind (parse_log_record buf r ns svc) (\<lambda>rv. Ok (out @ [rv]))"
  have "map_option (map (view_record buf)) (ok_opt (parse_scope_logs buf w ns svc out)) =
      map_option (\<lambda>rs. map (view_record buf) out @ rs)
        (Option.bind (wire_fields (vw buf w)) (\<lambda>fds. map_option concat (map_opt ?g (sub_messages 2 fds))))"
    unfolding parse_scope_logs_def
  proof (rule collect_refines[OF assms arms_match_parser(3), where k = ?k])
    fix r out assume "win_ok buf r"
    from log_record_refines[OF this, symmetric]
    show "map_option (map (view_record buf)) (ok_opt (?k r out)) =
        map_option (\<lambda>rs. map (view_record buf) out @ rs) (?g (vw buf r))"
      by (cases "ok_opt (parse_log_record buf r ns svc)") (simp_all add: ok_opt_rbind)
  qed (simp add: scope_logs_arms_def)
  then show ?thesis by (simp add: decode_scope_def map_opt_concat_single)
qed

lemma resource_attrs_refines:
  assumes w: "win_ok buf w"
  shows "map_option (\<lambda>s. (map_option (vw buf) (ra_namespace s), map_option (vw buf) (ra_service_name s)))
      (ok_opt (parse_resource_attrs buf w)) = decode_attrs (vw buf w)"
proof -
  let ?d = "\<lambda>s. (map_option (vw buf) (ra_namespace s), map_option (vw buf) (ra_service_name s))"
  have "map_option ?d (ok_opt (parse_resource_attrs buf w)) =
      decode_fields decode_attrs_step (vw buf w) (?d \<lparr>ra_namespace = None, ra_service_name = None\<rparr>)"
    unfolding parse_resource_attrs_def
  proof (rule walk_window[OF w arms_match_parser(4)])
    fix fd p r and s :: resource_attrs
    assume r: "win_ok buf r" "vw buf r = payload fd"
    have "buf_get buf (rstart (av_key a)) (rend (av_key a)) = Some (vw buf (av_key a))"
      if "ok_opt (parse_key_value buf r) = Some (Some a)" for a
      using parse_key_value_post[OF r(1)] that win_ok_inside_buf[OF r(1)]
      by (auto simp: ok_opt_Some attr_ok_def in_window_def buf_get_def vw_def)
    then show "map_option ?d (ok_opt (case resource_attrs_arms buf (fd_num fd) (fd_wire fd) of
          TakeLen k \<Rightarrow> k p r (rend r) s | TakeVarint k \<Rightarrow> k (fd_val fd) s | SkipField \<Rightarrow> Ok s)) =
        decode_attrs_step fd (?d s)"
      using ok_opt_key_value[OF r]
      by (cases "ok_opt (parse_key_value buf r)")
        (auto simp: resource_attrs_arms_def decode_attrs_step_def is_len_def ok_opt_rbind view_attr_def split: option.splits)
  qed
  then show ?thesis by (simp add: decode_attrs_def)
qed

lemma scopes_refines:
  assumes "list_all (win_ok buf) ws"
  shows "map_option (map (view_record buf)) (ok_opt (parse_scopes buf ns svc ws out)) =
    map_option (\<lambda>rs. map (view_record buf) out @ concat rs)
      (map_opt (decode_scope (map_option (vw buf) ns) (map_option (vw buf) svc)) (map (vw buf) ws))"
  using assms
proof (induction ws arbitrary: out)
  case (Cons sl ws)
  then have "win_ok buf sl" by simp
  from scope_logs_refines[OF this, of ns svc out] Cons show ?case
    by (cases "ok_opt (parse_scope_logs buf sl ns svc out)";
        cases "decode_scope (map_option (vw buf) ns) (map_option (vw buf) svc) (vw buf sl)")
      (auto simp: ok_opt_rbind option.map_comp o_def split: option.splits)
qed simp

abbreviation resource_den :: "u8 list \<Rightarrow> resource_locals \<Rightarrow> (u8 list option \<times> u8 list option) \<times> u8 list list" where
  "resource_den buf s \<equiv>
     ((map_option (vw buf) (rl_namespace s), map_option (vw buf) (rl_service_name s)), map (vw buf) (rl_scopes s))"

text \<open>Collecting the scopes beside the attributes.\<close>

lemma resource_step_split:
  "fold_opt (\<lambda>fd (s, ws). map_option (\<lambda>s. (s, if is_len 2 fd then ws @ [payload fd] else ws)) (decode_resource_step fd s))
      fds (s, ws) =
    map_option (\<lambda>s'. (s', ws @ sub_messages 2 fds)) (fold_opt decode_resource_step fds s)"
proof (induction fds arbitrary: s ws)
  case (Cons fd fds)
  then show ?case
    by (cases "decode_resource_step fd s") (simp_all add: sub_messages_def)
qed (simp add: sub_messages_def)

lemma resource_logs_refines:
  assumes w: "win_ok buf w"
  shows "map_option (map (view_record buf)) (ok_opt (parse_resource_logs buf w out)) =
    map_option (\<lambda>rs. map (view_record buf) out @ rs) (decode_resource (vw buf w))"
proof -
  let ?s = "\<lparr>rl_namespace = None, rl_service_name = None, rl_scopes = []\<rparr>"
  let ?step = "\<lambda>fd (s, ws). map_option (\<lambda>s. (s, if is_len 2 fd then ws @ [payload fd] else ws)) (decode_resource_step fd s)"
  have "map_option (resource_den buf) (ok_opt (walk id (resource_logs_arms buf) (cursor_new buf w) ?s)) =
      decode_fields ?step (vw buf w) (resource_den buf ?s)"
  proof (rule walk_window[OF w arms_match_parser(5)])
    fix fd p r and s :: resource_locals
    assume r: "win_ok buf r" "vw buf r = payload fd"
    show "map_option (resource_den buf) (ok_opt (case resource_logs_arms buf (fd_num fd) (fd_wire fd) of
          TakeLen k \<Rightarrow> k p r (rend r) s | TakeVarint k \<Rightarrow> k (fd_val fd) s | SkipField \<Rightarrow> Ok s)) =
        ?step fd (resource_den buf s)"
      using resource_attrs_refines[OF r(1), symmetric] r(2)
      by (cases "ok_opt (parse_resource_attrs buf r)")
        (auto simp: resource_logs_arms_def decode_resource_step_def is_len_def ok_opt_rbind)
  qed
  then have W: "map_option (resource_den buf) (ok_opt (walk id (resource_logs_arms buf) (cursor_new buf w) ?s)) =
      Option.bind (wire_fields (vw buf w)) (\<lambda>fds.
        map_option (\<lambda>s'. (s', sub_messages 2 fds)) (fold_opt decode_resource_step fds (None, None)))"
    by (simp add: decode_fields_def resource_step_split)
  have scopes: "list_all (win_ok buf) (rl_scopes s)"
    if "ok_opt (walk id (resource_logs_arms buf) (cursor_new buf w) ?s) = Some s" for s
    using resource_logs_walk_post[OF w] that by (simp add: ok_opt_Some)
  show ?thesis
  proof (cases "ok_opt (walk id (resource_logs_arms buf) (cursor_new buf w) ?s)")
    case None
    with W show ?thesis
      by (auto simp: parse_resource_logs_def ok_opt_rbind decode_resource_def split: bind_splits)
  next
    case (Some s)
    with W have "Option.bind (wire_fields (vw buf w)) (\<lambda>fds.
        map_option (\<lambda>s'. (s', sub_messages 2 fds)) (fold_opt decode_resource_step fds (None, None))) =
        Some (resource_den buf s)" by simp
    then obtain fds where "wire_fields (vw buf w) = Some fds"
      "fold_opt decode_resource_step fds (None, None) = Some (fst (resource_den buf s))"
      "sub_messages 2 fds = snd (resource_den buf s)"
      by (auto simp: bind_eq_Some_conv)
    with Some scopes_refines[OF scopes[OF Some]] show ?thesis
      by (simp add: parse_resource_logs_def ok_opt_rbind decode_resource_def option.map_comp o_def)
  qed
qed

lemma parser_refines:
  assumes "length buf < 2 ^ 64"
  shows "map_option (map (view_record buf)) (ok_opt (parse_export_logs_request buf [])) = decode_request buf"
proof -
  have "map_option (map (view_record buf)) (ok_opt (parse_export_logs_request buf [])) =
      map_option (\<lambda>rs. map (view_record buf) [] @ rs)
        (Option.bind (wire_fields (vw buf (rng 0 (length buf))))
          (\<lambda>fds. map_option concat (map_opt decode_resource (sub_messages 1 fds))))"
    unfolding parse_export_logs_request_def
    by (rule collect_refines[OF win_ok_whole[OF assms] arms_match_parser(6), where k = "\<lambda>r out. parse_resource_logs buf r out"])
      (simp_all add: request_arms_def resource_logs_refines)
  then show ?thesis by (simp add: decode_request_def vw_def option.map_ident)
qed

section \<open>Properties\<close>

text \<open>
  C3: the zero-copy parser refines the reference decoder: on every request it succeeds exactly when
  the decoder does, and the record views it returns denote, in order, the records decoded.
\<close>

theorem parse_refines_decode:
  assumes "length buf < 2 ^ 64"
  shows "map_option (map (view_record buf)) (ok_opt (parse_export_logs_request buf [])) = decode_request buf"
  by (rule parser_refines[OF assms])

text \<open>A request with one record whose body is the string \<^verbatim>\<open>hi\<close>.\<close>

definition hi_request :: "u8 list" where
  "hi_request = [10, 10, 18, 8, 18, 6, 42, 4, 10, 2, 104, 105]"

theorem parse_refines_decode_witness:
  "map_option (map (view_record hi_request)) (ok_opt (parse_export_logs_request hi_request [])) = decode_request hi_request"
  by (rule parse_refines_decode) (simp add: hi_request_def)

end
