(* ===== verification/Govern.thy ===== *)
theory Govern
  imports Segments Decode
begin

text \<open>
  A reference for the governed request, stated on the fields of each message and on the bytes they
  become, and the proof that the builders and the assembler compute it.  The reference knows neither
  segments nor runs of verbatim bytes: a field is left as it is, removed or replaced.
\<close>

section \<open>The reference\<close>

text \<open>
  An edit of a field at offset \<open>p\<close>: \<open>None\<close> leaves it, \<open>Some bs\<close> puts \<open>bs\<close> in its place; \<open>x\<close> is
  threaded from field to field (the record index).
\<close>

type_synonym 'x field_edit = "nat \<Rightarrow> field \<Rightarrow> 'x \<Rightarrow> ('x \<times> u8 list option) option"

fun gov_run :: "'x field_edit \<Rightarrow> nat \<Rightarrow> field list \<Rightarrow> 'x \<Rightarrow> ('x \<times> bool \<times> u8 list) option" where
  "gov_run f p [] x = Some (x, False, [])"
| "gov_run f p (fd # fds) x =
     Option.bind (f p fd x) (\<lambda>(x, out).
       map_option (\<lambda>(x, ch, bs). (x, out \<noteq> None \<or> ch, (case out of None \<Rightarrow> fd_raw fd | Some b \<Rightarrow> b) @ bs))
         (gov_run f (p + length (fd_raw fd)) fds x))"

text \<open>A message window becomes \<open>None\<close> when none of its fields changed.\<close>

definition gov_window :: "'x field_edit \<Rightarrow> u8 list \<Rightarrow> brange \<Rightarrow> 'x \<Rightarrow> ('x \<times> u8 list option) option" where
  "gov_window f raw w x =
     Option.bind (wire_fields (vw raw w)) (\<lambda>fds.
       map_option (\<lambda>(x, ch, bs). (x, if ch then Some bs else None)) (gov_run f (rstart w) fds x))"

text \<open>The range of the payload of the field \<open>fd\<close> at \<open>p\<close>.\<close>

definition frange :: "nat \<Rightarrow> field \<Rightarrow> brange" where
  "frange p fd = rng (p + fd_off fd) (p + length (fd_raw fd))"

text \<open>A string with its spans replaced by their masks.\<close>

fun spliced :: "u8 list \<Rightarrow> mask_table \<Rightarrow> nat \<Rightarrow> (brange \<times> mask_id) list \<Rightarrow> nat \<Rightarrow> u8 list" where
  "spliced raw masks cur [] e = bslice raw cur e"
| "spliced raw masks cur ((r, m) # spans) e =
     bslice raw cur (rstart r) @ part_bytes raw masks (PMask m) @ spliced raw masks (rend r) spans e"

definition gov_string :: "u8 list \<Rightarrow> envelope \<Rightarrow> mask_table \<Rightarrow> nat \<Rightarrow> brange \<Rightarrow> u8 list option option" where
  "gov_string raw env masks idx w =
     (let spans = effective_spans env idx w in
      if spans = [] then Some None
      else if list_all (\<lambda>(r, m). mask_table_bytes masks m \<noteq> None) spans
           then Some (Some (spliced raw masks (rstart w) spans (rend w)))
           else None)"

text \<open>Replacing the payload of the sub-messages \<open>n\<close>.\<close>

definition edit_len :: "u32 \<Rightarrow> (brange \<Rightarrow> u8 list option option) \<Rightarrow> unit field_edit" where
  "edit_len n g p fd u =
     (if is_len n fd then map_option (\<lambda>o'. (u, map_option (len_field n) o')) (g (frange p fd)) else Some (u, None))"

definition gov_any :: "u8 list \<Rightarrow> envelope \<Rightarrow> mask_table \<Rightarrow> nat \<Rightarrow> brange \<Rightarrow> u8 list option option" where
  "gov_any raw env masks idx w = map_option snd (gov_window (edit_len 1 (gov_string raw env masks idx)) raw w ())"

definition gov_kv :: "u8 list \<Rightarrow> envelope \<Rightarrow> mask_table \<Rightarrow> nat \<Rightarrow> brange \<Rightarrow> u8 list option option" where
  "gov_kv raw env masks idx w = map_option snd (gov_window (edit_len 2 (gov_any raw env masks idx)) raw w ())"

definition edit_record :: "u8 list \<Rightarrow> envelope \<Rightarrow> mask_table \<Rightarrow> nat \<Rightarrow> unit field_edit" where
  "edit_record raw env masks idx p fd u =
     (if is_len 5 fd then edit_len 5 (gov_any raw env masks idx) p fd u
      else edit_len 6 (gov_kv raw env masks idx) p fd u)"

definition gov_record :: "u8 list \<Rightarrow> envelope \<Rightarrow> mask_table \<Rightarrow> nat \<Rightarrow> brange \<Rightarrow> u8 list option option" where
  "gov_record raw env masks idx w = map_option snd (gov_window (edit_record raw env masks idx) raw w ())"

text \<open>The containers thread the index of the next record; a dropped record is removed.\<close>

definition edit_child :: "u32 \<Rightarrow> (brange \<Rightarrow> nat \<Rightarrow> (nat \<times> u8 list option) option) \<Rightarrow> nat field_edit" where
  "edit_child n g p fd i =
     (if is_len n fd then map_option (\<lambda>(j, o'). (j, map_option (len_field n) o')) (g (frange p fd) i) else Some (i, None))"

definition edit_scope :: "u8 list \<Rightarrow> envelope \<Rightarrow> mask_table \<Rightarrow> nat field_edit" where
  "edit_scope raw env masks p fd i =
     (if is_len 2 fd \<and> sampling_verdict (ev_decisions env) i = Drop then Some (i + 1, Some [])
      else edit_child 2 (\<lambda>w i. map_option (Pair (i + 1)) (gov_record raw env masks i w)) p fd i)"

definition gov_scope :: "u8 list \<Rightarrow> envelope \<Rightarrow> mask_table \<Rightarrow> brange \<Rightarrow> nat \<Rightarrow> (nat \<times> u8 list option) option" where
  "gov_scope raw env masks w i = gov_window (edit_scope raw env masks) raw w i"

definition gov_resource :: "u8 list \<Rightarrow> envelope \<Rightarrow> mask_table \<Rightarrow> brange \<Rightarrow> nat \<Rightarrow> (nat \<times> u8 list option) option" where
  "gov_resource raw env masks w i = gov_window (edit_child 2 (gov_scope raw env masks)) raw w i"

definition gov_request :: "u8 list \<Rightarrow> envelope \<Rightarrow> mask_table \<Rightarrow> (nat \<times> u8 list option) option" where
  "gov_request raw env masks = gov_window (edit_child 1 (gov_resource raw env masks)) raw (rng 0 (length raw)) 0"

section \<open>A builder walk performs the edits\<close>

definition edits_out :: "u8 list \<Rightarrow> mask_table \<Rightarrow> edits \<Rightarrow> nat \<Rightarrow> u8 list" where
  "edits_out raw masks e p = segs_bytes raw masks (ed_segs e) @ bslice raw (ed_run e) p"

definition edits_ok :: "u8 list \<Rightarrow> mask_table \<Rightarrow> edits \<Rightarrow> nat \<Rightarrow> bool" where
  "edits_ok raw masks e p \<longleftrightarrow> segs_ok raw masks (ed_segs e) \<and> ed_run e \<le> p \<and> p \<le> length raw"

text \<open>\<open>performs\<close>: a step of the walk from \<open>e\<close> has the effect of the edit \<open>o\<close> on the field at \<open>p\<close>.\<close>

definition performs ::
  "u8 list \<Rightarrow> mask_table \<Rightarrow> ('x \<Rightarrow> edits \<Rightarrow> 's) \<Rightarrow> nat \<Rightarrow> field \<Rightarrow> edits \<Rightarrow> ('e, 's) result \<Rightarrow>
   ('x \<times> u8 list option) option \<Rightarrow> bool" where
  "performs raw masks mk p fd e r out \<longleftrightarrow>
     (case out of
        None \<Rightarrow> ok_opt r = None
      | Some (x, None) \<Rightarrow> r = Ok (mk x e)
      | Some (x, Some bs) \<Rightarrow> (\<exists>new. r = Ok (mk x (splice_child p (p + length (fd_raw fd)) new e)) \<and>
          segs_ok raw masks new \<and> segs_bytes raw masks new = bs))"

lemma performs_skip: "performs raw masks (\<lambda>_ e. e) p fd e (Ok e) (Some (x, None))"
  by (simp add: performs_def)

lemma splice_child_out:
  assumes "edits_ok raw masks e p" "segs_ok raw masks new" "p \<le> q" "q \<le> length raw"
  shows "edits_ok raw masks (splice_child p q new e) q"
    "edits_out raw masks (splice_child p q new e) q = edits_out raw masks e p @ segs_bytes raw masks new"
  using assms by (auto simp: splice_child_def edits_ok_def edits_out_def in_window_def vw_def)

lemma edits_out_step:
  "edits_ok raw masks e p \<Longrightarrow> p \<le> q \<Longrightarrow> edits_out raw masks e q = edits_out raw masks e p @ bslice raw p q"
  by (simp add: edits_out_def edits_ok_def bslice_append)

text \<open>The remaining fields of a window, from \<open>p\<close> to its end \<open>b\<close>.\<close>

lemma gov_run_rel:
  assumes "\<And>fd p x e. fd \<in> set fds \<Longrightarrow> a \<le> p \<Longrightarrow> p + length (fd_raw fd) \<le> b \<Longrightarrow>
      bslice raw p (p + length (fd_raw fd)) = fd_raw fd \<Longrightarrow>
      performs raw masks mk p fd e (field_step arms p fd (mk x e)) (f p fd x)"
    and "bslice raw p b = concat (map fd_raw fds)" "a \<le> p" "p \<le> b" "b \<le> length raw"
    and "edits_ok raw masks e p"
  shows "case gov_run f p fds x of
      None \<Rightarrow> ok_opt (run_fields arms p fds (mk x e)) = None
    | Some (x', ch, bs) \<Rightarrow> (\<exists>e'. run_fields arms p fds (mk x e) = Ok (mk x' e') \<and> edits_ok raw masks e' b \<and>
        edits_out raw masks e' b = edits_out raw masks e p @ bs \<and> ed_changed e' = (ed_changed e \<or> ch))"
  using assms
proof (induction fds arbitrary: p x e)
  case Nil
  then have "p = b" using length_bslice[of b raw p] by simp
  with Nil show ?case by (auto intro: exI[of _ e])
next
  case (Cons fd fds)
  let ?q = "p + length (fd_raw fd)"
  have len: "b - p = length (fd_raw fd) + length (concat (map fd_raw fds))"
    using Cons.prems(2,5) length_bslice[of b raw p] by simp
  have q: "?q \<le> b" using len Cons.prems(4) by simp
  have "bslice raw p ?q @ bslice raw ?q b = fd_raw fd @ concat (map fd_raw fds)"
    using q Cons.prems(2) by (simp add: bslice_append)
  moreover have "length (bslice raw p ?q) = length (fd_raw fd)"
    using q Cons.prems(5) by (simp add: length_bslice)
  ultimately have sl: "bslice raw p ?q = fd_raw fd" "bslice raw ?q b = concat (map fd_raw fds)"
    by (simp_all add: append_eq_append_conv)
  have st: "performs raw masks mk p fd e (field_step arms p fd (mk x e)) (f p fd x)"
    by (rule Cons.prems(1)) (use q sl Cons.prems in auto)
  have IH: "case gov_run f ?q fds x' of
      None \<Rightarrow> ok_opt (run_fields arms ?q fds (mk x' e')) = None
    | Some (x'', ch, bs) \<Rightarrow> (\<exists>e''. run_fields arms ?q fds (mk x' e') = Ok (mk x'' e'') \<and> edits_ok raw masks e'' b \<and>
        edits_out raw masks e'' b = edits_out raw masks e' ?q @ bs \<and> ed_changed e'' = (ed_changed e' \<or> ch))"
    if "edits_ok raw masks e' ?q" for x' e'
    by (rule Cons.IH) (use q sl Cons.prems that in auto)
  show ?case
  proof (cases "f p fd x")
    case None
    with st show ?thesis by (simp add: performs_def ok_opt_rbind)
  next
    case (Some xo)
    obtain x' out where xo: "xo = (x', out)" by (cases xo)
    have "\<exists>e'. field_step arms p fd (mk x e) = Ok (mk x' e') \<and> edits_ok raw masks e' ?q \<and>
        edits_out raw masks e' ?q = edits_out raw masks e p @ (case out of None \<Rightarrow> fd_raw fd | Some b \<Rightarrow> b) \<and>
        ed_changed e' = (ed_changed e \<or> out \<noteq> None)"
    proof (cases out)
      case None
      have "edits_ok raw masks e ?q" using Cons.prems(5,6) q by (auto simp: edits_ok_def)
      with None st Some xo sl Cons.prems(6) show ?thesis
        by (intro exI[of _ e]) (simp add: performs_def edits_out_step[of raw masks e p ?q])
    next
      case (Some bs)
      with st \<open>f p fd x = Some xo\<close> xo obtain new where
        "field_step arms p fd (mk x e) = Ok (mk x' (splice_child p ?q new e))" "segs_ok raw masks new"
        "segs_bytes raw masks new = bs" by (auto simp: performs_def)
      with splice_child_out[OF Cons.prems(6), of new ?q] Some q Cons.prems(5) show ?thesis
        by (intro exI[of _ "splice_child p ?q new e"]) (simp add: splice_child_def)
    qed
    then obtain e' where e': "field_step arms p fd (mk x e) = Ok (mk x' e')" "edits_ok raw masks e' ?q"
      "edits_out raw masks e' ?q = edits_out raw masks e p @ (case out of None \<Rightarrow> fd_raw fd | Some b \<Rightarrow> b)"
      "ed_changed e' = (ed_changed e \<or> out \<noteq> None)" by blast
    from IH[OF e'(2), of x'] e' Some xo show ?thesis
      by (cases "gov_run f ?q fds x'") auto
  qed
qed

text \<open>The child a builder returns, against the outcome of the reference.\<close>

definition child_is :: "u8 list \<Rightarrow> mask_table \<Rightarrow> child \<Rightarrow> u8 list option \<Rightarrow> bool" where
  "child_is raw masks ch out \<longleftrightarrow>
     (case out of None \<Rightarrow> ch = Unchanged
      | Some bs \<Rightarrow> \<exists>segs. ch = Rebuilt segs \<and> segs_ok raw masks segs \<and> segs_bytes raw masks segs = bs)"

definition builds :: "u8 list \<Rightarrow> mask_table \<Rightarrow> ('e, child) result \<Rightarrow> u8 list option option \<Rightarrow> bool" where
  "builds raw masks r out \<longleftrightarrow>
     (case out of None \<Rightarrow> ok_opt r = None | Some o' \<Rightarrow> \<exists>ch. r = Ok ch \<and> child_is raw masks ch o')"

definition builds_x :: "u8 list \<Rightarrow> mask_table \<Rightarrow> ('e, child \<times> nat) result \<Rightarrow> (nat \<times> u8 list option) option \<Rightarrow> bool" where
  "builds_x raw masks r out \<longleftrightarrow>
     (case out of None \<Rightarrow> ok_opt r = None | Some (i, o') \<Rightarrow> \<exists>ch. r = Ok (ch, i) \<and> child_is raw masks ch o')"

lemma edit_walk:
  assumes w: "win_ok raw w" and m: "arms_match arms"
    and step: "\<And>fd p x e. win_ok raw (frange p fd) \<Longrightarrow> vw raw (frange p fd) = payload fd \<Longrightarrow>
      performs raw masks mk p fd e (case arms (fd_num fd) (fd_wire fd) of
          TakeLen k \<Rightarrow> k p (frange p fd) (p + length (fd_raw fd)) (mk x e)
        | TakeVarint k \<Rightarrow> k (fd_val fd) (mk x e) | SkipField \<Rightarrow> Ok (mk x e)) (f p fd x)"
  shows "case gov_window f raw w x of
      None \<Rightarrow> ok_opt (walk conv arms (cursor_new raw w) (mk x (edits_init w))) = None
    | Some (x', out) \<Rightarrow> \<exists>e. walk conv arms (cursor_new raw w) (mk x (edits_init w)) = Ok (mk x' e) \<and>
        child_is raw masks (edits_finish w e) out"
proof (cases "wire_fields (vw raw w)")
  case None
  then show ?thesis
    using w m by (simp add: gov_window_def walk_run vw_def)
next
  case (Some fds)
  let ?a = "rstart w" and ?b = "rend w"
  have b: "?a \<le> ?b" "?b \<le> length raw" using w by (auto simp: win_ok_def in_window_def)
  have R: "case gov_run f ?a fds x of
      None \<Rightarrow> ok_opt (run_fields arms ?a fds (mk x (edits_init w))) = None
    | Some (x', ch, bs) \<Rightarrow> (\<exists>e'. run_fields arms ?a fds (mk x (edits_init w)) = Ok (mk x' e') \<and> edits_ok raw masks e' ?b \<and>
        edits_out raw masks e' ?b = edits_out raw masks (edits_init w) ?a @ bs \<and>
        ed_changed e' = (ed_changed (edits_init w) \<or> ch))"
  proof (rule gov_run_rel)
    fix fd p x e assume fd: "fd \<in> set fds" "?a \<le> p" "p + length (fd_raw fd) \<le> ?b"
      "bslice raw p (p + length (fd_raw fd)) = fd_raw fd"
    have "fd_off fd \<le> length (fd_raw fd)" using lfield_raw(3)[OF fields_lfield[OF Some fd(1)]] .
    with fd w have "win_ok raw (frange p fd)" "vw raw (frange p fd) = payload fd"
      by (auto simp: win_ok_def in_window_def vw_def frange_def intro!: bslice_payload)
    from step[OF this, of e x]
    show "performs raw masks mk p fd e (field_step arms p fd (mk x e)) (f p fd x)"
      by (simp add: field_step_def frange_def cong: arm.case_cong)
  next
    show "bslice raw ?a ?b = concat (map fd_raw fds)" using fields_raw[OF Some] by (simp add: vw_def)
  qed (use b in \<open>auto simp: edits_ok_def edits_init_def\<close>)
  have W: "ok_opt (walk conv arms (cursor_new raw w) s) = ok_opt (run_fields arms ?a fds s)" for s
    using w m Some by (simp add: walk_run vw_def)
  show ?thesis
  proof (cases "gov_run f ?a fds x")
    case None
    with R W Some show ?thesis by (simp add: gov_window_def)
  next
    case (Some r)
    obtain x' ch bs where r: "r = (x', ch, bs)" by (cases r)
    with R Some obtain e' where e': "run_fields arms ?a fds (mk x (edits_init w)) = Ok (mk x' e')"
      "edits_ok raw masks e' ?b" "edits_out raw masks e' ?b = bs" "ed_changed e' = ch"
      by (auto simp: edits_init_def edits_out_def)
    have "walk conv arms (cursor_new raw w) (mk x (edits_init w)) = Ok (mk x' e')"
      using W[of "mk x (edits_init w)"] e'(1) by (simp add: ok_opt_Some)
    moreover have "child_is raw masks (edits_finish w e') (if ch then Some bs else None)"
      using e' b by (auto simp: child_is_def edits_finish_def edits_ok_def edits_out_def in_window_def vw_def not_less)
    ultimately show ?thesis
      using Some r \<open>wire_fields (vw raw w) = Some fds\<close> by (auto simp: gov_window_def)
  qed
qed

section \<open>Spans of a string\<close>

text \<open>The targets of the decisions are in order (the redaction stage pushes no other).\<close>

definition targets_ok :: "envelope \<Rightarrow> bool" where
  "targets_ok env \<longleftrightarrow> (\<forall>x \<in> set (dc_redactions (ev_decisions env)).
     rstart (rd_target (sr_redaction x)) \<le> rend (rd_target (sr_redaction x)))"

fun span_chain :: "nat \<Rightarrow> (brange \<times> mask_id) list \<Rightarrow> nat \<Rightarrow> bool" where
  "span_chain cur [] e = (cur \<le> e)"
| "span_chain cur ((r, m) # spans) e = (cur \<le> rstart r \<and> rstart r \<le> rend r \<and> span_chain (rend r) spans e)"

lemma drop_overlaps_chain:
  "\<forall>s \<in> set spans. rstart (fst s) \<le> rend (fst s) \<and> rend (fst s) \<le> e \<Longrightarrow> cur \<le> e \<Longrightarrow>
    span_chain cur (drop_overlaps cur spans) e"
  by (induction cur spans rule: drop_overlaps.induct) auto

lemma spans_in_sound:
  "(r, m) \<in> set (spans_in env idx w) \<Longrightarrow>
    rstart w \<le> rstart r \<and> rend r \<le> rend w \<and> (targets_ok env \<longrightarrow> rstart r \<le> rend r) \<and>
    (\<exists>x \<in> set (dc_redactions (ev_decisions env)). sr_record x = idx \<and> sr_redaction x = \<lparr>rd_target = r, rd_mask = m\<rparr>)"
  by (auto simp: spans_in_def redactions_for_def targets_ok_def intro!: bexI)

lemma span_chain_le: "span_chain cur spans e \<Longrightarrow> cur \<le> e"
  by (induction cur spans e rule: span_chain.induct) auto

lemma effective_chain:
  assumes "targets_ok env" "rstart w \<le> rend w"
  shows "span_chain (rstart w) (effective_spans env idx w) (rend w)"
  unfolding effective_spans_def
  by (rule drop_overlaps_chain) (use assms spans_in_sound in fastforce)+

lemma scalar_parts_spliced:
  assumes "span_chain cur spans e" "e \<le> length raw" "list_all (part_ok raw masks) parts"
    and "sz = length (parts_bytes raw masks parts)"
  shows "if list_all (\<lambda>(r, m). mask_table_bytes masks m \<noteq> None) spans
    then \<exists>parts' cur'. scalar_parts masks spans parts sz cur = Ok (parts', length (parts_bytes raw masks parts'), cur') \<and>
      cur' \<le> e \<and> list_all (part_ok raw masks) parts' \<and>
      parts_bytes raw masks parts' @ bslice raw cur' e = parts_bytes raw masks parts @ spliced raw masks cur spans e
    else ok_opt (scalar_parts masks spans parts sz cur) = None"
  using assms
proof (induction masks spans parts sz cur rule: scalar_parts.induct)
  case (1 masks parts sz cur)
  then show ?case by simp
next
  case (2 masks r m spans parts sz cur)
  show ?case
  proof (cases "mask_table_bytes masks m")
    case None
    then show ?thesis by (simp add: Let_def split: prod.splits)
  next
    case (Some mb)
    define parts' where "parts' = (if cur < rstart r then parts @ [PRaw (rng cur (rstart r))] else parts)"
    define sz' where "sz' = (if cur < rstart r then sz + (rstart r - cur) else sz)"
    have le: "rstart r \<le> length raw"
      using "2.prems"(1,2) span_chain_le[of "rend r" spans e] by simp
    have P: "list_all (part_ok raw masks) (parts' @ [PMask m])" "sz' + length mb = length (parts_bytes raw masks (parts' @ [PMask m]))"
      "parts_bytes raw masks (parts' @ [PMask m]) = parts_bytes raw masks parts @ bslice raw cur (rstart r) @ mb"
      using "2.prems" le Some
      by (auto simp: parts'_def sz'_def in_window_def vw_def length_bslice)
    have eq: "scalar_parts masks ((r, m) # spans) parts sz cur = scalar_parts masks spans (parts' @ [PMask m]) (sz' + length mb) (rend r)"
      using Some by (simp add: parts'_def sz'_def)
    have pq: "(parts', sz') = (if cur < rstart r then (parts @ [PRaw (rng cur (rstart r))], sz + (rstart r - cur)) else (parts, sz))"
      by (simp add: parts'_def sz'_def)
    have chain: "span_chain (rend r) spans e" using "2.prems"(1) by simp
    from "2.IH"[OF refl pq Some chain "2.prems"(2) P(1,2)] show ?thesis
      unfolding eq P(3) using Some by (auto split: if_split_asm)
  qed
qed

section \<open>The builders perform the reference\<close>

lemma build_scalar_gov:
  assumes w: "win_ok raw w" and t: "targets_ok env"
  shows "case gov_string raw env masks idx w of
      None \<Rightarrow> ok_opt (build_scalar n w idx env masks) = None
    | Some None \<Rightarrow> build_scalar n w idx env masks = Ok None
    | Some (Some bs) \<Rightarrow> \<exists>sc. build_scalar n w idx env masks = Ok (Some sc) \<and> seg_ok raw masks sc \<and>
        seg_bytes raw masks sc = len_field n bs"
proof (cases "effective_spans env idx w = []")
  case True
  then show ?thesis by (simp add: gov_string_def build_scalar_def)
next
  case False
  let ?sp = "effective_spans env idx w"
  have b: "rstart w \<le> rend w" "rend w \<le> length raw" using w by (auto simp: win_ok_def in_window_def)
  note S = scalar_parts_spliced[OF effective_chain[OF t b(1)] b(2), of masks "[]" 0]
  show ?thesis
  proof (cases "list_all (\<lambda>(r, m). mask_table_bytes masks m \<noteq> None) ?sp")
    case True
    with S[of idx] obtain parts cur where P: "scalar_parts masks ?sp [] 0 (rstart w) = Ok (parts, length (parts_bytes raw masks parts), cur)"
      "cur \<le> rend w" "list_all (part_ok raw masks) parts"
      "parts_bytes raw masks parts @ bslice raw cur (rend w) = spliced raw masks (rstart w) ?sp (rend w)"
      by auto
    define parts' where "parts' = (if cur < rend w then parts @ [PRaw (rng cur (rend w))] else parts)"
    have "build_scalar n w idx env masks = Ok (Some (Scalar n (length (parts_bytes raw masks parts')) parts'))"
      using False P(1) b by (simp add: build_scalar_def Let_def parts'_def vw_def length_bslice)
    moreover have "parts_bytes raw masks parts' = spliced raw masks (rstart w) ?sp (rend w)"
      using P(2,4) by (auto simp: parts'_def vw_def)
    moreover have "list_all (part_ok raw masks) parts'"
      using P(2,3) b by (auto simp: parts'_def in_window_def)
    ultimately show ?thesis
      using False True by (simp add: gov_string_def len_field_def)
  next
    case no: False
    with S[of idx] have "ok_opt (scalar_parts masks ?sp [] 0 (rstart w)) = None" by simp
    with False no show ?thesis by (simp add: gov_string_def build_scalar_def ok_opt_rbind)
  qed
qed

lemma arms_match_builders:
  "arms_match (any_value_arms idx env masks)" "arms_match (kv_build_arms raw idx env masks)"
  "arms_match (record_build_arms raw idx env masks)" "arms_match (container_arms n build)"
  by (auto simp: arms_match_def any_value_arms_def kv_build_arms_def record_build_arms_def container_arms_def)

text \<open>From a walk that performs the edits of \<open>f\<close> to the child a builder returns.\<close>

lemma builds_walk:
  assumes "case gov_window f raw w () of
      None \<Rightarrow> ok_opt wk = None
    | Some (x', out) \<Rightarrow> \<exists>e. wk = Ok e \<and> child_is raw masks (edits_finish w e) out"
  shows "builds raw masks (rbind wk (\<lambda>s. Ok (edits_finish w s))) (map_option snd (gov_window f raw w ()))"
  using assms by (cases "gov_window f raw w ()") (auto simp: builds_def ok_opt_rbind)

lemma build_any_value_gov:
  assumes w: "win_ok raw w" and t: "targets_ok env"
  shows "builds raw masks (build_any_value raw w idx env masks) (gov_any raw env masks idx w)"
  unfolding build_any_value_def gov_any_def
proof (rule builds_walk, rule edit_walk[OF w arms_match_builders(1), where mk = "\<lambda>_ e. e" and x = "()"])
  fix fd p x e assume r: "win_ok raw (frange p fd)"
  show "performs raw masks (\<lambda>_ e. e) p fd e (case any_value_arms idx env masks (fd_num fd) (fd_wire fd) of
          TakeLen k \<Rightarrow> k p (frange p fd) (p + length (fd_raw fd)) e
        | TakeVarint k \<Rightarrow> k (fd_val fd) e | SkipField \<Rightarrow> Ok e) (edit_len 1 (gov_string raw env masks idx) p fd x)"
    using build_scalar_gov[OF r t, where masks = masks and idx = idx and n = 1]
    by (auto simp: any_value_arms_def edit_len_def is_len_def performs_def ok_opt_rbind split: option.splits)
qed

lemma performs_rebuilt:
  assumes "builds raw masks r out"
  shows "performs raw masks (\<lambda>_ e. e) p fd e
    (rbind r (\<lambda>ch. Ok (splice_rebuilt n p (p + length (fd_raw fd)) ch e)))
    (map_option (\<lambda>o'. (x, map_option (len_field n) o')) out)"
proof (cases out)
  case None
  with assms show ?thesis by (simp add: builds_def performs_def ok_opt_rbind)
next
  case (Some o')
  with assms obtain ch where ch: "r = Ok ch" "child_is raw masks ch o'" by (auto simp: builds_def)
  show ?thesis
  proof (cases o')
    case None
    with ch Some show ?thesis by (simp add: performs_def child_is_def splice_rebuilt_def)
  next
    case (Some bs)
    with ch obtain inner where "ch = Rebuilt inner" "segs_ok raw masks inner" "segs_bytes raw masks inner = bs"
      by (auto simp: child_is_def)
    with ch nested_ok[of raw masks inner n] Some \<open>out = Some o'\<close> show ?thesis
      by (auto simp: performs_def splice_rebuilt_def intro!: exI[of _ "[nested n inner]"])
  qed
qed

lemma build_key_value_gov:
  assumes w: "win_ok raw w" and t: "targets_ok env"
  shows "builds raw masks (build_key_value raw w idx env masks) (gov_kv raw env masks idx w)"
  unfolding build_key_value_def gov_kv_def
proof (rule builds_walk, rule edit_walk[OF w arms_match_builders(2), where mk = "\<lambda>_ e. e" and x = "()"])
  fix fd p x e assume r: "win_ok raw (frange p fd)"
  show "performs raw masks (\<lambda>_ e. e) p fd e (case kv_build_arms raw idx env masks (fd_num fd) (fd_wire fd) of
          TakeLen k \<Rightarrow> k p (frange p fd) (p + length (fd_raw fd)) e
        | TakeVarint k \<Rightarrow> k (fd_val fd) e | SkipField \<Rightarrow> Ok e) (edit_len 2 (gov_any raw env masks idx) p fd x)"
    using performs_rebuilt[OF build_any_value_gov[OF r t, of masks idx], of p fd e 2 x]
    by (cases "is_len 2 fd") (auto simp: kv_build_arms_def edit_len_def is_len_def performs_skip)
qed

lemma build_record_gov:
  assumes w: "win_ok raw w" and t: "targets_ok env" and k: "sampling_verdict (ev_decisions env) idx \<noteq> Drop"
  shows "builds raw masks (build_record raw w idx env masks) (gov_record raw env masks idx w)"
  unfolding build_record_def if_not_P[OF k] gov_record_def
proof (rule builds_walk, rule edit_walk[OF w arms_match_builders(3), where mk = "\<lambda>_ e. e" and x = "()"])
  fix fd p x e assume r: "win_ok raw (frange p fd)"
  show "performs raw masks (\<lambda>_ e. e) p fd e (case record_build_arms raw idx env masks (fd_num fd) (fd_wire fd) of
          TakeLen k \<Rightarrow> k p (frange p fd) (p + length (fd_raw fd)) e
        | TakeVarint k \<Rightarrow> k (fd_val fd) e | SkipField \<Rightarrow> Ok e) (edit_record raw env masks idx p fd x)"
    using performs_rebuilt[OF build_any_value_gov[OF r t, of masks idx], of p fd e 5 x]
      performs_rebuilt[OF build_key_value_gov[OF r t, of masks idx], of p fd e 6 x]
    by (cases "is_len 5 fd"; cases "is_len 6 fd")
      (auto simp: record_build_arms_def edit_record_def edit_len_def is_len_def performs_skip)
qed

lemma container_gov:
  assumes w: "win_ok raw w"
    and child: "\<And>r i. win_ok raw r \<Longrightarrow> case f' r i of
        None \<Rightarrow> ok_opt (build r i) = None
      | Some (j, out) \<Rightarrow> \<exists>ch. build r i = Ok (ch, j) \<and>
          (case out of None \<Rightarrow> ch = Unchanged
            | Some bs \<Rightarrow> (ch = Dropped \<and> bs = []) \<or> (\<exists>bs'. bs = len_field n bs' \<and> child_is raw masks ch (Some bs')))"
    and f: "\<And>p fd i. f p fd i = (if is_len n fd then f' (frange p fd) i else Some (i, None))"
  shows "builds_x raw masks (container_walk raw w n i build) (gov_window f raw w i)"
proof -
  have "case gov_window f raw w i of
      None \<Rightarrow> ok_opt (walk WireError (container_arms n build) (cursor_new raw w) (i, edits_init w)) = None
    | Some (x', out) \<Rightarrow> \<exists>e. walk WireError (container_arms n build) (cursor_new raw w) (i, edits_init w) = Ok (x', e) \<and>
        child_is raw masks (edits_finish w e) out"
  proof (rule edit_walk[OF w arms_match_builders(4), where mk = Pair])
    fix fd p x e assume r: "win_ok raw (frange p fd)"
    show "performs raw masks Pair p fd e (case container_arms n build (fd_num fd) (fd_wire fd) of
            TakeLen k \<Rightarrow> k p (frange p fd) (p + length (fd_raw fd)) (x, e)
          | TakeVarint k \<Rightarrow> k (fd_val fd) (x, e) | SkipField \<Rightarrow> Ok (x, e)) (f p fd x)"
    proof (cases "is_len n fd")
      case True
      show ?thesis
      proof (cases "f' (frange p fd) x")
        case None
        with child[OF r, of x] True show ?thesis
          by (auto simp: container_arms_def f is_len_def performs_def ok_opt_rbind)
      next
        case (Some jo)
        obtain j out where jo: "jo = (j, out)" by (cases jo)
        with child[OF r, of x] Some obtain ch where ch: "build (frange p fd) x = Ok (ch, j)"
          "case out of None \<Rightarrow> ch = Unchanged
            | Some bs \<Rightarrow> (ch = Dropped \<and> bs = []) \<or> (\<exists>bs'. bs = len_field n bs' \<and> child_is raw masks ch (Some bs'))"
          by auto
        show ?thesis
        proof (cases out)
          case None
          with ch Some jo True show ?thesis by (simp add: container_arms_def f is_len_def performs_def)
        next
          case (Some bs)
          with ch(2) consider "ch = Dropped" "bs = []"
            | inner where "ch = Rebuilt inner" "segs_ok raw masks inner" "bs = len_field n (segs_bytes raw masks inner)"
            by (auto simp: child_is_def)
          then show ?thesis
          proof cases
            case 1
            with ch(1) Some jo True \<open>f' (frange p fd) x = Some jo\<close> show ?thesis
              by (auto simp: container_arms_def f is_len_def performs_def intro!: exI[of _ "[]"])
          next
            case (2 inner)
            with ch(1) Some jo True \<open>f' (frange p fd) x = Some jo\<close> nested_ok[of raw masks inner n] show ?thesis
              by (auto simp: container_arms_def f is_len_def performs_def intro!: exI[of _ "[nested n inner]"])
          qed
        qed
      qed
    qed (auto simp: container_arms_def f is_len_def performs_def)
  qed
  then show ?thesis
    by (cases "gov_window f raw w i") (auto simp: builds_x_def container_walk_def ok_opt_rbind)
qed

lemma builds_x_child:
  assumes "builds_x raw masks r out"
  shows "case map_option (\<lambda>(j, o'). (j, map_option (len_field n) o')) out of
      None \<Rightarrow> ok_opt r = None
    | Some (j, out) \<Rightarrow> \<exists>ch. r = Ok (ch, j) \<and>
        (case out of None \<Rightarrow> ch = Unchanged
          | Some bs \<Rightarrow> (ch = Dropped \<and> bs = []) \<or> (\<exists>bs'. bs = len_field n bs' \<and> child_is raw masks ch (Some bs')))"
  using assms by (auto simp: builds_x_def child_is_def split: option.splits)

lemma build_scope_gov:
  assumes w: "win_ok raw w" and t: "targets_ok env"
  shows "builds_x raw masks (build_container raw w 2 env masks i LScope) (gov_scope raw env masks w i)"
  unfolding build_container.simps gov_scope_def
proof (rule container_gov[OF w])
  fix r i assume r: "win_ok raw r"
  let ?b = "rbind (build_record raw r i env masks) (\<lambda>ch. Ok (ch, i + 1))"
  let ?f = "if sampling_verdict (ev_decisions env) i = Drop then Some (i + 1, Some [])
     else map_option (\<lambda>(j, o'). (j, map_option (len_field 2) o')) (map_option (Pair (i + 1)) (gov_record raw env masks i r))"
  show "case ?f of None \<Rightarrow> ok_opt ?b = None
      | Some (j, out) \<Rightarrow> \<exists>ch. ?b = Ok (ch, j) \<and>
          (case out of None \<Rightarrow> ch = Unchanged
            | Some bs \<Rightarrow> (ch = Dropped \<and> bs = []) \<or> (\<exists>bs'. bs = len_field 2 bs' \<and> child_is raw masks ch (Some bs')))"
  proof (cases "sampling_verdict (ev_decisions env) i = Drop")
    case False
    have "builds_x raw masks ?b (map_option (Pair (i + 1)) (gov_record raw env masks i r))"
      using build_record_gov[OF r t False, of masks] by (auto simp: builds_def builds_x_def ok_opt_rbind split: option.splits)
    from builds_x_child[OF this, of 2] False show ?thesis by simp
  qed (simp add: build_record_def)
qed (simp add: edit_scope_def edit_child_def)

lemma build_resource_gov:
  assumes w: "win_ok raw w" and t: "targets_ok env"
  shows "builds_x raw masks (build_container raw w 2 env masks i LResource) (gov_resource raw env masks w i)"
  unfolding build_container.simps(2) gov_resource_def
proof (rule container_gov[OF w])
  fix r i assume "win_ok raw r"
  from builds_x_child[OF build_scope_gov[OF this t]]
  show "case map_option (\<lambda>(j, o'). (j, map_option (len_field 2) o')) (gov_scope raw env masks r i) of
      None \<Rightarrow> ok_opt (build_container raw r 2 env masks i LScope) = None
    | Some (j, out) \<Rightarrow> \<exists>ch. build_container raw r 2 env masks i LScope = Ok (ch, j) \<and>
        (case out of None \<Rightarrow> ch = Unchanged
          | Some bs \<Rightarrow> (ch = Dropped \<and> bs = []) \<or> (\<exists>bs'. bs = len_field 2 bs' \<and> child_is raw masks ch (Some bs')))" .
qed (simp add: edit_child_def)

lemma build_request_container_gov:
  assumes "length raw < 2 ^ 64" and t: "targets_ok env"
  shows "builds_x raw masks (build_container raw (rng 0 (length raw)) 1 env masks 0 LRequest) (gov_request raw env masks)"
  unfolding build_container.simps(3) gov_request_def
proof (rule container_gov[OF win_ok_whole[OF assms(1)]])
  fix r i assume "win_ok raw r"
  from builds_x_child[OF build_resource_gov[OF this t]]
  show "case map_option (\<lambda>(j, o'). (j, map_option (len_field 1) o')) (gov_resource raw env masks r i) of
      None \<Rightarrow> ok_opt (build_container raw r 2 env masks i LResource) = None
    | Some (j, out) \<Rightarrow> \<exists>ch. build_container raw r 2 env masks i LResource = Ok (ch, j) \<and>
        (case out of None \<Rightarrow> ch = Unchanged
          | Some bs \<Rightarrow> (ch = Dropped \<and> bs = []) \<or> (\<exists>bs'. bs = len_field 1 bs' \<and> child_is raw masks ch (Some bs')))" .
qed (simp add: edit_child_def)

section \<open>No builder panics\<close>

lemma scalar_parts_no_panic: "scalar_parts masks spans parts sz cur \<noteq> Panic"
  by (induction masks spans parts sz cur rule: scalar_parts.induct) (auto simp: Let_def split: option.splits if_splits)

lemma build_scalar_post: "post (build_scalar n w idx env masks) (\<lambda>_. True)"
  using scalar_parts_no_panic by (auto simp: build_scalar_def Let_def post_iff result_simps split: prod.splits)

lemma build_any_value_post: "win_ok raw w \<Longrightarrow> post (build_any_value raw w idx env masks) (\<lambda>_. True)"
  unfolding build_any_value_def post_rbind post.simps
  by (rule walk_inv) (use build_scalar_post in \<open>auto simp: any_value_arms_def post_rbind split: if_splits option.splits elim!: post_mono\<close>)

lemma build_key_value_post: "win_ok raw w \<Longrightarrow> post (build_key_value raw w idx env masks) (\<lambda>_. True)"
  unfolding build_key_value_def post_rbind post.simps
  by (rule walk_inv) (use build_any_value_post in \<open>auto simp: kv_build_arms_def post_rbind split: if_splits\<close>)

lemma build_record_post: "win_ok raw w \<Longrightarrow> post (build_record raw w idx env masks) (\<lambda>_. True)"
proof -
  assume w: "win_ok raw w"
  have "post (walk WireError (record_build_arms raw idx env masks) (cursor_new raw w) (edits_init w)) (\<lambda>_. True)"
    by (rule walk_inv[OF w]) (use build_any_value_post build_key_value_post in \<open>auto simp: record_build_arms_def post_rbind split: if_splits\<close>)
  then show ?thesis by (simp add: build_record_def post_rbind)
qed

lemma container_walk_post:
  assumes "win_ok raw w" "\<And>r i. win_ok raw r \<Longrightarrow> post (build r i) (\<lambda>_. True)"
  shows "post (container_walk raw w n i build) (\<lambda>_. True)"
proof -
  have "post (walk WireError (container_arms n build) (cursor_new raw w) (i, edits_init w)) (\<lambda>_. True)"
    by (rule walk_inv[OF assms(1)]) (use assms(2) in \<open>auto simp: container_arms_def post_rbind split: if_splits\<close>)
  then show ?thesis by (simp add: container_walk_def post_rbind)
qed

lemma build_container_post: "win_ok raw w \<Longrightarrow> post (build_container raw w n env masks i lv) (\<lambda>_. True)"
proof (induction raw w n env masks i lv rule: build_container.induct)
  case (1 raw w n env masks i)
  then show ?case
    by (auto simp: post_rbind intro!: container_walk_post build_record_post)
qed (auto simp: post_rbind intro!: container_walk_post build_record_post)

section \<open>Assembly\<close>

lemma assemble_parts:
  assumes "length (ev_raw env) < 2 ^ 64" "targets_ok env"
  shows "assemble env masks \<noteq> Panic \<and>
    (if \<not> any_dropped (ev_decisions env) \<and> redaction_total (ev_decisions env) = 0
     then assemble env masks = Ok (passthrough (ev_raw env))
     else case gov_request (ev_raw env) env masks of
         None \<Rightarrow> \<not> is_Ok (assemble env masks)
       | Some (n, out) \<Rightarrow>
           if n \<noteq> length (ev_records env)
           then assemble env masks = Err (RecordCountMismatch (length (ev_records env)) n)
           else \<exists>p. assemble env masks = Ok p \<and>
             contiguous p = (case out of None \<Rightarrow> ev_raw env | Some bs \<Rightarrow> bs) \<and> ap_len p = length (contiguous p))"
proof (cases "\<not> any_dropped (ev_decisions env) \<and> redaction_total (ev_decisions env) = 0")
  case True
  then show ?thesis by (simp add: assemble_def passthrough_def)
next
  case False
  let ?raw = "ev_raw env"
  let ?c = "build_container ?raw (rng 0 (length ?raw)) 1 env masks 0 LRequest"
  note B = build_request_container_gov[OF assms, of masks]
  have np: "?c \<noteq> Panic"
    using build_container_post[OF win_ok_whole[OF assms(1)], of 1 env masks 0 LRequest] by (auto simp: post_iff)
  show ?thesis
  proof (cases "gov_request ?raw env masks")
    case None
    with B np obtain e where "?c = Err e" by (cases ?c) (auto simp: builds_x_def)
    with None False show ?thesis by (auto simp: assemble_def build_request_def)
  next
    case (Some no)
    obtain n out where no: "no = (n, out)" by (cases no)
    with B Some obtain ch where c: "?c = Ok (ch, n)" "child_is ?raw masks ch out" by (auto simp: builds_x_def)
    define segs where "segs = (case ch of Rebuilt segs \<Rightarrow> segs | _ \<Rightarrow> [Verbatim (rng 0 (length ?raw))])"
    have R: "build_request ?raw env masks 0 = Ok (segs, n)"
      using c(1) by (auto simp: build_request_def segs_def split: child.splits)
    have ok: "segs_ok ?raw masks segs" "segs_bytes ?raw masks segs = (case out of None \<Rightarrow> ?raw | Some bs \<Rightarrow> bs)"
      using c(2) by (auto simp: child_is_def segs_def in_window_def vw_def split: option.splits)
    have "asm_ok ?raw (assembler_new ?raw)" by (simp add: asm_ok_def asm_bytes_def assembler_new_def)
    from emits_segs(2)[OF this ok(1)] obtain a where a: "emit_segs masks segs (assembler_new ?raw) = Ok a" "asm_ok ?raw a"
      "asm_bytes a = segs_bytes ?raw masks segs" by (auto simp: emits_def asm_bytes_def assembler_new_def)
    have "contiguous (assembler_finish a) = asm_bytes a" "ap_len (assembler_finish a) = length (asm_bytes a)"
      using a(2) by (simp_all add: assembler_finish_def contiguous_def Let_def asm_ok_def)
    with R a ok(2) False Some no show ?thesis by (auto simp: assemble_def)
  qed
qed

section \<open>Properties\<close>

text \<open>
  C14: assembly computes the governed request: it fails exactly when the reference does, or when the
  walk counted another number of records than the parser; otherwise the chunks concatenate to the
  reference bytes (the original ones when nothing changed) and the reported length is theirs.  It
  never panics.
\<close>

theorem assemble_governed:
  assumes "length (ev_raw env) < 2 ^ 64" "targets_ok env"
  shows "assemble env masks \<noteq> Panic \<and>
    (if \<not> any_dropped (ev_decisions env) \<and> redaction_total (ev_decisions env) = 0
     then assemble env masks = Ok (passthrough (ev_raw env))
     else case gov_request (ev_raw env) env masks of
         None \<Rightarrow> \<not> is_Ok (assemble env masks)
       | Some (n, out) \<Rightarrow>
           if n \<noteq> length (ev_records env)
           then assemble env masks = Err (RecordCountMismatch (length (ev_records env)) n)
           else \<exists>p. assemble env masks = Ok p \<and>
             contiguous p = (case out of None \<Rightarrow> ev_raw env | Some bs \<Rightarrow> bs) \<and> ap_len p = length (contiguous p))"
  by (rule assemble_parts[OF assms])

end
