(* ===== verification/Reparse.thy ===== *)
theory Reparse
  imports Govern
begin

text \<open>
  What a receiver decodes from the exported request: exactly the records that sampling kept, each
  with its body and attribute values masked and everything else unchanged.  The proof follows the
  parser, the reference for the governed bytes and the reference decoder through the messages
  together.
\<close>

section \<open>Masked records\<close>

definition masked_str :: "u8 list \<Rightarrow> envelope \<Rightarrow> mask_table \<Rightarrow> nat \<Rightarrow> brange \<Rightarrow> u8 list" where
  "masked_str raw env masks idx r = spliced raw masks (rstart r) (effective_spans env idx r) (rend r)"

definition masked_record :: "u8 list \<Rightarrow> envelope \<Rightarrow> mask_table \<Rightarrow> nat \<Rightarrow> record_view \<Rightarrow> log_rec" where
  "masked_record raw env masks idx rv =
     (view_record raw rv)\<lparr>lr_body := masked_str raw env masks idx (rv_body rv),
       lr_attrs := map (\<lambda>a. (vw raw (av_key a), masked_str raw env masks idx (av_value a))) (rv_attrs rv)\<rparr>"

text \<open>The records from index \<open>i\<close> on, without the dropped ones.\<close>

fun kept_records :: "u8 list \<Rightarrow> envelope \<Rightarrow> mask_table \<Rightarrow> nat \<Rightarrow> record_view list \<Rightarrow> log_rec list" where
  "kept_records raw env masks i [] = []"
| "kept_records raw env masks i (rv # rvs) =
     (if sampling_verdict (ev_decisions env) i = Drop then [] else [masked_record raw env masks i rv]) @
     kept_records raw env masks (i + 1) rvs"

lemma kept_records_append:
  "kept_records raw env masks i (rvs @ rvs') =
    kept_records raw env masks i rvs @ kept_records raw env masks (i + length rvs) rvs'"
  by (induction rvs arbitrary: i) simp_all

text \<open>Targets that are not empty.\<close>

definition targets_proper :: "envelope \<Rightarrow> bool" where
  "targets_proper env \<longleftrightarrow> (\<forall>x \<in> set (dc_redactions (ev_decisions env)).
     rstart (rd_target (sr_redaction x)) < rend (rd_target (sr_redaction x)))"

lemma targets_proper_ok: "targets_proper env \<Longrightarrow> targets_ok env"
  by (auto simp: targets_proper_def targets_ok_def less_imp_le)

text \<open>
  A record without a body has an empty range at the start of its message.  No span may sit there; the
  parser keeps bodies and attribute values apart, and the stage searches no empty field.
\<close>

definition body_clear :: "envelope \<Rightarrow> nat \<Rightarrow> record_view \<Rightarrow> bool" where
  "body_clear env i rv \<longleftrightarrow> (rlen (rv_body rv) = 0 \<longrightarrow> spans_in env i (rv_body rv) = [])"

fun bodies_clear :: "envelope \<Rightarrow> nat \<Rightarrow> record_view list \<Rightarrow> bool" where
  "bodies_clear env i [] = True"
| "bodies_clear env i (rv # rvs) \<longleftrightarrow> body_clear env i rv \<and> bodies_clear env (i + 1) rvs"

lemma bodies_clear_append:
  "bodies_clear env i (rvs @ rvs') \<longleftrightarrow> bodies_clear env i rvs \<and> bodies_clear env (i + length rvs) rvs'"
  by (induction rvs arbitrary: i) simp_all

lemma masked_str_no_spans: "spans_in env idx r = [] \<Longrightarrow> masked_str raw env masks idx r = vw raw r"
  by (simp add: masked_str_def effective_spans_def vw_def)

lemma targets_proper_clear: "targets_proper env \<Longrightarrow> body_clear env i rv"
proof (unfold body_clear_def, intro impI, rule ccontr)
  assume t: "targets_proper env" and l: "rlen (rv_body rv) = 0" and n: "spans_in env i (rv_body rv) \<noteq> []"
  then obtain r m where "(r, m) \<in> set (spans_in env i (rv_body rv))" by (cases "spans_in env i (rv_body rv)") auto
  from spans_in_sound[OF this] t l show False by (fastforce simp: targets_proper_def rlen_def)
qed

lemma targets_proper_bodies_clear: "targets_proper env \<Longrightarrow> bodies_clear env i rvs"
  by (induction rvs arbitrary: i) (simp_all add: targets_proper_clear)

section \<open>Following the three through a window\<close>

definition out_bytes :: "u8 list \<Rightarrow> brange \<Rightarrow> u8 list option \<Rightarrow> u8 list" where
  "out_bytes raw w out = (case out of None \<Rightarrow> vw raw w | Some bs \<Rightarrow> bs)"

lemma out_bytes_simps [simp]:
  "out_bytes raw w None = vw raw w" "out_bytes raw w (Some bs) = bs"
  by (simp_all add: out_bytes_def)

definition field_out :: "field \<Rightarrow> u8 list option \<Rightarrow> u8 list" where
  "field_out fd out = (case out of None \<Rightarrow> fd_raw fd | Some bs \<Rightarrow> bs)"

lemma field_out_simps [simp]: "field_out fd None = fd_raw fd" "field_out fd (Some bs) = bs"
  by (simp_all add: field_out_def)

lemma gov_run_out:
  "gov_run f p fds x = Some (x', ch, bs) \<Longrightarrow> \<not> ch \<Longrightarrow> bs = concat (map fd_raw fds)"
proof (induction fds arbitrary: p x x' ch bs)
  case (Cons fd fds)
  then show ?case by (auto simp: bind_eq_Some_conv split: option.splits)
qed simp

lemma gov_run_Cons:
  assumes "gov_run f p (fd # fds) x = Some (x', ch, bs)"
  obtains x1 out ch1 bs1 where "f p fd x = Some (x1, out)"
    "gov_run f (p + length (fd_raw fd)) fds x1 = Some (x', ch1, bs1)" "bs = field_out fd out @ bs1"
proof -
  from assms obtain x1 out where f: "f p fd x = Some (x1, out)" by (cases "f p fd x") auto
  with assms obtain ch1 bs1 where "gov_run f (p + length (fd_raw fd)) fds x1 = Some (x', ch1, bs1)"
    "bs = field_out fd out @ bs1"
    by (cases "gov_run f (p + length (fd_raw fd)) fds x1") (auto simp: field_out_def)
  with f show thesis by (rule that)
qed

lemma run_fields_sim:
  assumes "\<And>fd p x s x1 out s1 t. fd \<in> set fds \<Longrightarrow> a \<le> p \<Longrightarrow> p + length (fd_raw fd) \<le> b \<Longrightarrow>
      bslice raw p (p + length (fd_raw fd)) = fd_raw fd \<Longrightarrow> R x s t \<Longrightarrow>
      field_step arms p fd s = Ok s1 \<Longrightarrow> f p fd x = Some (x1, out) \<Longrightarrow> length (field_out fd out) < 2 ^ 64 \<Longrightarrow>
      \<exists>gds t1. wire_fields (field_out fd out) = Some gds \<and> fold_opt dstep gds t = Some t1 \<and> R x1 s1 t1"
    and "bslice raw p b = concat (map fd_raw fds)" "a \<le> p" "p \<le> b" "b \<le> length raw"
    and "run_fields arms p fds s = Ok s'" "gov_run f p fds x = Some (x', ch, bs)" "length bs < 2 ^ 64" "R x s t"
  shows "\<exists>gds t'. wire_fields bs = Some gds \<and> fold_opt dstep gds t = Some t' \<and> R x' s' t'"
  using assms
proof (induction fds arbitrary: p x s t ch bs)
  case Nil
  then show ?case by auto
next
  case (Cons fd fds)
  let ?q = "p + length (fd_raw fd)"
  have len: "b - p = length (fd_raw fd) + length (concat (map fd_raw fds))"
    using Cons.prems(2,5) length_bslice[of b raw p] by simp
  have q: "?q \<le> b" using len Cons.prems(4) by simp
  have "bslice raw p ?q @ bslice raw ?q b = fd_raw fd @ concat (map fd_raw fds)"
    using q Cons.prems(2) by (simp add: bslice_append)
  moreover have "length (bslice raw p ?q) = length (fd_raw fd)"
    using q Cons.prems(5) by (simp add: length_bslice)
  ultimately have sl: "bslice raw p ?q = fd_raw fd" "bslice raw ?q b = concat (map fd_raw fds)"
    by (simp_all add: append_eq_append_conv)
  from gov_run_Cons[OF Cons.prems(7)] obtain x1 out ch1 bs1 where g: "f p fd x = Some (x1, out)"
    "gov_run f ?q fds x1 = Some (x', ch1, bs1)" "bs = field_out fd out @ bs1" .
  from Cons.prems(6) obtain s1 where s1: "field_step arms p fd s = Ok s1" "run_fields arms ?q fds s1 = Ok s'"
    by (auto simp: result_simps)
  have l: "length (field_out fd out) < 2 ^ 64" "length bs1 < 2 ^ 64" using g(3) Cons.prems(8) by auto
  have "\<exists>gds t1. wire_fields (field_out fd out) = Some gds \<and> fold_opt dstep gds t = Some t1 \<and> R x1 s1 t1"
    by (rule Cons.prems(1)[OF _ Cons.prems(3) q sl(1) Cons.prems(9) s1(1) g(1) l(1)]) simp
  then obtain gds t1 where st: "wire_fields (field_out fd out) = Some gds" "fold_opt dstep gds t = Some t1" "R x1 s1 t1"
    by blast
  have "\<exists>gds t'. wire_fields bs1 = Some gds \<and> fold_opt dstep gds t1 = Some t' \<and> R x' s' t'"
    by (rule Cons.IH[OF _ sl(2) _ q Cons.prems(5) s1(2) g(2) l(2) st(3)]) (use Cons.prems(1,3) in auto)
  then obtain gds1 t' where "wire_fields bs1 = Some gds1" "fold_opt dstep gds1 t1 = Some t'" "R x' s' t'" by blast
  with st g(3) fields_append[OF st(1)] show ?case by (auto simp: fold_opt_append)
qed

text \<open>The rule the messages use; \<open>R\<close> relates the edit state, the parser's locals and the decoder's.\<close>

lemma window_sim:
  assumes w: "win_ok raw w" and m: "arms_match arms"
    and p: "walk conv arms (cursor_new raw w) s = Ok s'" and g: "gov_window f raw w x = Some (x', out)"
    and l: "length (out_bytes raw w out) < 2 ^ 64" and R: "R x s t"
    and step: "\<And>fd p x s x1 out s1 t. lfield (fd_raw fd) = Some fd \<Longrightarrow> win_ok raw (frange p fd) \<Longrightarrow>
      vw raw (frange p fd) = payload fd \<Longrightarrow> R x s t \<Longrightarrow>
      (case arms (fd_num fd) (fd_wire fd) of
          TakeLen k \<Rightarrow> k p (frange p fd) (p + length (fd_raw fd)) s
        | TakeVarint k \<Rightarrow> k (fd_val fd) s | SkipField \<Rightarrow> Ok s) = Ok s1 \<Longrightarrow>
      f p fd x = Some (x1, out) \<Longrightarrow> length (field_out fd out) < 2 ^ 64 \<Longrightarrow>
      \<exists>gds t1. wire_fields (field_out fd out) = Some gds \<and> fold_opt dstep gds t = Some t1 \<and> R x1 s1 t1"
  shows "\<exists>t'. decode_fields dstep (out_bytes raw w out) t = Some t' \<and> R x' s' t'"
proof -
  let ?a = "rstart w" and ?b = "rend w"
  have b: "?a \<le> ?b" "?b \<le> length raw" using w by (auto simp: win_ok_def in_window_def)
  from p w m obtain fds where fds: "wire_fields (vw raw w) = Some fds" "run_fields arms ?a fds s = Ok s'"
    using walk_fields[of "cursor_new raw w" arms conv s s'] by (auto simp: vw_def)
  with g obtain ch bs where r: "gov_run f ?a fds x = Some (x', ch, bs)" "out = (if ch then Some bs else None)"
    by (auto simp: gov_window_def)
  have bs: "out_bytes raw w out = bs"
    using r gov_run_out[OF r(1)] fields_raw[OF fds(1)] by auto
  have "\<exists>gds t'. wire_fields bs = Some gds \<and> fold_opt dstep gds t = Some t' \<and> R x' s' t'"
  proof (rule run_fields_sim[where a = ?a and b = ?b and raw = raw])
    fix fd p x s x1 out s1 t
    assume fd: "fd \<in> set fds" "?a \<le> p" "p + length (fd_raw fd) \<le> ?b" "bslice raw p (p + length (fd_raw fd)) = fd_raw fd"
      and h: "R x s t" "field_step arms p fd s = Ok s1" "f p fd x = Some (x1, out)" "length (field_out fd out) < 2 ^ 64"
    note lf = fields_lfield[OF fds(1) fd(1)]
    from fd w lfield_raw(3)[OF lf] have "win_ok raw (frange p fd)" "vw raw (frange p fd) = payload fd"
      by (auto simp: win_ok_def in_window_def vw_def frange_def intro!: bslice_payload)
    from step[OF lf this h(1) _ h(3,4)] h(2)
    show "\<exists>gds t1. wire_fields (field_out fd out) = Some gds \<and> fold_opt dstep gds t = Some t1 \<and> R x1 s1 t1"
      by (simp add: field_step_def frange_def cong: arm.case_cong)
  qed (use b fds r R l bs fields_raw[OF fds(1)] in \<open>auto simp: vw_def\<close>)
  with bs show ?thesis by (auto simp: decode_fields_def)
qed

text \<open>A field that is left as it is, and one whose payload is replaced.\<close>

lemma wire_fields_same: "lfield (fd_raw fd) = Some fd \<Longrightarrow> wire_fields (fd_raw fd) = Some [fd]"
  by (rule fields_single) simp_all

lemma wire_fields_new: "length (len_field n pl) < 2 ^ 64 \<Longrightarrow> wire_fields (len_field n pl) = Some [len_field_of n pl]"
  by (rule fields_single) (simp_all add: lfield_len_field length_len_field)

section \<open>Values\<close>

text \<open>The first string of a value, in the parser and in the decoder.\<close>

fun first_string :: "nat \<Rightarrow> field list \<Rightarrow> brange option" where
  "first_string p [] = None"
| "first_string p (fd # fds) = (if is_len 1 fd then Some (frange p fd) else first_string (p + length (fd_raw fd)) fds)"

lemma any_value_first_string:
  "cursor_ok c \<Longrightarrow> wire_fields (rest c) = Some fds \<Longrightarrow> any_value_string_loop c = Ok (first_string (cur_pos c) fds)"
proof (induction c arbitrary: fds rule: any_value_string_loop.induct)
  case (1 c)
  note ok = "1.prems"(1)
  show ?case
  proof (cases "cursor_done c")
    case True
    then have "rest c = []" by (simp add: rest_def cursor_done_def)
    with True "1.prems" show ?thesis by (simp add: any_value_string_loop.simps[of c])
  next
    case nd: False
    then have "rest c \<noteq> []" using length_rest[OF ok] ok by (auto simp: cursor_done_def)
    with "1.prems" obtain fd gds where l: "lfield (rest c) = Some fd"
      and gds: "wire_fields (drop (length (fd_raw fd)) (rest c)) = Some gds" and fds: "fds = fd # gds"
      by (auto simp: fields_Cons_iff)
    from l obtain f wi n m where t: "ltag (rest c) = Some ((f, wi), n)" and s: "lskip (drop n (rest c)) wi = Some m"
      and fd: "fd_num fd = f" "fd_wire fd = wi" "fd_raw fd = take (n + m) (rest c)"
        "fd_off fd = (if wi = 2 then n + fst (the (llen (drop n (rest c)))) else n + m)"
      by (auto simp: lfield_def split: option.splits)
    have T: "cursor_tag c = Ok ((f, wi), ahead c n)" using t by (simp add: cursor_tag_rest[OF ok])
    have n: "n \<le> length (rest c)" using ltag_consumed[OF t] by simp
    note ok1 = cursor_ok_ahead[OF ok n]
    have nm: "n + m \<le> length (rest c)" using lskip_consumed[OF s] n by simp
    then have len: "length (fd_raw fd) = n + m" by (simp add: fd)
    show ?thesis
    proof (cases "f = 1 \<and> wi = 2")
      case True
      then obtain a where ll: "llen (drop n (rest c)) = Some (a, m)" using s by (auto simp: lskip_def)
      have L: "cursor_len_range (ahead c n) = Ok (rng (cur_pos c + n + a) (cur_pos c + n + m), ahead (ahead c n) m)"
        using ll by (simp add: cursor_len_range_rest[OF ok1] rest_ahead)
      show ?thesis
        using nd T True L ll len fd by (simp add: any_value_string_loop.simps[of c] fds is_len_def frange_def add.assoc)
    next
      case False
      have S: "cursor_skip (ahead c n) wi = Ok (ahead c (n + m))"
        using s by (simp add: cursor_skip_rest[OF ok1] rest_ahead)
      have "any_value_string_loop (ahead c (n + m)) = Ok (first_string (cur_pos (ahead c (n + m))) gds)"
        by (rule "1.IH"[OF nd T refl]) (use False S cursor_ok_ahead[OF ok nm] gds len in \<open>auto simp: rest_ahead\<close>)
      with nd T S False len fd show ?thesis
        by (auto simp: any_value_string_loop.simps[of c] fds is_len_def)
    qed
  qed
qed

lemma decode_any_find:
  "wire_fields bs = Some gds \<Longrightarrow> decode_any bs = Some (map_option payload (find (is_len 1) gds))"
proof (induction bs arbitrary: gds rule: decode_any.induct)
  case (1 bs)
  show ?case
  proof (cases "bs = []")
    case False
    with "1.prems" obtain fd gds' where "lfield bs = Some fd" "wire_fields (drop (length (fd_raw fd)) bs) = Some gds'"
      "gds = fd # gds'" by (auto simp: fields_Cons_iff)
    with "1.IH" False show ?thesis by (simp add: decode_any.simps[of bs])
  qed (use "1.prems" in \<open>simp add: decode_any.simps\<close>)
qed

lemma gov_string_out:
  assumes "gov_string raw env masks idx r = Some out"
  shows "out_bytes raw r out = masked_str raw env masks idx r"
  using assms by (auto simp: gov_string_def Let_def masked_str_def vw_def split: if_splits)

lemma gov_any_run:
  assumes "gov_run (edit_len 1 (gov_string raw env masks idx)) p fds x = Some (x', ch, bs)" "length bs < 2 ^ 64"
    and "\<forall>fd \<in> set fds. lfield (fd_raw fd) = Some fd" "bslice raw p b = concat (map fd_raw fds)" "p \<le> b" "b \<le> length raw"
  shows "\<exists>gds. wire_fields bs = Some gds \<and>
    map_option payload (find (is_len 1) gds) = map_option (masked_str raw env masks idx) (first_string p fds)"
  using assms
proof (induction fds arbitrary: p x ch bs)
  case Nil
  then show ?case by auto
next
  case (Cons fd fds)
  let ?q = "p + length (fd_raw fd)"
  have len: "b - p = length (fd_raw fd) + length (concat (map fd_raw fds))"
    using Cons.prems(4,6) length_bslice[of b raw p] by simp
  have q: "?q \<le> b" using len Cons.prems(5) by simp
  have "bslice raw p ?q @ bslice raw ?q b = fd_raw fd @ concat (map fd_raw fds)"
    using q Cons.prems(4) by (simp add: bslice_append)
  moreover have "length (bslice raw p ?q) = length (fd_raw fd)"
    using q Cons.prems(6) by (simp add: length_bslice)
  ultimately have sl: "bslice raw p ?q = fd_raw fd" "bslice raw ?q b = concat (map fd_raw fds)"
    by (simp_all add: append_eq_append_conv)
  from gov_run_Cons[OF Cons.prems(1)] obtain x1 out ch1 bs1 where g: "edit_len 1 (gov_string raw env masks idx) p fd x = Some (x1, out)"
    "gov_run (edit_len 1 (gov_string raw env masks idx)) ?q fds x1 = Some (x', ch1, bs1)" "bs = field_out fd out @ bs1" .
  have lf: "lfield (fd_raw fd) = Some fd" using Cons.prems(3) by simp
  from Cons.IH[OF g(2) _ _ sl(2) q Cons.prems(6)] Cons.prems(2,3) g(3) obtain gds1 where IH: "wire_fields bs1 = Some gds1"
    "map_option payload (find (is_len 1) gds1) = map_option (masked_str raw env masks idx) (first_string ?q fds)" by auto
  show ?case
  proof (cases "is_len 1 fd")
    case False
    with g lf have "wire_fields (field_out fd out) = Some [fd]" by (auto simp: edit_len_def wire_fields_same)
    with IH False g(3) fields_append[of "field_out fd out" "[fd]" bs1] show ?thesis by auto
  next
    case True
    with g(1) obtain o' where o': "gov_string raw env masks idx (frange p fd) = Some o'" "out = map_option (len_field 1) o'"
      by (auto simp: edit_len_def)
    have pl: "vw raw (frange p fd) = payload fd"
      using bslice_payload[OF sl(1) lfield_raw(3)[OF lf]] by (simp add: vw_def frange_def)
    have "\<exists>gd. wire_fields (field_out fd out) = Some [gd] \<and> is_len 1 gd \<and> payload gd = out_bytes raw (frange p fd) o'"
    proof (cases o')
      case None
      with o' lf True pl show ?thesis by (auto simp: wire_fields_same)
    next
      case (Some pl')
      with o' Cons.prems(2) g(3) have "wire_fields (field_out fd out) = Some [len_field_of 1 pl']"
        by (auto intro!: wire_fields_new)
      with Some show ?thesis by (auto simp: is_len_def)
    qed
    then obtain gd where gd: "wire_fields (field_out fd out) = Some [gd]" "is_len 1 gd"
      "payload gd = masked_str raw env masks idx (frange p fd)"
      using gov_string_out[OF o'(1)] by auto
    with IH True g(3) fields_append[of "field_out fd out" "[gd]" bs1] show ?thesis by auto
  qed
qed

lemma gov_any_decode:
  assumes w: "win_ok raw w" and v: "any_value_string raw w = Ok v" and g: "gov_any raw env masks idx w = Some out"
    and l: "length (out_bytes raw w out) < 2 ^ 64"
  shows "decode_any (out_bytes raw w out) = Some (map_option (masked_str raw env masks idx) v)"
proof -
  from g obtain fds x ch bs where fds: "wire_fields (vw raw w) = Some fds"
    and r: "gov_run (edit_len 1 (gov_string raw env masks idx)) (rstart w) fds () = Some (x, ch, bs)"
    and out: "out = (if ch then Some bs else None)"
    by (auto simp: gov_any_def gov_window_def bind_eq_Some_conv)
  have b: "out_bytes raw w out = bs"
    using out gov_run_out[OF r] fields_raw[OF fds] by auto
  have "any_value_string raw w = Ok (first_string (rstart w) fds)"
    using any_value_first_string[of "cursor_new raw w" fds] w fds by (simp add: any_value_string_def vw_def)
  with v have "v = first_string (rstart w) fds" by simp
  moreover have "\<exists>gds. wire_fields bs = Some gds \<and>
      map_option payload (find (is_len 1) gds) = map_option (masked_str raw env masks idx) (first_string (rstart w) fds)"
    by (rule gov_any_run[OF r]) (use w l b fds fields_lfield[OF fds] fields_raw[OF fds] in \<open>auto simp: vw_def win_ok_def in_window_def\<close>)
  ultimately show ?thesis using b decode_any_find by auto
qed

section \<open>Messages\<close>

text \<open>What a field becomes under \<open>edit_len\<close>.\<close>

lemma edit_len_field:
  assumes "lfield (fd_raw fd) = Some fd" "edit_len n g p fd x = Some (x1, out)" "length (field_out fd out) < 2 ^ 64"
    and pl: "vw raw (frange p fd) = payload fd"
  shows "if is_len n fd
    then \<exists>o' gd. g (frange p fd) = Some o' \<and> wire_fields (field_out fd out) = Some [gd] \<and> is_len n gd \<and>
      payload gd = out_bytes raw (frange p fd) o' \<and> length (out_bytes raw (frange p fd) o') < 2 ^ 64
    else out = None \<and> wire_fields (field_out fd out) = Some [fd]"
proof (cases "is_len n fd")
  case False
  with assms(1,2) show ?thesis by (auto simp: edit_len_def wire_fields_same)
next
  case True
  with assms(2) obtain o' where o': "g (frange p fd) = Some o'" "out = map_option (len_field n) o'"
    by (auto simp: edit_len_def)
  show ?thesis
  proof (cases o')
    case None
    have "length (payload fd) \<le> length (fd_raw fd)" by (simp add: payload_def)
    with None o' assms(1,3) True pl show ?thesis by (auto simp: wire_fields_same)
  next
    case (Some b)
    with o' assms(3) have "wire_fields (field_out fd out) = Some [len_field_of n b]" "length b < 2 ^ 64"
      by (auto intro!: wire_fields_new simp: length_len_field)
    with Some o' True show ?thesis by (auto simp: is_len_def)
  qed
qed

definition masked_attr :: "u8 list \<Rightarrow> envelope \<Rightarrow> mask_table \<Rightarrow> nat \<Rightarrow> attr_view \<Rightarrow> u8 list \<times> u8 list" where
  "masked_attr raw env masks idx a = (vw raw (av_key a), masked_str raw env masks idx (av_value a))"

lemma gov_kv_decode:
  assumes w: "win_ok raw w" and v: "parse_key_value raw w = Ok v" and g: "gov_kv raw env masks idx w = Some out"
    and l: "length (out_bytes raw w out) < 2 ^ 64"
  shows "decode_kv (out_bytes raw w out) = Some (map_option (masked_attr raw env masks idx) v)"
proof -
  let ?m = "masked_str raw env masks idx"
  let ?R = "\<lambda>(_ :: unit) s t. t = (map_option (vw raw) (fst s), map_option ?m (snd s))"
  from v obtain kv where kv: "walk id (key_value_arms raw) (cursor_new raw w) (None, None) = Ok kv"
    and v': "v = (case kv of (Some key, Some value) \<Rightarrow> Some \<lparr>av_key = key, av_value = value\<rparr> | _ \<Rightarrow> None)"
    by (auto simp: parse_key_value_def result_simps)
  from g obtain x where x: "gov_window (edit_len 2 (gov_any raw env masks idx)) raw w () = Some (x, out)"
    by (auto simp: gov_kv_def)
  have "\<exists>t'. decode_fields decode_kv_step (out_bytes raw w out) (None, None) = Some t' \<and> ?R x kv t'"
  proof (rule window_sim[OF w arms_match_parser(1) kv x l])
    show "?R () (None, None) (None, None)" by simp
  next
    fix fd p x s x1 out s1 t
    assume lf: "lfield (fd_raw fd) = Some fd" and r: "win_ok raw (frange p fd)" "vw raw (frange p fd) = payload fd"
      and R: "?R x s t" and e: "edit_len 2 (gov_any raw env masks idx) p fd x = Some (x1, out)"
        "length (field_out fd out) < 2 ^ 64"
      and st: "(case key_value_arms raw (fd_num fd) (fd_wire fd) of
          TakeLen k \<Rightarrow> k p (frange p fd) (p + length (fd_raw fd)) s
        | TakeVarint k \<Rightarrow> k (fd_val fd) s | SkipField \<Rightarrow> Ok s) = Ok s1"
    note E = edit_len_field[OF lf e r(2)]
    show "\<exists>gds t1. wire_fields (field_out fd out) = Some gds \<and> fold_opt decode_kv_step gds t = Some t1 \<and> ?R x1 s1 t1"
    proof (cases "is_len 2 fd")
      case True
      with E obtain o' gd where o': "gov_any raw env masks idx (frange p fd) = Some o'"
        "wire_fields (field_out fd out) = Some [gd]" "is_len 2 gd" "payload gd = out_bytes raw (frange p fd) o'"
        "length (out_bytes raw (frange p fd) o') < 2 ^ 64" by auto
      from st True obtain av where av: "any_value_string raw (frange p fd) = Ok av" "s1 = (fst s, av)"
        by (cases s) (auto simp: key_value_arms_def is_len_def result_simps)
      from gov_any_decode[OF r(1) av(1) o'(1,5)] o' av R show ?thesis
        by (auto simp: decode_kv_step_def is_len_def)
    next
      case False
      with E st R r(2) show ?thesis
        by (cases s) (auto simp: key_value_arms_def is_len_def decode_kv_step_def split: if_splits)
    qed
  qed
  with v' show ?thesis
    by (auto simp: decode_kv_def masked_attr_def split: option.splits prod.splits)
qed

lemma gov_record_decode:
  assumes w: "win_ok raw w" and v: "parse_log_record raw w ns svc = Ok rv"
    and g: "gov_record raw env masks idx w = Some out" and l: "length (out_bytes raw w out) < 2 ^ 64"
  shows "\<exists>r. decode_log (map_option (vw raw) ns) (map_option (vw raw) svc) (out_bytes raw w out) = Some r \<and>
    (body_clear env idx rv \<longrightarrow> r = masked_record raw env masks idx rv)"
proof -
  let ?m = "masked_str raw env masks idx" and ?a = "masked_attr raw env masks idx"
  let ?d = "\<lambda>s. \<lparr>lr_body = ?m (ll_body s), lr_trace = map_option (vw raw) (ll_trace_id s), lr_attrs = map ?a (ll_attrs s),
      lr_severity = ll_severity_number s, lr_namespace = map_option (vw raw) ns, lr_service = map_option (vw raw) svc\<rparr>"
  let ?s = "\<lparr>ll_body = rng (rstart w) (rstart w), ll_trace_id = None, ll_severity_number = None, ll_attrs = []\<rparr>"
  let ?R = "\<lambda>(_ :: unit) s t. t = ?d s \<or> rlen (ll_body s) = 0 \<and> t = (?d s)\<lparr>lr_body := []\<rparr>"
  let ?e = "\<lparr>lr_body = [], lr_trace = None, lr_attrs = [], lr_severity = None,
      lr_namespace = map_option (vw raw) ns, lr_service = map_option (vw raw) svc\<rparr>"
  from v obtain ll where ll: "walk id (log_record_arms raw) (cursor_new raw w) ?s = Ok ll"
    and rv: "rv = \<lparr>rv_body = ll_body ll, rv_trace_id = ll_trace_id ll, rv_attrs = ll_attrs ll,
           rv_severity_number = ll_severity_number ll, rv_namespace = ns, rv_service_name = svc\<rparr>"
    by (auto simp: parse_log_record_def result_simps)
  from g obtain x where x: "gov_window (edit_record raw env masks idx) raw w () = Some (x, out)"
    by (auto simp: gov_record_def)
  have "\<exists>t'. decode_fields decode_log_step (out_bytes raw w out) ?e = Some t' \<and> ?R x ll t'"
  proof (rule window_sim[OF w arms_match_parser(2) ll x l])
    show "?R () ?s ?e" by (simp add: rlen_def)
  next
    fix fd p x s x1 out s1 t
    assume lf: "lfield (fd_raw fd) = Some fd" and r: "win_ok raw (frange p fd)" "vw raw (frange p fd) = payload fd"
      and R: "?R x s t" and e: "edit_record raw env masks idx p fd x = Some (x1, out)"
        "length (field_out fd out) < 2 ^ 64"
      and st: "(case log_record_arms raw (fd_num fd) (fd_wire fd) of
          TakeLen k \<Rightarrow> k p (frange p fd) (p + length (fd_raw fd)) s
        | TakeVarint k \<Rightarrow> k (fd_val fd) s | SkipField \<Rightarrow> Ok s) = Ok s1"
    show "\<exists>gds t1. wire_fields (field_out fd out) = Some gds \<and> fold_opt decode_log_step gds t = Some t1 \<and> ?R x1 s1 t1"
    proof (cases "is_len 5 fd")
      case five: True
      with e(1) have e1: "edit_len 5 (gov_any raw env masks idx) p fd x = Some (x1, out)" by (simp add: edit_record_def)
      from edit_len_field[OF lf e1 e(2) r(2)] five obtain o' gd where o': "gov_any raw env masks idx (frange p fd) = Some o'"
        "wire_fields (field_out fd out) = Some [gd]" "is_len 5 gd" "payload gd = out_bytes raw (frange p fd) o'"
        "length (out_bytes raw (frange p fd) o') < 2 ^ 64" by auto
      from st five obtain av where av: "any_value_string raw (frange p fd) = Ok av"
        "s1 = (case av of Some r \<Rightarrow> s\<lparr>ll_body := r\<rparr> | None \<Rightarrow> s)"
        by (auto simp: log_record_arms_def is_len_def result_simps split: option.splits)
      from gov_any_decode[OF r(1) av(1) o'(1,5)] o' av R show ?thesis
        by (auto simp: decode_log_step_def is_len_def split: option.splits)
    next
      case nf: False
      with e(1) have e1: "edit_len 6 (gov_kv raw env masks idx) p fd x = Some (x1, out)" by (simp add: edit_record_def)
      note E = edit_len_field[OF lf e1 e(2) r(2)]
      show ?thesis
      proof (cases "is_len 6 fd")
        case six: True
        with E obtain o' gd where o': "gov_kv raw env masks idx (frange p fd) = Some o'"
          "wire_fields (field_out fd out) = Some [gd]" "is_len 6 gd" "payload gd = out_bytes raw (frange p fd) o'"
          "length (out_bytes raw (frange p fd) o') < 2 ^ 64" by auto
        from st six obtain av where av: "parse_key_value raw (frange p fd) = Ok av"
          "s1 = (case av of Some a \<Rightarrow> s\<lparr>ll_attrs := ll_attrs s @ [a]\<rparr> | None \<Rightarrow> s)"
          by (auto simp: log_record_arms_def is_len_def result_simps split: option.splits)
        from gov_kv_decode[OF r(1) av(1) o'(1,5)] o' av R show ?thesis
          by (auto simp: decode_log_step_def is_len_def split: option.splits)
      next
        case ns: False
        have "rlen (frange p fd) = length (payload fd)"
          using r length_vw[of raw "frange p fd"] by (simp add: win_ok_def)
        with E ns nf st R r(2) show ?thesis
          by (auto simp: log_record_arms_def is_len_def decode_log_step_def split: if_splits)
      qed
    qed
  qed
  then obtain r where r: "decode_fields decode_log_step (out_bytes raw w out) ?e = Some r" "?R x ll r" by blast
  moreover have "r = masked_record raw env masks idx rv" if "body_clear env idx rv"
  proof -
    have "lr_body r = ?m (ll_body ll)"
      using r(2) that masked_str_no_spans[of env idx "ll_body ll" raw masks]
      by (auto simp: body_clear_def rv vw_def bslice_def rlen_def)
    with r(2) show ?thesis by (auto simp: rv masked_record_def view_record_def masked_attr_def)
  qed
  ultimately show ?thesis by (simp add: decode_log_def)
qed

section \<open>Containers\<close>

lemma edit_child_field:
  assumes "lfield (fd_raw fd) = Some fd" "edit_child n g p fd i = Some (j, out)" "length (field_out fd out) < 2 ^ 64"
    and pl: "vw raw (frange p fd) = payload fd"
  shows "if is_len n fd
    then \<exists>o' gd. g (frange p fd) i = Some (j, o') \<and> wire_fields (field_out fd out) = Some [gd] \<and> is_len n gd \<and>
      payload gd = out_bytes raw (frange p fd) o' \<and> length (out_bytes raw (frange p fd) o') < 2 ^ 64
    else out = None \<and> j = i \<and> wire_fields (field_out fd out) = Some [fd]"
proof -
  have "edit_len n (\<lambda>r. map_option snd (g r i)) p fd () = Some ((), out)"
    using assms(2) by (auto simp: edit_child_def edit_len_def split: if_splits)
  from edit_len_field[OF assms(1) this assms(3) pl] assms(2) show ?thesis
    by (auto simp: edit_child_def split: if_splits)
qed

lemma kept_records_step:
  "kept_records raw env masks i (ext @ [rv]) = kept_records raw env masks i ext @
    (if sampling_verdict (ev_decisions env) (i + length ext) = Drop then [] else [masked_record raw env masks (i + length ext) rv])"
  by (simp add: kept_records_append)

lemma gov_scope_decode:
  assumes w: "win_ok raw w" and v: "parse_scope_logs raw w ns svc recs = Ok recs'"
    and g: "gov_scope raw env masks w (length recs) = Some (j, out)" and l: "length (out_bytes raw w out) < 2 ^ 64"
  shows "\<exists>ext ts. recs' = recs @ ext \<and> j = length recs' \<and>
    decode_scope (map_option (vw raw) ns) (map_option (vw raw) svc) (out_bytes raw w out) = Some ts \<and>
    (bodies_clear env (length recs) ext \<longrightarrow> ts = kept_records raw env masks (length recs) ext)"
proof -
  let ?ns = "map_option (vw raw) ns" and ?svc = "map_option (vw raw) svc"
  let ?K = "kept_records raw env masks (length recs)"
  let ?R = "\<lambda>i s t. \<exists>ext. s = recs @ ext \<and> i = length s \<and> (bodies_clear env (length recs) ext \<longrightarrow> t = ?K ext)"
  let ?g = "\<lambda>bs. map_option (\<lambda>r. [r]) (decode_log ?ns ?svc bs)"
  let ?dstep = "\<lambda>fd out. if is_len 2 fd then map_option ((@) out) (?g (payload fd)) else Some out"
  have "\<exists>t'. decode_fields ?dstep (out_bytes raw w out) [] = Some t' \<and> ?R j recs' t'"
  proof (rule window_sim[OF w arms_match_parser(3) v[unfolded parse_scope_logs_def] g[unfolded gov_scope_def] l])
    show "?R (length recs) recs []" by simp
  next
    fix fd p x s x1 out s1 t
    assume lf: "lfield (fd_raw fd) = Some fd" and r: "win_ok raw (frange p fd)" "vw raw (frange p fd) = payload fd"
      and R: "?R x s t" and e: "edit_scope raw env masks p fd x = Some (x1, out)" "length (field_out fd out) < 2 ^ 64"
      and st: "(case scope_logs_arms raw ns svc (fd_num fd) (fd_wire fd) of
          TakeLen k \<Rightarrow> k p (frange p fd) (p + length (fd_raw fd)) s
        | TakeVarint k \<Rightarrow> k (fd_val fd) s | SkipField \<Rightarrow> Ok s) = Ok s1"
    from R obtain ext where ext: "s = recs @ ext" "x = length s" "bodies_clear env (length recs) ext \<longrightarrow> t = ?K ext" by blast
    show "\<exists>gds t1. wire_fields (field_out fd out) = Some gds \<and> fold_opt ?dstep gds t = Some t1 \<and> ?R x1 s1 t1"
    proof (cases "is_len 2 fd")
      case False
      with e have e1: "edit_child 2 (\<lambda>w i. map_option (Pair (i + 1)) (gov_record raw env masks i w)) p fd x = Some (x1, out)"
        by (simp add: edit_scope_def)
      from edit_child_field[OF lf e1 e(2) r(2)] False st R show ?thesis
        by (auto simp: scope_logs_arms_def is_len_def split: if_splits)
    next
      case True
      with st obtain rv where rv: "parse_log_record raw (frange p fd) ns svc = Ok rv" "s1 = s @ [rv]"
        by (auto simp: scope_logs_arms_def is_len_def result_simps)
      show ?thesis
      proof (cases "sampling_verdict (ev_decisions env) x = Drop")
        case drop: True
        with e(1) True have "x1 = x + 1" "out = Some []" by (auto simp: edit_scope_def)
        with rv ext drop show ?thesis
          by (intro exI[of _ "[]"] exI[of _ t]) (auto intro!: exI[of _ "ext @ [rv]"] simp: kept_records_step bodies_clear_append)
      next
        case keep: False
        with e(1) have e1: "edit_child 2 (\<lambda>w i. map_option (Pair (i + 1)) (gov_record raw env masks i w)) p fd x = Some (x1, out)"
          by (simp add: edit_scope_def)
        from edit_child_field[OF lf e1 e(2) r(2)] True obtain o' gd where o': "x1 = x + 1"
          "gov_record raw env masks x (frange p fd) = Some o'" "wire_fields (field_out fd out) = Some [gd]" "is_len 2 gd"
          "payload gd = out_bytes raw (frange p fd) o'" "length (out_bytes raw (frange p fd) o') < 2 ^ 64" by auto
        from gov_record_decode[OF r(1) rv(1) o'(2,6)] obtain r' where "decode_log ?ns ?svc (payload gd) = Some r'"
          "body_clear env x rv \<longrightarrow> r' = masked_record raw env masks x rv" unfolding o'(5) by blast
        with o' rv ext keep show ?thesis
          by (intro exI[of _ "[gd]"]) (auto intro!: exI[of _ "ext @ [rv]"] simp: kept_records_step bodies_clear_append)
      qed
    qed
  qed
  then obtain ext ts where "recs' = recs @ ext" "j = length recs'"
    "decode_fields ?dstep (out_bytes raw w out) [] = Some ts" "bodies_clear env (length recs) ext \<longrightarrow> ts = ?K ext" by blast
  moreover have "decode_fields ?dstep bs [] = decode_scope ?ns ?svc bs" for bs
    unfolding decode_fields_def decode_scope_def sub_messages_def fold_opt_collect[of "is_len 2" ?g payload _ "[]"]
    by (simp only: append_Nil map_opt_concat_single)
  ultimately show ?thesis by auto
qed

text \<open>The scopes of a resource, threading the index.\<close>

fun gov_scopes :: "u8 list \<Rightarrow> envelope \<Rightarrow> mask_table \<Rightarrow> brange list \<Rightarrow> nat \<Rightarrow> (nat \<times> u8 list list) option" where
  "gov_scopes raw env masks [] i = Some (i, [])"
| "gov_scopes raw env masks (w # ws) i =
     Option.bind (gov_scope raw env masks w i) (\<lambda>(j, o').
       map_option (\<lambda>(k, bss). (k, out_bytes raw w o' # bss)) (gov_scopes raw env masks ws j))"

lemma gov_scopes_snoc:
  "gov_scopes raw env masks ws i = Some (j, bss) \<Longrightarrow> gov_scope raw env masks w j = Some (k, o') \<Longrightarrow>
    gov_scopes raw env masks (ws @ [w]) i = Some (k, bss @ [out_bytes raw w o'])"
  by (induction ws arbitrary: i bss) (auto simp: bind_eq_Some_conv)

lemma gov_scopes_decode:
  assumes "list_all (win_ok raw) ws" "parse_scopes raw ns svc ws recs = Ok recs'"
    "gov_scopes raw env masks ws (length recs) = Some (j, bss)" "list_all (\<lambda>bs. length bs < 2 ^ 64) bss"
  shows "\<exists>ext ts. recs' = recs @ ext \<and> j = length recs' \<and>
    map_option concat (map_opt (decode_scope (map_option (vw raw) ns) (map_option (vw raw) svc)) bss) = Some ts \<and>
    (bodies_clear env (length recs) ext \<longrightarrow> ts = kept_records raw env masks (length recs) ext)"
  using assms
proof (induction ws arbitrary: recs j bss)
  case (Cons w ws)
  from Cons.prems(2) obtain recs1 where p: "parse_scope_logs raw w ns svc recs = Ok recs1" "parse_scopes raw ns svc ws recs1 = Ok recs'"
    by (auto simp: result_simps)
  from Cons.prems(3) obtain j1 o1 bss1 where g: "gov_scope raw env masks w (length recs) = Some (j1, o1)"
    "gov_scopes raw env masks ws j1 = Some (j, bss1)" "bss = out_bytes raw w o1 # bss1"
    by (auto simp: bind_eq_Some_conv)
  have "win_ok raw w" using Cons.prems(1) by simp
  from gov_scope_decode[OF this p(1) g(1)] Cons.prems(4) g(3) obtain ext1 ts1 where e1: "recs1 = recs @ ext1"
    "j1 = length recs1" "decode_scope (map_option (vw raw) ns) (map_option (vw raw) svc) (out_bytes raw w o1) = Some ts1"
    "bodies_clear env (length recs) ext1 \<longrightarrow> ts1 = kept_records raw env masks (length recs) ext1" by auto
  from Cons.IH[OF _ p(2)] Cons.prems(1,4) g(2,3) e1(2) obtain ext2 ts2 where "recs' = recs1 @ ext2" "j = length recs'"
    "map_option concat (map_opt (decode_scope (map_option (vw raw) ns) (map_option (vw raw) svc)) bss1) = Some ts2"
    "bodies_clear env (length recs1) ext2 \<longrightarrow> ts2 = kept_records raw env masks (length recs1) ext2" by auto
  with e1 g(3) show ?case
    by (auto intro!: exI[of _ "ext1 @ ext2"] simp: kept_records_append bodies_clear_append)
qed auto

lemma gov_resource_decode:
  assumes w: "win_ok raw w" and v: "parse_resource_logs raw w recs = Ok recs'"
    and g: "gov_resource raw env masks w (length recs) = Some (j, out)" and l: "length (out_bytes raw w out) < 2 ^ 64"
  shows "\<exists>ext ts. recs' = recs @ ext \<and> j = length recs' \<and> decode_resource (out_bytes raw w out) = Some ts \<and>
    (bodies_clear env (length recs) ext \<longrightarrow> ts = kept_records raw env masks (length recs) ext)"
proof -
  let ?s = "\<lparr>rl_namespace = None, rl_service_name = None, rl_scopes = []\<rparr>"
  let ?ns = "\<lambda>s. (map_option (vw raw) (rl_namespace s), map_option (vw raw) (rl_service_name s))"
  from v obtain rl where rl: "walk id (resource_logs_arms raw) (cursor_new raw w) ?s = Ok rl"
    "parse_scopes raw (rl_namespace rl) (rl_service_name rl) (rl_scopes rl) recs = Ok recs'"
    by (auto simp: parse_resource_logs_def result_simps)
  let ?dstep = "\<lambda>fd (s, ws). map_option (\<lambda>s. (s, if is_len 2 fd then ws @ [payload fd] else ws)) (decode_resource_step fd s)"
  let ?R = "\<lambda>i s t. fst t = ?ns s \<and> gov_scopes raw env masks (rl_scopes s) (length recs) = Some (i, snd t) \<and>
      list_all (\<lambda>bs. length bs < 2 ^ 64) (snd t)"
  have "\<exists>t'. decode_fields ?dstep (out_bytes raw w out) ((None, None), []) = Some t' \<and> ?R j rl t'"
  proof (rule window_sim[OF w arms_match_parser(5) rl(1) g[unfolded gov_resource_def] l])
    show "?R (length recs) ?s ((None, None), [])" by simp
  next
    fix fd p x s x1 out s1 t
    assume lf: "lfield (fd_raw fd) = Some fd" and r: "win_ok raw (frange p fd)" "vw raw (frange p fd) = payload fd"
      and R: "?R x s t" and e: "edit_child 2 (gov_scope raw env masks) p fd x = Some (x1, out)" "length (field_out fd out) < 2 ^ 64"
      and st: "(case resource_logs_arms raw (fd_num fd) (fd_wire fd) of
          TakeLen k \<Rightarrow> k p (frange p fd) (p + length (fd_raw fd)) s
        | TakeVarint k \<Rightarrow> k (fd_val fd) s | SkipField \<Rightarrow> Ok s) = Ok s1"
    note E = edit_child_field[OF lf e r(2)]
    obtain tn tw where t: "t = (tn, tw)" by (cases t)
    show "\<exists>gds t1. wire_fields (field_out fd out) = Some gds \<and> fold_opt ?dstep gds t = Some t1 \<and> ?R x1 s1 t1"
    proof (cases "is_len 2 fd")
      case True
      with E obtain o' gd where o': "gov_scope raw env masks (frange p fd) x = Some (x1, o')"
        "wire_fields (field_out fd out) = Some [gd]" "is_len 2 gd" "payload gd = out_bytes raw (frange p fd) o'"
        "length (out_bytes raw (frange p fd) o') < 2 ^ 64" by auto
      from st True have s1: "s1 = s\<lparr>rl_scopes := rl_scopes s @ [frange p fd]\<rparr>"
        by (simp add: resource_logs_arms_def is_len_def)
      from gov_scopes_snoc[OF _ o'(1)] R o' t show ?thesis
        by (auto simp: s1 decode_resource_step_def is_len_def)
    next
      case False
      with E have o': "out = None" "x1 = x" "wire_fields (field_out fd out) = Some [fd]" by auto
      show ?thesis
      proof (cases "is_len 1 fd")
        case True
        with st obtain ra where ra: "parse_resource_attrs raw (frange p fd) = Ok ra"
          "s1 = s\<lparr>rl_namespace := ra_namespace ra, rl_service_name := ra_service_name ra\<rparr>"
          by (auto simp: resource_logs_arms_def is_len_def result_simps)
        with resource_attrs_refines[OF r(1)] r(2) have "decode_attrs (payload fd) = Some (?ns s1)" by simp
        with True False o' R t ra(2) show ?thesis by (auto simp: decode_resource_step_def)
      next
        case nf: False
        with st False have "s1 = s" by (auto simp: resource_logs_arms_def is_len_def split: if_splits)
        with False nf o' R t show ?thesis by (auto simp: decode_resource_step_def)
      qed
    qed
  qed
  then obtain gds bss where gds: "wire_fields (out_bytes raw w out) = Some gds"
    "fold_opt ?dstep gds ((None, None), []) = Some (?ns rl, bss)"
    "gov_scopes raw env masks (rl_scopes rl) (length recs) = Some (j, bss)" "list_all (\<lambda>bs. length bs < 2 ^ 64) bss"
    by (auto simp: decode_fields_def bind_eq_Some_conv)
  have "fold_opt ?dstep gds (s, ws) =
      map_option (\<lambda>s'. (s', ws @ sub_messages 2 gds)) (fold_opt decode_resource_step gds s)" for gds s ws
    by (rule resource_step_split)
  with gds(2) have "fold_opt decode_resource_step gds (None, None) = Some (?ns rl)" "bss = sub_messages 2 gds" by auto
  moreover have "list_all (win_ok raw) (rl_scopes rl)"
    using resource_logs_walk_post[OF w] rl(1) by simp
  from gov_scopes_decode[OF this rl(2) gds(3,4)] obtain ext ts where "recs' = recs @ ext" "j = length recs'"
    "map_option concat (map_opt (decode_scope (map_option (vw raw) (rl_namespace rl)) (map_option (vw raw) (rl_service_name rl))) bss) = Some ts"
    "bodies_clear env (length recs) ext \<longrightarrow> ts = kept_records raw env masks (length recs) ext" by blast
  ultimately show ?thesis using gds(1) by (auto simp: decode_resource_def)
qed

lemma gov_request_decode:
  assumes b: "length raw < 2 ^ 64" and t: "bodies_clear env 0 recs" and v: "parse_export_logs_request raw [] = Ok recs"
    and g: "gov_request raw env masks = Some (j, out)"
    and l: "length (out_bytes raw (rng 0 (length raw)) out) < 2 ^ 64"
  shows "j = length recs \<and> decode_request (out_bytes raw (rng 0 (length raw)) out) = Some (kept_records raw env masks 0 recs)"
proof -
  let ?w = "rng 0 (length raw)"
  let ?R = "\<lambda>i s t. i = length s \<and> (bodies_clear env 0 s \<longrightarrow> t = kept_records raw env masks 0 s)"
  let ?dstep = "\<lambda>fd out. if is_len 1 fd then map_option ((@) out) (decode_resource (payload fd)) else Some out"
  have "\<exists>t'. decode_fields ?dstep (out_bytes raw ?w out) [] = Some t' \<and> ?R j recs t'"
  proof (rule window_sim[OF win_ok_whole[OF b] arms_match_parser(6) v[unfolded parse_export_logs_request_def] g[unfolded gov_request_def] l])
    show "?R 0 [] []" by simp
  next
    fix fd p x s x1 out s1 t
    assume lf: "lfield (fd_raw fd) = Some fd" and r: "win_ok raw (frange p fd)" "vw raw (frange p fd) = payload fd"
      and R: "?R x s t" and e: "edit_child 1 (gov_resource raw env masks) p fd x = Some (x1, out)" "length (field_out fd out) < 2 ^ 64"
      and st: "(case request_arms raw (fd_num fd) (fd_wire fd) of
          TakeLen k \<Rightarrow> k p (frange p fd) (p + length (fd_raw fd)) s
        | TakeVarint k \<Rightarrow> k (fd_val fd) s | SkipField \<Rightarrow> Ok s) = Ok s1"
    note E = edit_child_field[OF lf e r(2)]
    show "\<exists>gds t1. wire_fields (field_out fd out) = Some gds \<and> fold_opt ?dstep gds t = Some t1 \<and> ?R x1 s1 t1"
    proof (cases "is_len 1 fd")
      case True
      with E obtain o' gd where o': "gov_resource raw env masks (frange p fd) (length s) = Some (x1, o')"
        "wire_fields (field_out fd out) = Some [gd]" "is_len 1 gd" "payload gd = out_bytes raw (frange p fd) o'"
        "length (out_bytes raw (frange p fd) o') < 2 ^ 64" using R by auto
      from st True have "parse_resource_logs raw (frange p fd) s = Ok s1" by (simp add: request_arms_def is_len_def)
      from gov_resource_decode[OF r(1) this o'(1,5)] o' R show ?thesis
        by (auto simp: kept_records_append bodies_clear_append)
    next
      case False
      with E st R show ?thesis by (auto simp: request_arms_def is_len_def split: if_splits)
    qed
  qed
  moreover have "decode_fields ?dstep bs [] = decode_request bs" for bs
    by (simp add: decode_fields_def decode_request_def fold_opt_collect sub_messages_def)
  ultimately show ?thesis using t by auto
qed

section \<open>The walk counts the records that the parser found\<close>

lemma window_index:
  assumes w: "win_ok raw w" and m: "arms_match arms"
    and p: "walk conv arms (cursor_new raw w) s = Ok s'" and g: "gov_window f raw w x = Some (x', out)" and R: "R x s"
    and step: "\<And>fd p x s x1 out s1. win_ok raw (frange p fd) \<Longrightarrow> R x s \<Longrightarrow>
      (case arms (fd_num fd) (fd_wire fd) of
          TakeLen k \<Rightarrow> k p (frange p fd) (p + length (fd_raw fd)) s
        | TakeVarint k \<Rightarrow> k (fd_val fd) s | SkipField \<Rightarrow> Ok s) = Ok s1 \<Longrightarrow>
      f p fd x = Some (x1, out) \<Longrightarrow> R x1 s1"
  shows "R x' s'"
proof -
  from p w m obtain fds where fds: "wire_fields (vw raw w) = Some fds" "run_fields arms (rstart w) fds s = Ok s'"
    using walk_fields[of "cursor_new raw w" arms conv s s'] by (auto simp: vw_def)
  with g obtain ch bs where r: "gov_run f (rstart w) fds x = Some (x', ch, bs)" by (auto simp: gov_window_def)
  have "rstart w + length (concat (map fd_raw fds)) = rend w" "rend w \<le> length raw"
    using fields_raw[OF fds(1)] w by (auto simp: vw_def win_ok_def in_window_def length_bslice)
  moreover have "run_fields arms q gds s = Ok s' \<Longrightarrow> gov_run f q gds x = Some (x', ch, bs) \<Longrightarrow> R x s \<Longrightarrow>
      q + length (concat (map fd_raw gds)) \<le> length raw \<Longrightarrow> \<forall>fd \<in> set gds. lfield (fd_raw fd) = Some fd \<Longrightarrow> R x' s'"
    for q gds s x ch bs
  proof (induction gds arbitrary: q s x ch bs)
    case (Cons fd gds)
    from gov_run_Cons[OF Cons.prems(2)] obtain x1 out ch1 bs1 where g1: "f q fd x = Some (x1, out)"
      "gov_run f (q + length (fd_raw fd)) gds x1 = Some (x', ch1, bs1)" by metis
    from Cons.prems(1) obtain s1 where s1: "field_step arms q fd s = Ok s1" "run_fields arms (q + length (fd_raw fd)) gds s1 = Ok s'"
      by (auto simp: result_simps)
    have "fd_off fd \<le> length (fd_raw fd)" using lfield_raw(3)[of "fd_raw fd" fd] Cons.prems(5) by simp
    then have "win_ok raw (frange q fd)"
      using Cons.prems(4) w by (auto simp: win_ok_def in_window_def frange_def)
    from step[OF this Cons.prems(3) _ g1(1)] s1(1) have "R x1 s1"
      by (simp add: field_step_def frange_def cong: arm.case_cong)
    from Cons.IH[OF s1(2) g1(2) this] Cons.prems(4,5) show ?case by simp
  qed simp
  ultimately show ?thesis using fds(2) r R fields_lfield[OF fds(1)] by auto
qed

lemma gov_scope_count:
  assumes "win_ok raw w" "parse_scope_logs raw w ns svc recs = Ok recs'" "gov_scope raw env masks w (length recs) = Some (j, out)"
  shows "j = length recs'"
proof (rule window_index[OF assms(1) arms_match_parser(3) assms(2)[unfolded parse_scope_logs_def] assms(3)[unfolded gov_scope_def],
      where R = "\<lambda>i s. i = length s"])
  fix fd p x x1 out and s s1 :: "record_view list"
  assume "x = length s" "edit_scope raw env masks p fd x = Some (x1, out)"
    "(case scope_logs_arms raw ns svc (fd_num fd) (fd_wire fd) of
          TakeLen k \<Rightarrow> k p (frange p fd) (p + length (fd_raw fd)) s
        | TakeVarint k \<Rightarrow> k (fd_val fd) s | SkipField \<Rightarrow> Ok s) = Ok s1"
  then show "x1 = length s1"
    by (auto simp: scope_logs_arms_def edit_scope_def edit_child_def is_len_def result_simps split: if_splits)
qed simp

lemma gov_scopes_count:
  "list_all (win_ok raw) ws \<Longrightarrow> parse_scopes raw ns svc ws recs = Ok recs' \<Longrightarrow>
    gov_scopes raw env masks ws (length recs) = Some (j, bss) \<Longrightarrow> j = length recs'"
proof (induction ws arbitrary: recs bss)
  case (Cons w ws)
  then obtain recs1 j1 o1 bss1 where "parse_scope_logs raw w ns svc recs = Ok recs1" "parse_scopes raw ns svc ws recs1 = Ok recs'"
    "gov_scope raw env masks w (length recs) = Some (j1, o1)" "gov_scopes raw env masks ws j1 = Some (j, bss1)" "win_ok raw w"
    by (auto simp: bind_eq_Some_conv result_simps)
  with gov_scope_count[of raw w ns svc recs recs1] Cons show ?case by auto
qed auto

lemma gov_resource_count:
  assumes w: "win_ok raw w" and "parse_resource_logs raw w recs = Ok recs'" and g: "gov_resource raw env masks w (length recs) = Some (j, out)"
  shows "j = length recs'"
proof -
  from assms(2) obtain rl where rl: "walk id (resource_logs_arms raw) (cursor_new raw w)
      \<lparr>rl_namespace = None, rl_service_name = None, rl_scopes = []\<rparr> = Ok rl"
    "parse_scopes raw (rl_namespace rl) (rl_service_name rl) (rl_scopes rl) recs = Ok recs'"
    by (auto simp: parse_resource_logs_def result_simps)
  have "\<exists>bss. gov_scopes raw env masks (rl_scopes rl) (length recs) = Some (j, bss)"
  proof (rule window_index[OF w arms_match_parser(5) rl(1) g[unfolded gov_resource_def],
        where R = "\<lambda>i s. \<exists>bss. gov_scopes raw env masks (rl_scopes s) (length recs) = Some (i, bss)"])
    fix fd p x x1 out and s s1 :: resource_locals
    assume R: "\<exists>bss. gov_scopes raw env masks (rl_scopes s) (length recs) = Some (x, bss)"
      and e: "edit_child 2 (gov_scope raw env masks) p fd x = Some (x1, out)"
      and st: "(case resource_logs_arms raw (fd_num fd) (fd_wire fd) of
          TakeLen k \<Rightarrow> k p (frange p fd) (p + length (fd_raw fd)) s
        | TakeVarint k \<Rightarrow> k (fd_val fd) s | SkipField \<Rightarrow> Ok s) = Ok s1"
    show "\<exists>bss. gov_scopes raw env masks (rl_scopes s1) (length recs) = Some (x1, bss)"
    proof (cases "is_len 2 fd")
      case True
      with e obtain o' where "gov_scope raw env masks (frange p fd) x = Some (x1, o')" by (auto simp: edit_child_def)
      moreover from st True have "rl_scopes s1 = rl_scopes s @ [frange p fd]" by (auto simp: resource_logs_arms_def is_len_def)
      ultimately show ?thesis using R gov_scopes_snoc by metis
    next
      case False
      with e st have "x1 = x" "rl_scopes s1 = rl_scopes s"
        by (auto simp: edit_child_def resource_logs_arms_def is_len_def result_simps split: if_splits)
      with R show ?thesis by simp
    qed
  qed simp
  moreover have "list_all (win_ok raw) (rl_scopes rl)" using resource_logs_walk_post[OF w] rl(1) by simp
  ultimately show ?thesis using gov_scopes_count rl(2) by blast
qed

lemma gov_request_count:
  assumes "length raw < 2 ^ 64" "parse_export_logs_request raw [] = Ok recs" "gov_request raw env masks = Some (j, out)"
  shows "j = length recs"
proof (rule window_index[OF win_ok_whole[OF assms(1)] arms_match_parser(6) assms(2)[unfolded parse_export_logs_request_def]
      assms(3)[unfolded gov_request_def], where R = "\<lambda>i s. i = length s"])
  fix fd p x x1 out and s s1 :: "record_view list"
  assume "win_ok raw (frange p fd)" "x = length s" "edit_child 1 (gov_resource raw env masks) p fd x = Some (x1, out)"
    "(case request_arms raw (fd_num fd) (fd_wire fd) of
          TakeLen k \<Rightarrow> k p (frange p fd) (p + length (fd_raw fd)) s
        | TakeVarint k \<Rightarrow> k (fd_val fd) s | SkipField \<Rightarrow> Ok s) = Ok s1"
  then show "x1 = length s1"
    by (auto simp: request_arms_def edit_child_def is_len_def split: if_splits dest!: gov_resource_count)
qed simp

text \<open>No builder reports a count mismatch itself.\<close>

definition no_mismatch :: "(assemble_error, 'a) result \<Rightarrow> bool" where
  "no_mismatch r \<longleftrightarrow> (\<forall>a b. r \<noteq> Err (RecordCountMismatch a b))"

lemma no_mismatch_simps [simp]:
  "no_mismatch (Ok x)" "no_mismatch Panic" "no_mismatch (Err (UnknownMask m))" "no_mismatch (map_err WireError r')"
  by (cases r'; simp add: no_mismatch_def)+

lemma no_mismatch_rbind: "no_mismatch r \<Longrightarrow> (\<And>x. r = Ok x \<Longrightarrow> no_mismatch (f x)) \<Longrightarrow> no_mismatch (rbind r f)"
  by (cases r) (auto simp: no_mismatch_def)

lemma no_mismatch_walk:
  assumes L: "\<And>f w k ts r e s. arms f w = TakeLen k \<Longrightarrow> no_mismatch (k ts r e s)"
    and V: "\<And>f w k v s. arms f w = TakeVarint k \<Longrightarrow> no_mismatch (k v s)"
  shows "no_mismatch (walk WireError arms c s)"
proof -
  have st: "no_mismatch (walk_step WireError arms c s)" for c s
    unfolding walk_step_def
    by (cases c) (auto intro!: no_mismatch_rbind dest: L V split: arm.split prod.split)
  have "conv = WireError \<Longrightarrow> no_mismatch (walk conv arms' c s)" if "arms' = arms" for conv arms'
    using that
  proof (induction conv arms' c s rule: walk.induct)
    case (1 conv arms' c s)
    show ?case
    proof (cases "cursor_done c")
      case True
      then show ?thesis by (simp add: walk.simps[of conv arms' c s])
    next
      case False
      have "no_mismatch (walk conv arms' a b)" if "walk_step conv arms' c s = Ok (a, b)" for a b
        using 1 False that by simp
      then show ?thesis
        using st[of c s] False 1(2,3)
        by (subst walk.simps) (auto intro!: no_mismatch_rbind split: prod.splits)
    qed
  qed
  then show ?thesis by simp
qed

lemma no_mismatch_scalar: "no_mismatch (scalar_parts masks spans parts sz cur)"
  by (induction masks spans parts sz cur rule: scalar_parts.induct) (auto simp: Let_def split: option.splits)

lemma no_mismatch_any: "no_mismatch (build_any_value raw w idx env masks)"
  unfolding build_any_value_def
  by (rule no_mismatch_rbind[OF no_mismatch_walk])
    (auto simp: any_value_arms_def build_scalar_def Let_def split: if_splits option.splits prod.splits
      intro!: no_mismatch_rbind no_mismatch_scalar)

lemma no_mismatch_kv: "no_mismatch (build_key_value raw w idx env masks)"
  unfolding build_key_value_def
  by (rule no_mismatch_rbind[OF no_mismatch_walk])
    (auto simp: kv_build_arms_def split: if_splits intro!: no_mismatch_rbind no_mismatch_any)

lemma no_mismatch_record: "no_mismatch (build_record raw w idx env masks)"
proof -
  have "no_mismatch (walk WireError (record_build_arms raw idx env masks) c s)" for c s
    by (rule no_mismatch_walk)
      (auto simp: record_build_arms_def split: if_splits intro!: no_mismatch_rbind no_mismatch_any no_mismatch_kv)
  then show ?thesis unfolding build_record_def by (auto intro!: no_mismatch_rbind)
qed

lemma no_mismatch_container_walk:
  "(\<And>r i. no_mismatch (build r i)) \<Longrightarrow> no_mismatch (container_walk raw w n i build)"
  unfolding container_walk_def
  by (rule no_mismatch_rbind[OF no_mismatch_walk])
    (auto simp: container_arms_def split: if_splits intro!: no_mismatch_rbind)

lemma no_mismatch_container: "no_mismatch (build_container raw w n env masks i lv)"
  by (induction raw w n env masks i lv rule: build_container.induct)
    (auto intro!: no_mismatch_container_walk no_mismatch_rbind no_mismatch_record)

section \<open>Which spans take effect\<close>

lemma drop_overlaps_subset: "set (drop_overlaps cur spans) \<subseteq> set spans"
  by (induction cur spans rule: drop_overlaps.induct) auto

lemma drop_overlaps_covers:
  assumes "sorted_wrt (\<lambda>a b. rstart (fst a) \<le> rstart (fst b)) spans" "\<forall>s \<in> set spans. rstart (fst s) < rend (fst s)"
    and "x \<in> set spans" "cur \<le> rstart (fst x)"
  shows "\<exists>k \<in> set (drop_overlaps cur spans). rstart (fst k) \<le> rstart (fst x) \<and> rstart (fst x) < rend (fst k)"
  using assms
proof (induction cur spans rule: drop_overlaps.induct)
  case (2 cur r m spans)
  show ?case
  proof (cases "rstart r < cur \<or> x \<noteq> (r, m) \<and> rend r \<le> rstart (fst x)")
    case True
    with 2 show ?thesis by (cases "rstart r < cur") auto
  next
    case False
    with 2 show ?thesis by (intro bexI[of _ "(r, m)"]) auto
  qed
qed simp

lemma sort_spans_sorted: "sorted_wrt (\<lambda>a b. rstart (fst a) \<le> rstart (fst b)) (sort_key span_key spans)"
proof -
  have "sorted_wrt (\<lambda>a b. span_key a \<le> span_key b) (sort_key span_key spans)"
    using sorted_sort_key[of span_key spans] by (simp add: sorted_map)
  then show ?thesis
    by (rule sorted_wrt_mono_rel[rotated]) (auto simp: span_key_def less_eq_prod_def)
qed

section \<open>The exported bytes\<close>

lemma assemble_decodes:
  assumes "length (ev_raw env) < 2 ^ 64" "targets_ok env" "bodies_clear env 0 (ev_records env)"
    and "parse_export_logs_request (ev_raw env) [] = Ok (ev_records env)"
    and "assemble env masks = Ok p" "ap_len p < 2 ^ 64"
  shows "decode_request (contiguous p) = Some (kept_records (ev_raw env) env masks 0 (ev_records env))"
proof -
  let ?raw = "ev_raw env"
  note A = assemble_parts[OF assms(1,2), of masks]
  show ?thesis
  proof (cases "\<not> any_dropped (ev_decisions env) \<and> redaction_total (ev_decisions env) = 0")
    case True
    with A assms(5) have "contiguous p = ?raw" by (simp add: passthrough_def contiguous_def)
    moreover have "decode_request ?raw = Some (map (view_record ?raw) (ev_records env))"
      using parser_refines[OF assms(1)] assms(4) by simp
    moreover have "kept_records ?raw env masks i rvs = map (view_record ?raw) rvs" for i rvs
    proof (induction rvs arbitrary: i)
      case (Cons rv rvs)
      have "sampling_verdict (ev_decisions env) i \<noteq> Drop" using True sampling_verdict_Drop by blast
      moreover have "masked_str ?raw env masks i r = vw ?raw r" for r
        using True by (simp add: masked_str_def effective_spans_def spans_in_def redactions_for_def redaction_total_def vw_def)
      ultimately show ?case using Cons by (simp add: masked_record_def view_record_def view_attr_def)
    qed simp
    ultimately show ?thesis by simp
  next
    case False
    with A assms(5) obtain n out where g: "gov_request ?raw env masks = Some (n, out)"
      "contiguous p = (case out of None \<Rightarrow> ?raw | Some bs \<Rightarrow> bs)" "ap_len p = length (contiguous p)"
      by (auto split: option.splits if_splits simp: result_simps)
    have "out_bytes ?raw (rng 0 (length ?raw)) out = contiguous p"
      using g(2) by (auto simp: vw_def split: option.splits)
    with gov_request_decode[OF assms(1,3,4) g(1)] g(3) assms(6) show ?thesis by simp
  qed
qed

section \<open>An example\<close>

text \<open>The parsed \<open>hi_request\<close>, with the first byte of its body masked by three stars.\<close>

definition hi_view :: record_view where
  "hi_view = \<lparr>rv_body = rng 10 12, rv_trace_id = None, rv_attrs = [], rv_severity_number = None,
     rv_namespace = None, rv_service_name = None\<rparr>"

definition hi_env :: envelope where
  "hi_env = \<lparr>ev_raw = hi_request, ev_records = [hi_view], ev_decisions = \<lparr>dc_sampling = [], dc_redactions =
     [\<lparr>sr_stage = StageId ''redact'', sr_record = 0, sr_redaction = \<lparr>rd_target = rng 10 11, rd_mask = MaskId 0\<rparr>\<rparr>]\<rparr>,
     ev_received_at = 0\<rparr>"

definition stars :: mask_table where
  "stars = mask_table_new [[42, 42, 42]]"

lemmas build_eval = build_request_def container_walk_def container_arms_def build_record_def record_build_arms_def
  build_any_value_def any_value_arms_def build_scalar_def edits_init_def edits_finish_def splice_child_def
  splice_rebuilt_def nested_def segs_encoded_len_def effective_spans_def spans_in_def span_key_def
  redactions_for_def mask_table_bytes_def mask_table_new_def rlen_def

lemmas emit_eval = header_len_def len_tag_def assembler_new_def push_header_def push_raw_def push_mask_def
  flush_scratch_def assembler_finish_def rempty_def buf_slice_def bslice_def

lemma parse_hi: "parse_export_logs_request hi_request [] = Ok [hi_view]"
  by (simp add: wire_eval parse_eval hi_request_def hi_view_def cong: rbind_cong_weak)

lemma small_varints: "put_varint 4 = [4]" "put_varint 6 = [6]" "put_varint 8 = [8]" "put_varint 10 = [10]"
  "put_varint 12 = [12]" "put_varint 18 = [18]" "put_varint 42 = [42]" "varint_len 4 = 1" "varint_len 6 = 1"
  "varint_len 8 = 1" "varint_len 10 = 1" "varint_len 12 = 1" "varint_len 18 = 1" "varint_len 42 = 1"
  by code_simp+

definition hi_masked :: assembled_payload where
  "hi_masked = \<lparr>ap_chunks = [[10, 12, 18, 10, 18, 8, 42, 6, 10, 4], [42, 42, 42], [105]], ap_len = 14\<rparr>"

lemma assemble_hi: "assemble hi_env stars = Ok hi_masked"
  by (simp add: assemble_def hi_env_def stars_def hi_masked_def any_dropped_def redaction_total_def wire_eval build_eval
      hi_request_def sampling_verdict_def emit_eval small_varints cong: rbind_cong_weak)

lemma hi_env_ok: "length (ev_raw hi_env) < 2 ^ 64" "targets_proper hi_env" "targets_ok hi_env"
  "parse_export_logs_request (ev_raw hi_env) [] = Ok (ev_records hi_env)"
  by (simp_all add: hi_env_def parse_hi targets_proper_def targets_ok_def) (simp add: hi_request_def)

section \<open>Properties\<close>

text \<open>
  C12: what is exported is what the decisions say: when assembly succeeds on spans that are in order,
  none of them at the empty range of a record without a body, a receiver that decodes
  the exported bytes gets exactly the parsed records that sampling kept, in order, each with the
  redaction spans of its body and attribute values replaced by their masks and everything else
  (trace id, severity, keys, namespace and service of its resource) unchanged.
\<close>

theorem export_decodes:
  assumes "length (ev_raw env) < 2 ^ 64" "targets_ok env" "bodies_clear env 0 (ev_records env)"
    and "parse_export_logs_request (ev_raw env) [] = Ok (ev_records env)"
    and "assemble env masks = Ok p" "ap_len p < 2 ^ 64"
  shows "decode_request (contiguous p) = Some (kept_records (ev_raw env) env masks 0 (ev_records env))"
  by (rule assemble_decodes[OF assms])

theorem export_decodes_witness:
  "decode_request [10, 12, 18, 10, 18, 8, 42, 6, 10, 4, 42, 42, 42, 105] =
    Some [(view_record hi_request hi_view)\<lparr>lr_body := [42, 42, 42, 105]\<rparr>]"
proof -
  have "kept_records (ev_raw hi_env) hi_env stars 0 (ev_records hi_env) =
      [(view_record hi_request hi_view)\<lparr>lr_body := [42, 42, 42, 105]\<rparr>]"
    by code_simp
  then show ?thesis
    using export_decodes[OF hi_env_ok(1,3) targets_proper_bodies_clear[OF hi_env_ok(2)] hi_env_ok(4) assemble_hi] by (simp add: hi_masked_def contiguous_def)
qed

text \<open>
  On the records that the parser returned for the same bytes, the exporter's own count always
  agrees: assembly never fails with a record count mismatch, so a sampling verdict is always applied
  to the record it was decided for.
\<close>

theorem no_count_mismatch:
  assumes "length (ev_raw env) < 2 ^ 64" "targets_ok env"
    and "parse_export_logs_request (ev_raw env) [] = Ok (ev_records env)"
  shows "assemble env masks \<noteq> Err (RecordCountMismatch parsed walked)"
proof
  assume e: "assemble env masks = Err (RecordCountMismatch parsed walked)"
  let ?b = "build_request (ev_raw env) env masks 0"
  from e have nf: "\<not> (\<not> any_dropped (ev_decisions env) \<and> redaction_total (ev_decisions env) = 0)"
    unfolding assemble_def by (cases "\<not> any_dropped (ev_decisions env) \<and> redaction_total (ev_decisions env) = 0") simp_all
  show False
  proof (cases "gov_request (ev_raw env) env masks")
    case (Some no)
    obtain n out where no: "no = (n, out)" by (cases no)
    from gov_request_count[OF assms(1,3) Some[unfolded no]] have "n = length (ev_records env)" .
    with assemble_parts[OF assms(1,2), of masks] nf Some no e show False by auto
  next
    case None
    with build_request_container_gov[OF assms(1,2), of masks]
    have "\<not> is_Ok (build_container (ev_raw env) (rng 0 (length (ev_raw env))) 1 env masks 0 LRequest)"
      by (cases "build_container (ev_raw env) (rng 0 (length (ev_raw env))) 1 env masks 0 LRequest") (auto simp: builds_x_def)
    with e nf have "\<not> no_mismatch (build_container (ev_raw env) (rng 0 (length (ev_raw env))) 1 env masks 0 LRequest)"
      by (cases "build_container (ev_raw env) (rng 0 (length (ev_raw env))) 1 env masks 0 LRequest")
        (auto simp: assemble_def build_request_def no_mismatch_def split: if_splits)
    then show False using no_mismatch_container by blast
  qed
qed

text \<open>
  C15: the spans that take effect on a field are redactions of that record inside the field, in
  order and disjoint, and the first byte of every redaction that was requested inside the field lies
  in one of them: a span is left out only when it starts inside a span that is masked.
\<close>

theorem effective_spans_cover:
  assumes "targets_proper env" "rstart w \<le> rend w"
  shows "span_chain (rstart w) (effective_spans env idx w) (rend w) \<and>
    set (effective_spans env idx w) \<subseteq> set (spans_in env idx w) \<and>
    (\<forall>s \<in> set (spans_in env idx w). \<exists>k \<in> set (effective_spans env idx w).
       rstart (fst k) \<le> rstart (fst s) \<and> rstart (fst s) < rend (fst k))"
proof (intro conjI ballI)
  show "span_chain (rstart w) (effective_spans env idx w) (rend w)"
    by (rule effective_chain[OF targets_proper_ok[OF assms(1)] assms(2)])
  show "set (effective_spans env idx w) \<subseteq> set (spans_in env idx w)"
    unfolding effective_spans_def using drop_overlaps_subset by fastforce
  fix s assume s: "s \<in> set (spans_in env idx w)"
  have p: "rstart w \<le> rstart (fst x)" "rstart (fst x) < rend (fst x)" if "x \<in> set (spans_in env idx w)" for x
    using assms(1) that by (auto simp: spans_in_def redactions_for_def targets_proper_def)
  show "\<exists>k \<in> set (effective_spans env idx w). rstart (fst k) \<le> rstart (fst s) \<and> rstart (fst s) < rend (fst k)"
    unfolding effective_spans_def
    by (rule drop_overlaps_covers[OF sort_spans_sorted]) (use p s in auto)
qed

text \<open>Two overlapping redactions of a body.\<close>

definition overlap_env :: envelope where
  "overlap_env = \<lparr>ev_raw = bytes ''abcdef'', ev_records = [], ev_decisions = \<lparr>dc_sampling = [], dc_redactions =
     [\<lparr>sr_stage = StageId ''redact'', sr_record = 0, sr_redaction = \<lparr>rd_target = rng 2 5, rd_mask = MaskId 0\<rparr>\<rparr>,
      \<lparr>sr_stage = StageId ''redact'', sr_record = 0, sr_redaction = \<lparr>rd_target = rng 0 3, rd_mask = MaskId 0\<rparr>\<rparr>]\<rparr>,
     ev_received_at = 0\<rparr>"

theorem effective_spans_cover_witness:
  "\<exists>k \<in> set (effective_spans overlap_env 0 (rng 0 6)). rstart (fst k) \<le> 2 \<and> 2 < rend (fst k)"
proof -
  have "targets_proper overlap_env" "(rng 2 5, MaskId 0) \<in> set (spans_in overlap_env 0 (rng 0 6))"
    by code_simp+
  then show ?thesis
    using effective_spans_cover[of overlap_env "rng 0 6" 0] by force
qed


theorem no_count_mismatch_witness:
  "assemble hi_env stars \<noteq> Err (RecordCountMismatch 1 0)"
  by (rule no_count_mismatch[OF hi_env_ok(1,3,4)])

theorem assemble_governed_witness:
  "contiguous hi_masked = [10, 12, 18, 10, 18, 8, 42, 6, 10, 4, 42, 42, 42, 105]"
proof -
  have "gov_request (ev_raw hi_env) hi_env stars =
      Some (1, Some [10, 12, 18, 10, 18, 8, 42, 6, 10, 4, 42, 42, 42, 105])"
    by code_simp
  moreover have "any_dropped (ev_decisions hi_env) = False" "redaction_total (ev_decisions hi_env) = 1"
    "length (ev_records hi_env) = 1"
    by (simp_all add: hi_env_def any_dropped_def redaction_total_def)
  ultimately show ?thesis
    using assemble_governed[OF hi_env_ok(1,3), of stars] by (simp add: assemble_hi)
qed

end
