(* ===== verification/Placement.thy ===== *)
theory Placement
  imports Redact Reparse
begin

text \<open>
  Where the redaction stage (\<^verbatim>\<open>crates/archiv-redact/src/lib.rs\<close>) pushes its spans, whatever its prefilter
  answers and also when it stops half-way: in bodies and attribute values of the record they name,
  and never for an empty field.  With the parser keeping bodies and values apart this is what the
  exporter needs.  All that is used of the regex library is that its matches lie in the text.
\<close>

definition matches_inside :: "('rx, 'rs) regex_lib \<Rightarrow> bool" where
  "matches_inside lib \<longleftrightarrow> (\<forall>rx h. list_all (\<lambda>(s, e). s \<le> e \<and> e \<le> length h) (rx_find_iter lib rx h))"

lemma contract_inside: "regex_contract lib \<Longrightarrow> matches_inside lib"
  by (simp add: regex_contract_def matches_inside_def)

definition field_of :: "record_view list \<Rightarrow> nat \<Rightarrow> brange \<Rightarrow> bool" where
  "field_of recs idx r \<longleftrightarrow> idx < length recs \<and> r \<in> insert (rv_body (recs ! idx)) (av_value ` set (rv_attrs (recs ! idx)))"

definition placed :: "record_view list \<Rightarrow> stage_redaction \<Rightarrow> bool" where
  "placed recs x \<longleftrightarrow> (\<exists>r. field_of recs (sr_record x) r \<and> rstart r < rend r \<and> inside r (rd_target (sr_redaction x)))"

section \<open>Every push is placed\<close>

definition pushes :: "record_view list \<Rightarrow> redact_state \<Rightarrow> redact_state \<Rightarrow> bool" where
  "pushes recs st st' \<longleftrightarrow> ((\<forall>x \<in> set (dc_redactions (snd st)). placed recs x) \<longrightarrow>
     (\<forall>x \<in> set (dc_redactions (snd st')). placed recs x))"

lemma pushes_refl [simp]: "pushes recs st st"
  by (simp add: pushes_def)

lemma pushes_trans: "pushes recs a b \<Longrightarrow> pushes recs b c \<Longrightarrow> pushes recs a c"
  unfolding pushes_def by blast

lemma pushes_seqr:
  assumes "\<And>s' q. r = (s', q) \<Longrightarrow> pushes recs s s'" "\<And>s1 s2 q. f s1 = (s2, q) \<Longrightarrow> pushes recs s1 s2" "seqr r f = (s', q)"
  shows "pushes recs s s'"
  by (rule seqr_inv[of r "pushes recs" s f s' q, OF _ _ assms(3)]) (rule assms(1), assumption, blast intro: pushes_trans assms(2))

lemma pushes_push:
  assumes "rstart r < rend r"
  shows "field_of recs idx r \<Longrightarrow> base = rstart r \<Longrightarrow> list_all (\<lambda>(s, e). s \<le> e \<and> base + e \<le> rend r) ms \<Longrightarrow>
    push_matches base idx i mid ms st = (st', q) \<Longrightarrow> pushes recs st st'"
proof (induction base idx i mid ms st rule: push_matches.induct)
  case (2 base idx i mid s e ms counts d)
  let ?d = "push_redaction STAGE_REDACT_REGEX idx \<lparr>rd_target = rng (base + s) (base + e), rd_mask = mid\<rparr> d"
  have "placed recs \<lparr>sr_stage = STAGE_REDACT_REGEX, sr_record = idx, sr_redaction = \<lparr>rd_target = rng (base + s) (base + e), rd_mask = mid\<rparr>\<rparr>"
    unfolding placed_def using "2.prems"(1-3) assms by (intro exI[of _ r]) (simp add: in_window_def)
  then have p: "pushes recs (counts, d) (counts', ?d)" for counts'
    by (auto simp: pushes_def push_redaction_def)
  show ?case
  proof (cases "i < length counts")
    case True
    with "2.prems"(4) have "push_matches base idx i mid ms (counts[i := counts ! i + 1], ?d) = (st', q)"
      by (simp add: Let_def)
    then have "pushes recs (counts[i := counts ! i + 1], ?d) st'"
      using "2.IH"[OF refl True "2.prems"(1,2)] "2.prems"(3) by simp
    with p show ?thesis by (rule pushes_trans)
  next
    case False
    with "2.prems"(4) p show ?thesis by (simp add: Let_def) blast
  qed
qed simp

lemma pushes_rules:
  assumes "matches_inside lib" "field_of recs idx r" "rstart r < rend r" "length field = rend r - rstart r"
  shows "redact_rules lib rules field (rstart r) idx key idxs st = (st', q) \<Longrightarrow> pushes recs st st'"
proof (induction idxs arbitrary: st st' q)
  case (Cons i idxs)
  have m: "list_all (\<lambda>(s, e). s \<le> e \<and> rstart r + e \<le> rend r) (rx_find_iter lib (cr_regex (rules ! i)) field)"
    using assms(1,3,4) by (fastforce simp: matches_inside_def list_all_iff)
  from Cons show ?case
    by (auto split: if_splits elim!: pushes_seqr[rotated 2] dest: pushes_push[OF assms(3,2) refl m])
qed simp

lemma pushes_field:
  assumes "matches_inside lib" "field_of recs idx r" "buf_get raw (rstart r) (rend r) = Some field"
    and "redact_field lib engine field (rstart r) idx key st = (st', q)"
  shows "pushes recs st st'"
proof (cases "field = []")
  case False
  have l: "length field = rend r - rstart r" using assms(3) by (auto simp: buf_get_def length_bslice split: if_splits)
  with False have "rstart r < rend r" by (cases field) auto
  from pushes_rules[OF assms(1,2) this l] assms(4) False show ?thesis by (simp add: redact_field_def)
qed (use assms(4) in \<open>simp add: redact_field_def\<close>)

lemma pushes_attrs:
  assumes "matches_inside lib"
  shows "\<forall>a \<in> set attrs. field_of recs idx (av_value a) \<Longrightarrow> redact_attrs lib engine raw idx attrs st = (st', q) \<Longrightarrow>
    pushes recs st st'"
proof (induction attrs arbitrary: st st' q)
  case (Cons a attrs)
  then show ?case
    by (auto split: option.splits elim!: pushes_seqr[rotated 2] dest: pushes_field[OF assms, rotated 2])
qed simp

lemma pushes_records:
  assumes "matches_inside lib"
  shows "redact_records lib engine raw (length before) recs st = (st', q) \<Longrightarrow> pushes (before @ recs) st st'"
proof (induction recs arbitrary: before st st' q)
  case (Cons rv recs)
  have fields: "field_of (before @ rv # recs) (length before) (rv_body rv)"
    "\<forall>a \<in> set (rv_attrs rv). field_of (before @ rv # recs) (length before) (av_value a)"
    by (simp_all add: field_of_def)
  have body: "pushes (before @ rv # recs) s1 s2" if "redact_body lib engine raw (length before) rv s1 = (s2, q)" for s1 s2 q
    using that pushes_field[OF assms fields(1)] by (auto simp: redact_body_def split: option.splits)
  have next_one: "pushes (before @ rv # recs) s1 s2" if "redact_records lib engine raw (length before + 1) recs s1 = (s2, q)" for s1 s2 q
    using Cons.IH[of "before @ [rv]"] that by simp
  have tail: "pushes (before @ rv # recs) s1 s2" if "seqr (redact_attrs lib engine raw (length before) (rv_attrs rv) s1)
      (\<lambda>st''. redact_records lib engine raw (length before + 1) recs st'') = (s2, q)" for s1 s2 q
    by (rule pushes_seqr[OF _ _ that]) (erule pushes_attrs[OF assms fields(2)], erule next_one)
  show ?case
    by (rule pushes_seqr[OF _ _ Cons.prems[unfolded redact_records.simps]]) (erule body, erule tail)
qed simp

lemma guarded_redact_placed:
  assumes "matches_inside lib" "guarded (redact_as_stage lib) rs env = ((rs', env'), out)" "dc_redactions (ev_decisions env) = []"
  shows "\<forall>x \<in> set (dc_redactions (ev_decisions env')). placed (ev_records env) x"
proof -
  obtain counts d r where R: "redact_records lib (rs_engine rs) (ev_raw env) 0 (ev_records env) (rs_counts rs, ev_decisions env) = ((counts, d), r)"
    by (metis prod.collapse)
  then have "dc_redactions (ev_decisions env') = dc_redactions d \<or>
      dc_redactions (ev_decisions env') = dc_redactions (clear_stage STAGE_REDACT_REGEX d)"
    using assms(2) by (auto simp: guarded_def redact_as_stage_def redact_apply_def split: result.splits)
  moreover have "pushes (ev_records env) (rs_counts rs, ev_decisions env) (counts, d)"
    using pushes_records[OF assms(1), of "rs_engine rs" "ev_raw env" "[]"] R by simp
  ultimately show ?thesis using assms(3) by (auto simp: pushes_def clear_stage_redactions)
qed

section \<open>What the exporter needs\<close>

lemma placed_ok:
  assumes "\<forall>x \<in> set (dc_redactions (ev_decisions env)). placed recs x"
  shows "targets_ok env"
  using assms by (fastforce simp: targets_ok_def placed_def in_window_def)

lemma placed_clear:
  assumes "\<forall>x \<in> set (dc_redactions (ev_decisions env)). placed recs x" "list_all (record_ok raw) recs" "i < length recs"
  shows "body_clear env i (recs ! i)"
proof (unfold body_clear_def, intro impI, rule ccontr)
  let ?b = "rv_body (recs ! i)"
  assume l: "rlen ?b = 0" and n: "spans_in env i ?b \<noteq> []"
  then obtain t m where "(t, m) \<in> set (spans_in env i ?b)" by (cases "spans_in env i ?b") auto
  from spans_in_sound[OF this] obtain x where x: "x \<in> set (dc_redactions (ev_decisions env))" "sr_record x = i"
    "rd_target (sr_redaction x) = t" "rstart ?b \<le> rstart t" "rend t \<le> rend ?b" by auto
  from assms(1) x obtain r where r: "field_of recs i r" "rstart r < rend r" "inside r t" by (auto simp: placed_def)
  have ok: "record_ok raw (recs ! i)" using assms(2,3) by (simp add: list_all_length)
  then have b: "rstart ?b = rend ?b" using l by (auto simp: record_ok_def Let_def in_window_def rlen_def)
  with r(2) have "r \<noteq> ?b" by auto
  with r(1) obtain a where "a \<in> set (rv_attrs (recs ! i))" "r = av_value a" by (auto simp: field_of_def)
  with ok have "rend r < rstart ?b \<or> rend ?b < rstart r" by (auto simp: record_ok_def Let_def list_all_iff apart_def)
  with r(3) x(4,5) b show False by (auto simp: in_window_def)
qed

lemma bodies_clear_iff: "bodies_clear env i rvs \<longleftrightarrow> (\<forall>k < length rvs. body_clear env (i + k) (rvs ! k))"
  by (induction rvs arbitrary: i) (auto simp: less_Suc_eq_0_disj)

lemma placed_bodies_clear:
  assumes "\<forall>x \<in> set (dc_redactions (ev_decisions env)). placed recs x" "list_all (record_ok raw) recs"
  shows "bodies_clear env 0 recs"
  using placed_clear[OF assms] by (simp add: bodies_clear_iff)

end
