(* ===== verification/Pipeline.thy ===== *)
theory Pipeline
  imports Config Breaker Placement
begin

text \<open>
  The orchestrator, \<^verbatim>\<open>src/pipeline.rs\<close>: building a pipeline from a configuration, and running one
  request through parsing, sampling, redaction and assembly.

  The clock, the hash and the regex library are parameters.  \<^verbatim>\<open>process\<close> takes \<open>&self\<close>; the atomic
  counters of the redaction stage and the breaker behind its mutex are returned updated.
\<close>

section \<open>Building a pipeline\<close>

datatype ('io, 'y) build_error =
    BuildConfig "('io, 'y) config_error"
  | BuildRedact compile_error
  | UnknownSeverity "u8 list"

record stats =
  ps_records_in :: nat
  ps_kept :: nat
  ps_dropped :: nat
  ps_redactions :: nat
  ps_bytes_in :: nat
  ps_bytes_out :: nat
  ps_parse_bypassed :: bool
  ps_redact_bypassed :: bool
  ps_assemble_bypassed :: bool

definition stats_default :: stats where
  "stats_default = \<lparr>ps_records_in = 0, ps_kept = 0, ps_dropped = 0, ps_redactions = 0, ps_bytes_in = 0, ps_bytes_out = 0,
     ps_parse_bypassed = False, ps_redact_bypassed = False, ps_assemble_bypassed = False\<rparr>"

record processed =
  pr_output :: assembled_payload
  pr_stats :: stats

record ('rx, 'rs) pipeline =
  pl_parse :: unit
  pl_redact :: "('rx, 'rs) redact_stage"
  pl_masks :: mask_table
  pl_policy :: sampling_policy
  pl_max_body_bytes :: nat
  pl_redact_breaker :: circuit_breaker

text \<open>The loop of \<^verbatim>\<open>from_config\<close> over the sampling rules; \<^verbatim>\<open>as u8\<close> truncates.\<close>

fun compile_sampling :: "sampling_rule list \<Rightarrow> rule list \<Rightarrow> (('io, 'y) build_error, rule list) result" where
  "compile_sampling [] rules = Ok rules"
| "compile_sampling (r # rs) rules =
     rbind (case sm_severity_lte (sr_selector r) of
         Some name \<Rightarrow> (case severity_band_max name of
             None \<Rightarrow> Err (UnknownSeverity name)
           | Some n \<Rightarrow> Ok (Some n))
       | None \<Rightarrow> Ok None) (\<lambda>severity_lte.
       compile_sampling rs (rules @ [\<lparr>rule_namespace_glob = sm_namespace (sr_selector r),
         rule_severity_lte = severity_lte, rule_target = ucast (sr_target r)\<rparr>]))"

definition from_config ::
  "('rx, 'rs) regex_lib \<Rightarrow> instant \<Rightarrow> agent_config \<Rightarrow> (('io, 'y) build_error, ('rx, 'rs) pipeline) result" where
  "from_config lib now config =
     (let max_body_bytes = li_max_body_bytes (ac_limits config);
          default_target = ucast (sc_default_target (ac_sampling config))
      in rbind (compile_sampling (sc_rules (ac_sampling config)) []) (\<lambda>rules.
         let policy = sampling_policy_new rules default_target in
         rbind (map_err BuildConfig (into_rule_specs (ac_redaction config))) (\<lambda>specs.
         rbind (map_err BuildRedact (redact_compile lib specs compile_limits_default)) (\<lambda>engine.
           Ok \<lparr>pl_parse = (), pl_redact = redact_stage_new engine, pl_masks = mask_table_new (re_masks engine),
               pl_policy = policy, pl_max_body_bytes = max_body_bytes, pl_redact_breaker = breaker_defaults now\<rparr>))))"

section \<open>One request\<close>

definition unwrap_or_empty :: "u8 list option \<Rightarrow> u8 list" where
  "unwrap_or_empty x = (case x of Some bs \<Rightarrow> bs | None \<Rightarrow> [])"

definition sample_verdict :: "'h hasher \<Rightarrow> sampling_policy \<Rightarrow> record_view \<Rightarrow> u8 list \<Rightarrow> sample_verdict" where
  "sample_verdict hx policy rec raw =
     (let target = resolve policy (namespace_bytes rec raw) (rv_severity_number rec);
          keep_it = (case trace_id_bytes rec raw of
              Some i \<Rightarrow> keep hx i target
            | None \<Rightarrow>
                (let body = unwrap_or_empty (buf_get raw (rstart (rv_body rec)) (rend (rv_body rec)));
                     service = unwrap_or_empty (service_name_bytes rec raw)
                 in keep_untraced hx service body target))
      in if keep_it then Keep else Drop)"

definition bypassed :: "stage_outcome \<Rightarrow> bool" where
  "bypassed out \<longleftrightarrow> (case out of Bypassed _ \<Rightarrow> True | Applied \<Rightarrow> False)"

text \<open>Step 3: redaction behind its breaker.\<close>

definition redact_step ::
  "('rx, 'rs) regex_lib \<Rightarrow> instant \<Rightarrow> ('rx, 'rs) pipeline \<Rightarrow> envelope \<Rightarrow> ('rx, 'rs) pipeline \<times> envelope \<times> bool" where
  "redact_step lib now self env =
     (case allow_at now (pl_redact_breaker self) of
        (b, True) \<Rightarrow>
          (case guarded (redact_as_stage lib) (pl_redact self) env of
             ((rs, env'), Bypassed reason) \<Rightarrow>
               (self\<lparr>pl_redact := rs, pl_redact_breaker := fst (record_fault_at now b)\<rparr>, env', True)
           | ((rs, env'), Applied) \<Rightarrow> (self\<lparr>pl_redact := rs, pl_redact_breaker := b\<rparr>, env', False))
      | (b, False) \<Rightarrow> (self\<lparr>pl_redact_breaker := b\<rparr>, env, True))"

text \<open>
  The whole of \<^verbatim>\<open>process\<close>.  Assembly runs outside the guard: \<open>None\<close> is a panic that it raises.
\<close>

definition process ::
  "('rx, 'rs) regex_lib \<Rightarrow> 'h hasher \<Rightarrow> nat \<Rightarrow> instant \<Rightarrow> ('rx, 'rs) pipeline \<Rightarrow> u8 list \<Rightarrow>
   (('rx, 'rs) pipeline \<times> processed) option" where
  "process lib hx received_at now self raw =
     (let stats = stats_default\<lparr>ps_bytes_in := length raw\<rparr>;
          env = envelope_new received_at raw;
          ((_, env), parsed) = guarded parse_stage (pl_parse self) env;
          stats = stats\<lparr>ps_parse_bypassed := bypassed parsed, ps_records_in := length (ev_records env)\<rparr>;
          verdicts = map (\<lambda>rec. sample_verdict hx (pl_policy self) rec (ev_raw env)) (ev_records env);
          stats = stats\<lparr>ps_kept := length (filter (\<lambda>v. v = Keep) verdicts),
            ps_dropped := length (filter (\<lambda>v. v = Drop) verdicts)\<rparr>;
          env = env\<lparr>ev_decisions := set_sampling verdicts (ev_decisions env)\<rparr>;
          (self, env, skipped) = redact_step lib now self env;
          stats = stats\<lparr>ps_redact_bypassed := skipped, ps_redactions := redaction_total (ev_decisions env)\<rparr>
      in case assemble env (pl_masks self) of
           Ok out \<Rightarrow>
             Some (self, \<lparr>pr_output = out, pr_stats = stats\<lparr>ps_bytes_out := ap_len out\<rparr>\<rparr>)
         | Err _ \<Rightarrow>
             (let out = passthrough (ev_raw env)
              in Some (self, \<lparr>pr_output = out,
                   pr_stats = stats\<lparr>ps_assemble_bypassed := True, ps_bytes_out := ap_len out\<rparr>\<rparr>))
         | Panic \<Rightarrow> None)"

section \<open>Sampling depends on the decoded record only\<close>

text \<open>The verdict of a record as a receiver decodes it.\<close>

definition record_trace :: "log_rec \<Rightarrow> u8 list option" where
  "record_trace r = (case lr_trace r of None \<Rightarrow> None
     | Some src \<Rightarrow> if length src = 16 then Some src else if length src = 32 then decode_hex_16 src else None)"

definition record_verdict :: "'h hasher \<Rightarrow> sampling_policy \<Rightarrow> log_rec \<Rightarrow> sample_verdict" where
  "record_verdict hx policy r =
     (let target = resolve policy (lr_namespace r) (lr_severity r) in
      if (case record_trace r of
            Some i \<Rightarrow> keep hx i target
          | None \<Rightarrow> keep_untraced hx (unwrap_or_empty (lr_service r)) (lr_body r) target)
      then Keep else Drop)"

lemma inside_buf_get: "inside (rng 0 (length raw)) r \<Longrightarrow> buf_get raw (rstart r) (rend r) = Some (vw raw r)"
  by (auto simp: in_window_def buf_get_def vw_def)

lemma sample_verdict_record:
  assumes "record_ok raw rv"
  shows "sample_verdict hx policy rv raw = record_verdict hx policy (view_record raw rv)"
proof -
  have o: "(case x of None \<Rightarrow> None | Some r \<Rightarrow> buf_get raw (rstart r) (rend r)) = map_option (vw raw) x"
    if "\<forall>r. x = Some r \<longrightarrow> inside (rng 0 (length raw)) r" for x
    using that inside_buf_get[of raw] by (cases x) auto
  from assms have r: "buf_get raw (rstart (rv_body rv)) (rend (rv_body rv)) = Some (vw raw (rv_body rv))"
    "namespace_bytes rv raw = map_option (vw raw) (rv_namespace rv)"
    "service_name_bytes rv raw = map_option (vw raw) (rv_service_name rv)"
    by (auto simp: record_ok_def Let_def namespace_bytes_def service_name_bytes_def inside_buf_get intro!: o)
  have t: "trace_id_bytes rv raw = record_trace (view_record raw rv)"
    using assms inside_buf_get[of raw]
    by (cases "rv_trace_id rv") (auto simp: trace_id_bytes_def record_trace_def view_record_def record_ok_def Let_def)
  have v: "lr_namespace (view_record raw rv) = map_option (vw raw) (rv_namespace rv)"
    "lr_service (view_record raw rv) = map_option (vw raw) (rv_service_name rv)"
    "lr_severity (view_record raw rv) = rv_severity_number rv" "lr_body (view_record raw rv) = vw raw (rv_body rv)"
    by (simp_all add: view_record_def)
  show ?thesis
    unfolding sample_verdict_def record_verdict_def t Let_def
    by (simp only: r v unwrap_or_empty_def option.case)
qed

section \<open>The stages of a request\<close>

lemma parse_guarded:
  assumes "length raw < 2 ^ 64"
  shows "guarded parse_stage u (envelope_new t raw) =
    (case parse_export_logs_request raw [] of
       Ok recs \<Rightarrow> ((u, (envelope_new t raw)\<lparr>ev_records := recs\<rparr>), Applied)
     | _ \<Rightarrow> ((u, envelope_new t raw), Bypassed (BypassError (Internal ''malformed OTLP logs payload''))))"
proof -
  have c: "(envelope_new t raw)\<lparr>ev_decisions := clear_stage STAGE_PARSE (ev_decisions (envelope_new t raw))\<rparr> = envelope_new t raw"
    by (simp add: envelope_new_def clear_stage_def decisions_default_def Let_def)
  have "parse_export_logs_request raw [] \<noteq> Panic" using parse_request_post[OF assms] by (auto simp: post_iff)
  then show ?thesis
    using c by (cases "parse_export_logs_request raw []") (auto simp: guarded_def parse_stage_def parse_apply_def envelope_new_def)
qed

abbreviation pl_rules :: "('rx, 'rs) pipeline \<Rightarrow> 'rx compiled_rule list" where
  "pl_rules self \<equiv> re_rules (rs_engine (pl_redact self))"

lemma guarded_redact_env:
  assumes "guarded (redact_as_stage lib) rs env = ((rs', env'), out)"
  shows "ev_records env' = ev_records env" "rs_engine rs' = rs_engine rs" "ev_received_at env' = ev_received_at env"
  using assms by (auto simp: guarded_def redact_as_stage_def redact_apply_def split: prod.splits result.splits)

text \<open>What the redaction step leaves, whatever happened in the stage.\<close>

lemma redact_step_effect:
  assumes "matches_inside lib" "redact_step lib now self env = (self', env', skipped)" "dc_redactions (ev_decisions env) = []"
  shows "ev_raw env' = ev_raw env" "ev_records env' = ev_records env"
    "dc_sampling (ev_decisions env') = dc_sampling (ev_decisions env)"
    "\<forall>x \<in> set (dc_redactions (ev_decisions env')). placed (ev_records env) x"
    "skipped \<Longrightarrow> ev_decisions env' = ev_decisions env"
    "pl_masks self' = pl_masks self" "pl_policy self' = pl_policy self"
    "ev_records env = [] \<Longrightarrow> ev_decisions env' = ev_decisions env"
proof -
  obtain b allowed where al: "allow_at now (pl_redact_breaker self) = (b, allowed)" by fastforce
  obtain rs1 env1 out where g: "guarded (redact_as_stage lib) (pl_redact self) env = ((rs1, env1), out)" by (metis prod.collapse)
  have "env' = env \<and> skipped \<or> env' = env1 \<and> skipped = bypassed out"
    and frame: "pl_masks self' = pl_masks self" "pl_policy self' = pl_policy self"
    using assms(2) by (auto simp: redact_step_def al g bypassed_def split: bool.splits stage_outcome.splits)
  then consider (shut) "env' = env" "skipped" | (run) "env' = env1" "skipped = bypassed out" by blast
  note cs = this
  show "pl_masks self' = pl_masks self" "pl_policy self' = pl_policy self" by (rule frame)+
  have p0: "\<forall>x \<in> set (dc_redactions (ev_decisions env)). placed (ev_records env) x" using assms(3) by simp
  show "ev_raw env' = ev_raw env" "ev_records env' = ev_records env"
    "dc_sampling (ev_decisions env') = dc_sampling (ev_decisions env)"
    "\<forall>x \<in> set (dc_redactions (ev_decisions env')). placed (ev_records env) x"
    using cs redact.guarded_keeps_raw[OF g] guarded_redact_env[OF g] redact.guarded_keeps_sampling[OF g]
      guarded_redact_placed[OF assms(1) g assms(3)] p0 by metis+
  show "skipped \<Longrightarrow> ev_decisions env' = ev_decisions env"
    using cs
  proof cases
    case run
    assume "skipped"
    with run obtain why where "out = Bypassed why" by (auto simp: bypassed_def split: stage_outcome.splits)
    with run redact.guarded_bypass[OF g[unfolded this]] assms(3) show ?thesis by simp
  qed simp
  show "ev_records env = [] \<Longrightarrow> ev_decisions env' = ev_decisions env"
    using cs
  proof cases
    case run
    assume "ev_records env = []"
    with g run show ?thesis by (auto simp: guarded_def redact_as_stage_def redact_apply_def)
  qed simp
qed

section \<open>A whole request\<close>

text \<open>The last step: assembly, or the original bytes.\<close>

lemma assemble_env:
  assumes "length raw < 2 ^ 64" "ev_raw env = raw" "\<forall>x \<in> set (dc_redactions (ev_decisions env)). placed (ev_records env) x"
    and "parse_export_logs_request raw [] = Ok (ev_records env)"
  obtains (assembled) p where "assemble env masks = Ok p" "ap_len p = length (contiguous p)"
      "ap_len p < 2 ^ 64 \<longrightarrow> decode_request (contiguous p) = Some (kept_records raw env masks 0 (ev_records env))"
    | (failed) e where "assemble env masks = Err e"
proof -
  have len: "length (ev_raw env) < 2 ^ 64" using assms(1,2) by simp
  have pr: "parse_export_logs_request (ev_raw env) [] = Ok (ev_records env)" using assms(2,4) by simp
  have ok: "targets_ok env" by (rule placed_ok[OF assms(3)])
  have "list_all (record_ok raw) (ev_records env)" using parse_request_post[OF assms(1)] assms(4) by auto
  then have clear: "bodies_clear env 0 (ev_records env)" by (rule placed_bodies_clear[OF assms(3)])
  note A = assemble_parts[OF len ok, of masks]
  show thesis
  proof (cases "assemble env masks")
    case (Ok p)
    have l: "ap_len p = length (contiguous p)"
      using A Ok by (auto simp: passthrough_def contiguous_def split: if_splits option.splits)
    show thesis
      by (rule assembled[OF Ok l]) (use assemble_decodes[OF len ok clear pr Ok] in \<open>simp add: assms(2)\<close>)
  next
    case (Err e)
    then show thesis by (rule failed)
  next
    case Panic
    with A show thesis by simp
  qed
qed

lemma assemble_nothing:
  "dc_sampling (ev_decisions env) = [] \<Longrightarrow> dc_redactions (ev_decisions env) = [] \<Longrightarrow>
    assemble env masks = Ok (passthrough (ev_raw env))"
  by (simp add: assemble_def any_dropped_def redaction_total_def passthrough_def)

text \<open>The verdicts that \<open>process\<close> takes, and the envelope that reaches the redaction step.\<close>

definition verdicts_of :: "'h hasher \<Rightarrow> sampling_policy \<Rightarrow> u8 list \<Rightarrow> record_view list \<Rightarrow> sample_verdict list" where
  "verdicts_of hx policy raw recs = map (\<lambda>rec. sample_verdict hx policy rec raw) recs"

definition sampled_env :: "nat \<Rightarrow> u8 list \<Rightarrow> record_view list \<Rightarrow> sample_verdict list \<Rightarrow> envelope" where
  "sampled_env t raw recs verdicts =
     \<lparr>ev_raw = raw, ev_records = recs, ev_decisions = \<lparr>dc_sampling = verdicts, dc_redactions = []\<rparr>, ev_received_at = t\<rparr>"

lemma verdicts_of_records:
  assumes "list_all (record_ok raw) recs"
  shows "verdicts_of hx policy raw recs = map (\<lambda>rv. record_verdict hx policy (view_record raw rv)) recs"
  using assms by (simp add: verdicts_of_def list_all_iff sample_verdict_record)

definition run_stats :: "u8 list \<Rightarrow> bool \<Rightarrow> sample_verdict list \<Rightarrow> bool \<Rightarrow> envelope \<Rightarrow> bool \<Rightarrow> assembled_payload \<Rightarrow> stats" where
  "run_stats raw malformed verdicts skipped env failed out =
     \<lparr>ps_records_in = length verdicts, ps_kept = length (filter (\<lambda>v. v = Keep) verdicts),
      ps_dropped = length (filter (\<lambda>v. v = Drop) verdicts), ps_redactions = redaction_total (ev_decisions env),
      ps_bytes_in = length raw, ps_bytes_out = ap_len out, ps_parse_bypassed = malformed,
      ps_redact_bypassed = skipped, ps_assemble_bypassed = failed\<rparr>"

lemma process_unfold:
  assumes "length raw < 2 ^ 64"
    and "recs = (case parse_export_logs_request raw [] of Ok rs \<Rightarrow> rs | _ \<Rightarrow> [])"
    and "verdicts = verdicts_of hx (pl_policy self) raw recs"
    and "redact_step lib now self (sampled_env t raw recs verdicts) = (self', env, skipped)"
  shows "process lib hx t now self raw =
    (let stats = run_stats raw (\<not> is_Ok (parse_export_logs_request raw [])) verdicts skipped env in
     case assemble env (pl_masks self') of
       Ok out \<Rightarrow> Some (self', \<lparr>pr_output = out, pr_stats = stats False out\<rparr>)
     | Err _ \<Rightarrow> Some (self', \<lparr>pr_output = passthrough (ev_raw env), pr_stats = stats True (passthrough (ev_raw env))\<rparr>)
     | Panic \<Rightarrow> None)"
proof -
  obtain out where g: "guarded parse_stage (pl_parse self) (envelope_new t raw) =
      ((pl_parse self, (envelope_new t raw)\<lparr>ev_records := recs\<rparr>), out)"
    "bypassed out = (\<not> is_Ok (parse_export_logs_request raw []))"
    using parse_guarded[OF assms(1), of "pl_parse self" t] assms(2)
    by (cases "parse_export_logs_request raw []") (auto simp: bypassed_def envelope_new_def)
  have e: "(envelope_new t raw)\<lparr>ev_records := recs, ev_decisions := set_sampling verdicts decisions_default\<rparr> =
      sampled_env t raw recs verdicts"
    by (simp add: envelope_new_def sampled_env_def set_sampling_def decisions_default_def)
  have s: "ev_raw ((envelope_new t raw)\<lparr>ev_records := recs\<rparr>) = raw" "ev_records ((envelope_new t raw)\<lparr>ev_records := recs\<rparr>) = recs"
    "ev_decisions ((envelope_new t raw)\<lparr>ev_records := recs\<rparr>) = decisions_default"
    by (simp_all add: envelope_new_def)
  have v: "map (\<lambda>rec. sample_verdict hx (pl_policy self) rec raw) recs = verdicts" "length recs = length verdicts"
    using assms(3) by (simp_all add: verdicts_of_def)
  show ?thesis
    unfolding process_def Let_def g
    by (cases "assemble env (pl_masks self')") (simp_all add: s v e g(2) assms(4) run_stats_def stats_default_def)
qed

text \<open>What a caller can rely on, whatever the prefilter of the regex library does.\<close>

definition delivered :: "u8 list \<Rightarrow> envelope \<Rightarrow> mask_table \<Rightarrow> processed \<Rightarrow> bool" where
  "delivered raw env masks out \<longleftrightarrow>
     (if ps_assemble_bypassed (pr_stats out) then contiguous (pr_output out) = raw
      else ap_len (pr_output out) < 2 ^ 64 \<longrightarrow>
        decode_request (contiguous (pr_output out)) = Some (kept_records raw env masks 0 (ev_records env)))"

lemma contiguous_passthrough [simp]: "contiguous (passthrough raw) = raw" "ap_len (passthrough raw) = length raw"
  by (simp_all add: passthrough_def contiguous_def)

lemma process_effect:
  assumes "length raw < 2 ^ 64" "matches_inside lib"
    and "recs = (case parse_export_logs_request raw [] of Ok rs \<Rightarrow> rs | _ \<Rightarrow> [])"
    and "redact_step lib now self (sampled_env t raw recs (verdicts_of hx (pl_policy self) raw recs)) = (self', env, skipped)"
  shows "\<exists>out failed. process lib hx t now self raw =
      Some (self', \<lparr>pr_output = out, pr_stats = run_stats raw (\<not> is_Ok (parse_export_logs_request raw []))
        (verdicts_of hx (pl_policy self) raw recs) skipped env failed out\<rparr>) \<and> ap_len out = length (contiguous out) \<and>
    (if is_Ok (parse_export_logs_request raw []) \<and> \<not> failed
     then ap_len out < 2 ^ 64 \<longrightarrow> decode_request (contiguous out) = Some (kept_records raw env (pl_masks self) 0 recs)
     else contiguous out = raw)"
proof -
  have d: "dc_redactions (ev_decisions (sampled_env t raw recs (verdicts_of hx (pl_policy self) raw recs))) = []"
    by (simp add: sampled_env_def)
  note R = redact_step_effect[OF assms(2,4) d]
  have env: "ev_raw env = raw" "ev_records env = recs" "pl_masks self' = pl_masks self"
    using R(1,2,6) by (simp_all add: sampled_env_def)
  have placed: "\<forall>x \<in> set (dc_redactions (ev_decisions env)). placed (ev_records env) x"
    using R(4) env(2) by (simp add: sampled_env_def)
  note P = process_unfold[OF assms(1,3) refl assms(4)]
  show ?thesis
  proof (cases "is_Ok (parse_export_logs_request raw [])")
    case True
    then have pr: "parse_export_logs_request raw [] = Ok (ev_records env)"
      using assms(3) env(2) by (cases "parse_export_logs_request raw []") simp_all
    show ?thesis
      by (rule assemble_env[OF assms(1) env(1) placed pr, of "pl_masks self"])
        (use P env True in \<open>auto simp: Let_def\<close>)
  next
    case False
    then have "recs = []" using assms(3) by (cases "parse_export_logs_request raw []") auto
    then have "ev_decisions env = \<lparr>dc_sampling = [], dc_redactions = []\<rparr>"
      using R(8) by (simp add: sampled_env_def verdicts_of_def)
    with assemble_nothing[of env "pl_masks self"] env have "assemble env (pl_masks self') = Ok (passthrough raw)" by simp
    with P False show ?thesis
      by (intro exI[of _ "passthrough raw"] exI[of _ False]) (simp add: Let_def)
  qed
qed

lemma process_total:
  assumes "length raw < 2 ^ 64" "matches_inside lib"
  obtains pl' out where "process lib hx t now pl raw = Some (pl', out)"
proof -
  define recs where "recs = (case parse_export_logs_request raw [] of Ok rs \<Rightarrow> rs | _ \<Rightarrow> [])"
  obtain pl1 env skipped where "redact_step lib now pl (sampled_env t raw recs (verdicts_of hx (pl_policy pl) raw recs)) = (pl1, env, skipped)"
    by (metis prod.collapse)
  from process_effect[OF assms recs_def this] that show thesis by blast
qed

section \<open>Pipelines in service\<close>

text \<open>A pipeline that was built from a configuration and has served any number of requests.\<close>

inductive in_service :: "('rx, 'rs) regex_lib \<Rightarrow> 'h hasher \<Rightarrow> ('rx, 'rs) pipeline \<Rightarrow> bool" for lib hx where
  built: "(from_config lib now cfg :: ((unit, unit) build_error, ('rx, 'rs) pipeline) result) = Ok self \<Longrightarrow> in_service lib hx self"
| served: "in_service lib hx self \<Longrightarrow> length raw < 2 ^ 64 \<Longrightarrow> process lib hx t now self raw = Some (self', out) \<Longrightarrow>
    in_service lib hx self'"

definition pipeline_ok :: "('rx, 'rs) regex_lib \<Rightarrow> ('rx, 'rs) pipeline \<Rightarrow> bool" where
  "pipeline_ok lib self \<longleftrightarrow> prefilter_exact lib (rs_engine (pl_redact self)) \<and>
     length (rs_counts (pl_redact self)) = length (re_rules (rs_engine (pl_redact self))) \<and>
     mt_masks (pl_masks self) = re_masks (rs_engine (pl_redact self)) \<and>
     bi_opened_at (cb_inner (pl_redact_breaker self)) = None"

lemma from_config_ok:
  assumes "regex_contract lib" "(from_config lib now cfg :: (('io, 'y) build_error, ('rx, 'rs) pipeline) result) = Ok self"
  shows "pipeline_ok lib self"
proof -
  from assms(2) obtain rules specs engine where "redact_compile lib specs compile_limits_default = Ok engine"
    and s: "self = \<lparr>pl_parse = (), pl_redact = redact_stage_new engine, pl_masks = mask_table_new (re_masks engine),
       pl_policy = sampling_policy_new rules (ucast (sc_default_target (ac_sampling cfg))),
       pl_max_body_bytes = li_max_body_bytes (ac_limits cfg), pl_redact_breaker = breaker_defaults now\<rparr>"
    by (auto simp: from_config_def Let_def result_simps)
  from compile_prefilter_exact[OF assms(1) this(1)] show ?thesis
    by (simp add: s pipeline_ok_def redact_stage_new_def mask_table_new_def breaker_defaults_def breaker_new_def)
qed

lemma redact_step_ok:
  assumes "pipeline_ok lib self" "redact_step lib now self env = (self', env', skipped)"
  shows "pipeline_ok lib self' \<and> \<not> skipped \<and> rs_engine (pl_redact self') = rs_engine (pl_redact self) \<and>
    dc_redactions (ev_decisions env') = dc_redactions (ev_decisions env) @
      map snd (all_hits lib (re_rules (rs_engine (pl_redact self))) (ev_raw env) 0 (ev_records env))"
proof -
  let ?rs = "pl_redact self"
  have al: "allow_at now (pl_redact_breaker self) = (pl_redact_breaker self, True)"
    using assms(1) by (simp add: pipeline_ok_def allow_at_def)
  let ?h = "apply_hits (all_hits lib (re_rules (rs_engine ?rs)) (ev_raw env) 0 (ev_records env)) (rs_counts ?rs, ev_decisions env)"
  have R: "redact_records lib (rs_engine ?rs) (ev_raw env) 0 (ev_records env) (rs_counts ?rs, ev_decisions env) = (?h, Ok ())"
    by (rule redact_records_hits) (use assms(1) in \<open>simp_all add: pipeline_ok_def\<close>)
  have g: "guarded (redact_as_stage lib) ?rs env =
      ((?rs\<lparr>rs_counts := fst ?h\<rparr>, env\<lparr>ev_decisions := snd ?h\<rparr>), Applied)"
    by (cases ?h) (use R in \<open>simp add: guarded_def redact_as_stage_def redact_apply_def\<close>)
  have "self' = self\<lparr>pl_redact := ?rs\<lparr>rs_counts := fst ?h\<rparr>, pl_redact_breaker := pl_redact_breaker self\<rparr>"
    "env' = env\<lparr>ev_decisions := snd ?h\<rparr>" "\<not> skipped"
    using assms(2) by (auto simp: redact_step_def al g)
  with assms(1) show ?thesis by (simp add: pipeline_ok_def apply_hits_decisions)
qed

lemma process_self:
  assumes "length raw < 2 ^ 64" "process lib hx t now self raw = Some (self', out)"
  obtains recs env skipped where "recs = (case parse_export_logs_request raw [] of Ok rs \<Rightarrow> rs | _ \<Rightarrow> [])"
    "redact_step lib now self (sampled_env t raw recs (verdicts_of hx (pl_policy self) raw recs)) = (self', env, skipped)"
proof -
  define recs where "recs = (case parse_export_logs_request raw [] of Ok rs \<Rightarrow> rs | _ \<Rightarrow> [])"
  obtain s1 env skipped where r: "redact_step lib now self (sampled_env t raw recs (verdicts_of hx (pl_policy self) raw recs)) = (s1, env, skipped)"
    by (metis prod.collapse)
  from process_unfold[OF assms(1) recs_def refl r] assms(2) have "s1 = self'"
    by (auto simp: Let_def split: result.splits)
  with r recs_def that show thesis by blast
qed

lemma in_service_ok: "in_service lib hx self \<Longrightarrow> regex_contract lib \<Longrightarrow> pipeline_ok lib self"
proof (induction rule: in_service.induct)
  case (built now cfg self)
  then show ?case by (intro from_config_ok)
next
  case (served self raw t now self' out)
  show ?case
    by (rule process_self[OF served.hyps(2,3)]) (use redact_step_ok[OF served.IH[OF served.prems]] in blast)
qed

definition compiles_to :: "sampling_rule \<Rightarrow> rule \<Rightarrow> bool" where
  "compiles_to r rule \<longleftrightarrow> rule_namespace_glob rule = sm_namespace (sr_selector r) \<and> rule_target rule = ucast (sr_target r) \<and>
     rule_severity_lte rule = Option.bind (sm_severity_lte (sr_selector r)) severity_band_max \<and>
     (sm_severity_lte (sr_selector r) \<noteq> None \<longrightarrow> rule_severity_lte rule \<noteq> None)"

lemma compile_sampling_Ok:
  "(compile_sampling rs out :: (('io, 'y) build_error, rule list) result) = Ok rules \<Longrightarrow> \<exists>new. rules = out @ new \<and> list_all2 compiles_to rs new"
proof (induction rs arbitrary: out)
  case (Cons r rs)
  let ?n = "\<lambda>sev. \<lparr>rule_namespace_glob = sm_namespace (sr_selector r), rule_severity_lte = sev, rule_target = ucast (sr_target r)\<rparr>"
  define sev where sev: "sev = Option.bind (sm_severity_lte (sr_selector r)) severity_band_max"
  have s: "(compile_sampling rs (out @ [?n sev]) :: (('io, 'y) build_error, rule list) result) = Ok rules" "sm_severity_lte (sr_selector r) \<noteq> None \<longrightarrow> sev \<noteq> None"
    using Cons.prems by (auto simp: sev result_simps split: option.splits)
  from Cons.IH[OF s(1)] obtain new where "rules = (out @ [?n sev]) @ new" "list_all2 compiles_to rs new" by blast
  moreover have "compiles_to r (?n sev)" using s(2) by (simp add: compiles_to_def sev)
  ultimately show ?case by (intro exI[of _ "?n sev # new"]) simp
qed simp

lemma spec_names:
  assumes "(into_rule_specs rc :: (('io, 'y) config_error, rule_spec list) result) = Ok specs"
  shows "map spec_name specs = map rr_name (rc_regex_rules rc)"
proof -
  have "(collect into_rule_spec rs :: (('io, 'y) config_error, rule_spec list) result) = Ok specs \<Longrightarrow>
      map spec_name specs = map rr_name rs" for rs
    by (induction rs arbitrary: specs) (auto simp: result_simps into_rule_spec_def)
  with assms show ?thesis by (simp add: into_rule_specs_def)
qed

lemma compiled_names:
  assumes "redact_compile lib specs limits = Ok engine"
  shows "map cr_name (re_rules engine) = map spec_name specs"
proof -
  from redact_compile_Ok[OF assms] obtain rxs where "length rxs = length specs"
    "list_all2 (rule_of (re_masks engine)) (zip specs rxs) (re_rules engine)" by blast
  then show ?thesis by (auto simp: list_all2_conv_all_nth rule_of_def intro!: nth_equalityI)
qed

section \<open>An example\<close>

text \<open>The pipeline of \<open>body_config\<close>: the pattern \<^verbatim>\<open>@\<close> is masked in bodies.\<close>

definition body_engine :: "(u8, u8 list) redact_engine" where
  "body_engine = \<lparr>re_prefilter = [64], re_rules = [\<lparr>cr_name = bytes ''at'', cr_regex = 64, cr_mask = MaskId 0,
     cr_fields = [Body]\<rparr>], re_masks = [bytes ''[AT]'']\<rparr>"

definition body_pipeline :: "(u8, u8 list) pipeline" where
  "body_pipeline = \<lparr>pl_parse = (), pl_redact = redact_stage_new body_engine, pl_masks = mask_table_new [bytes ''[AT]''],
     pl_policy = sampling_policy_new [] 100, pl_max_body_bytes = 4194304, pl_redact_breaker = breaker_defaults 0\<rparr>"

lemma from_body_config:
  "(from_config byte_lib 0 body_config :: (('io, 'y) build_error, (u8, u8 list) pipeline) result) = Ok body_pipeline"
  by (simp add: from_config_def body_config_def agent_default_def sampling_default_def limits_default_def into_rule_specs_def
      into_rule_spec_def parse_selectors_def field_selector_parse_def redact_compile_def byte_lib_def lint_at body_pipeline_def
      body_engine_def Let_def)

lemma byte_lib_inside: "matches_inside byte_lib"
  by (rule contract_inside[OF byte_lib_contract])

lemma body_in_service: "in_service byte_lib hx body_pipeline"
  by (rule built[OF from_body_config])

text \<open>A request whose record has the body \<^verbatim>\<open>@b\<close>, and one whose body value ends in the start of another field.\<close>

definition at_request :: "u8 list" where
  "at_request = [10, 10, 18, 8, 18, 6, 42, 4, 10, 2, 64, 98]"

definition leak_request :: "u8 list" where
  "leak_request = [10, 10, 18, 8, 18, 6, 42, 4, 10, 1, 64, 8]"

definition leak_view :: record_view where
  "leak_view = \<lparr>rv_body = rng 10 11, rv_trace_id = None, rv_attrs = [], rv_severity_number = None,
     rv_namespace = None, rv_service_name = None\<rparr>"

lemma parse_examples:
  "parse_export_logs_request at_request [] = Ok [hi_view]" "parse_export_logs_request leak_request [] = Ok [leak_view]"
  by (simp_all add: wire_eval parse_eval at_request_def leak_request_def hi_view_def leak_view_def cong: rbind_cong_weak)

lemma request_lengths: "length at_request < 2 ^ 64" "length leak_request < 2 ^ 64"
  by (simp_all add: at_request_def leak_request_def)

definition leak_env :: "sample_verdict list \<Rightarrow> envelope" where
  "leak_env vs = \<lparr>ev_raw = leak_request, ev_records = [leak_view], ev_decisions = \<lparr>dc_sampling = vs, dc_redactions =
     [\<lparr>sr_stage = STAGE_REDACT_REGEX, sr_record = 0, sr_redaction = \<lparr>rd_target = rng 10 11, rd_mask = MaskId 0\<rparr>\<rparr>]\<rparr>,
     ev_received_at = 0\<rparr>"

lemma leak_redact: "redact_step byte_lib 0 body_pipeline (sampled_env 0 leak_request [leak_view] vs) =
    (body_pipeline\<lparr>pl_redact := (redact_stage_new body_engine)\<lparr>rs_counts := [1]\<rparr>\<rparr>, leak_env vs, False)"
  by (simp add: redact_step_def body_pipeline_def breaker_defaults_def breaker_new_def allow_at_def guarded_def
      redact_as_stage_def redact_apply_def redact_stage_new_def body_engine_def sampled_env_def leak_view_def redact_body_def
      redact_field_def leak_request_def buf_get_def bslice_def byte_lib_def rule_applies_def applies_to_body_def push_redaction_def
      leak_env_def upt_conv_Cons)

lemma keep_100: "sample_verdict hx (sampling_policy_new [] 100) rec raw = Keep"
proof -
  have "h mod 100 < ucast (100 :: u8)" for h :: u64
    unfolding mod_100_less by simp
  then show ?thesis
    by (simp add: sample_verdict_def resolve_def sampling_policy_new_def keep_def keep_untraced_def Let_def split: option.split)
qed

lemma leak_assemble: "\<exists>e. assemble (leak_env [Keep]) (mask_table_new [bytes ''[AT]'']) = Err e"
  by (simp add: assemble_def leak_env_def any_dropped_def redaction_total_def wire_eval build_eval
      leak_request_def sampling_verdict_def cong: rbind_cong_weak)

section \<open>Properties\<close>



text \<open>
  C17: with a regex library that works as documented, redaction never degrades: a pipeline built from
  a configuration keeps its breaker closed through any number of requests, no request bypasses
  redaction, and the spans counted for a request are all matches of all rules in its records.
\<close>

theorem redaction_never_bypassed:
  assumes "in_service lib hx self" "regex_contract lib" "length raw < 2 ^ 64"
    and "process lib hx t now self raw = Some (self', out)" "parse_export_logs_request raw [] = Ok recs"
  shows "\<not> ps_redact_bypassed (pr_stats out) \<and> fst (allow_at now' (pl_redact_breaker self')) = pl_redact_breaker self' \<and>
    ps_redactions (pr_stats out) = length (all_hits lib (re_rules (rs_engine (pl_redact self))) raw 0 recs)"
proof -
  let ?v = "verdicts_of hx (pl_policy self) raw recs"
  obtain s1 env skipped where r: "redact_step lib now self (sampled_env t raw recs ?v) = (s1, env, skipped)"
    by (metis prod.collapse)
  note R = redact_step_ok[OF in_service_ok[OF assms(1,2)] r]
  have "recs = (case parse_export_logs_request raw [] of Ok rs \<Rightarrow> rs | _ \<Rightarrow> [])" using assms(5) by simp
  from process_unfold[OF assms(3) this refl r] assms(4) have "s1 = self'"
    "ps_redact_bypassed (pr_stats out) = skipped" "ps_redactions (pr_stats out) = redaction_total (ev_decisions env)"
    by (auto simp: Let_def run_stats_def split: result.splits)
  with R show ?thesis
    by (auto simp: redaction_total_def sampled_env_def pipeline_ok_def allow_at_def)
qed

definition leak_out :: processed where
  "leak_out = \<lparr>pr_output = passthrough leak_request,
     pr_stats = run_stats leak_request False [Keep] False (leak_env [Keep]) True (passthrough leak_request)\<rparr>"

lemma leak_process: "\<exists>self'. process byte_lib hx 0 0 body_pipeline leak_request = Some (self', leak_out)"
proof -
  have v: "[Keep] = verdicts_of hx (pl_policy body_pipeline) leak_request [leak_view]"
    by (simp add: verdicts_of_def body_pipeline_def keep_100)
  have m: "pl_masks (body_pipeline\<lparr>pl_redact := rs\<rparr>) = mask_table_new [bytes ''[AT]'']" for rs
    by (simp add: body_pipeline_def)
  have "[leak_view] = (case parse_export_logs_request leak_request [] of Ok rs \<Rightarrow> rs | _ \<Rightarrow> [])"
    by (simp add: parse_examples)
  note P = process_unfold[OF request_lengths(2) this v leak_redact]
  from leak_assemble obtain e where "assemble (leak_env [Keep]) (mask_table_new [bytes ''[AT]'']) = Err e" by blast
  with P show ?thesis by (simp add: m Let_def parse_examples leak_env_def leak_out_def)
qed

theorem redaction_never_bypassed_witness:
  "\<not> ps_redact_bypassed (pr_stats leak_out) \<and>
    ps_redactions (pr_stats leak_out) = length (all_hits byte_lib (re_rules body_engine) leak_request 0 [leak_view])"
proof -
  obtain self' where p: "process byte_lib poly_hasher 0 0 body_pipeline leak_request = Some (self', leak_out)"
    using leak_process by blast
  have "rs_engine (pl_redact body_pipeline) = body_engine" by (simp add: body_pipeline_def redact_stage_new_def)
  with redaction_never_bypassed[OF body_in_service byte_lib_contract request_lengths(2) p parse_examples(2)]
  show ?thesis by simp
qed

text \<open>
  C18: a request whose body value is followed by a truncated field is parsed, its match is found and
  counted as a redaction, but the re-encoder rejects the truncated field, and the original bytes
  leave the node with the match in them.
\<close>

theorem malformed_value_leaks:
  "\<exists>self' out. process byte_lib hx 0 0 body_pipeline leak_request = Some (self', out) \<and>
    \<not> ps_parse_bypassed (pr_stats out) \<and> \<not> ps_redact_bypassed (pr_stats out) \<and> ps_redactions (pr_stats out) = 1 \<and>
    ps_assemble_bypassed (pr_stats out) \<and> contiguous (pr_output out) = leak_request \<and> 64 \<in> set (contiguous (pr_output out))"
proof -
  obtain self' where "process byte_lib hx 0 0 body_pipeline leak_request = Some (self', leak_out)"
    using leak_process by blast
  then show ?thesis
    by (intro exI[of _ self'] exI[of _ leak_out])
      (simp add: leak_out_def run_stats_def redaction_total_def leak_env_def, simp add: leak_request_def)
qed

text \<open>
  The numbers of a request add up: every parsed record is counted as kept or dropped, and the
  sizes are those of the request and of the payload that leaves.
\<close>

theorem stats_add_up:
  assumes "length raw < 2 ^ 64" "matches_inside lib" "process lib hx t now self raw = Some (self', out)"
  shows "ps_kept (pr_stats out) + ps_dropped (pr_stats out) = ps_records_in (pr_stats out) \<and>
    ps_bytes_in (pr_stats out) = length raw \<and> ps_bytes_out (pr_stats out) = length (contiguous (pr_output out))"
proof -
  define recs where "recs = (case parse_export_logs_request raw [] of Ok rs \<Rightarrow> rs | _ \<Rightarrow> [])"
  obtain s1 env skipped where r: "redact_step lib now self (sampled_env t raw recs (verdicts_of hx (pl_policy self) raw recs)) = (s1, env, skipped)"
    by (metis prod.collapse)
  have "filter (\<lambda>v. v = Drop) vs = filter (\<lambda>v. \<not> v = Keep) vs" for vs
    by (rule filter_cong) (auto intro: sample_verdict.exhaust)
  then have "length (filter (\<lambda>v. v = Keep) vs) + length (filter (\<lambda>v. v = Drop) vs) = length vs" for vs
    by (metis sum_length_filter_compl)
  with process_effect[OF assms(1,2) recs_def r] assms(3) show ?thesis
    by (auto simp: run_stats_def)
qed

theorem stats_add_up_witness:
  "ps_kept (pr_stats leak_out) + ps_dropped (pr_stats leak_out) = ps_records_in (pr_stats leak_out) \<and>
    ps_bytes_out (pr_stats leak_out) = 12"
proof -
  obtain self' where p: "process byte_lib poly_hasher 0 0 body_pipeline leak_request = Some (self', leak_out)"
    using leak_process by blast
  have "length (contiguous (pr_output leak_out)) = 12" by (simp add: leak_out_def leak_request_def)
  with stats_add_up[OF request_lengths(2) byte_lib_inside p] show ?thesis by simp
qed



text \<open>Sampling away everything, or only the records of the empty namespace.\<close>

definition all_or_empty :: "u8 list option \<Rightarrow> agent_config" where
  "all_or_empty ns = agent_default\<lparr>ac_sampling := \<lparr>sc_default_target = 100,
     sc_rules = [\<lparr>sr_selector = \<lparr>sm_namespace = ns, sm_severity_lte = None\<rparr>, sr_target = 0\<rparr>]\<rparr>\<rparr>"

text \<open>
  The fingerprint is blind to an absent namespace selector: a policy that samples everything away
  and one that samples away only the records of the empty namespace have the same fingerprint, under
  every hash, and decide differently on a record without a namespace.
\<close>

theorem fingerprint_blind:
  "policy_fingerprint hx (all_or_empty None) = policy_fingerprint hx (all_or_empty (Some [])) \<and>
    (\<exists>p q. (from_config byte_lib 0 (all_or_empty None) :: ((unit, unit) build_error, (u8, u8 list) pipeline) result) = Ok p \<and>
       (from_config byte_lib 0 (all_or_empty (Some [])) :: ((unit, unit) build_error, (u8, u8 list) pipeline) result) = Ok q \<and>
       sample_verdict hx (pl_policy p) hi_view raw = Drop \<and> sample_verdict hx (pl_policy q) hi_view raw = Keep)"
proof -
  have "h mod 100 < ucast (100 :: u8)" for h :: u64 unfolding mod_100_less by simp
  then have k: "h mod 100 < 100" for h :: u64 by simp
  show ?thesis
    by (simp add: policy_fingerprint_def all_or_empty_def rule_updates_def or_empty_def from_config_def agent_default_def
        limits_default_def into_rule_specs_def redact_compile_def byte_lib_def sample_verdict_def resolve_def
        sampling_policy_new_def rule_matches_def hi_view_def namespace_bytes_def trace_id_bytes_def keep_untraced_def k Let_def)
qed

end
