(* ===== verification/Metrics.thy ===== *)
theory Metrics
  imports Prelude
begin

text \<open>
  The aggregation core, \<^verbatim>\<open>crates/archiv-metrics/src/lib.rs\<close>, and its driver, \<^verbatim>\<open>src/metrics.rs\<close>: the
  eight atomic counters of a window, \<^verbatim>\<open>record\<close> and \<^verbatim>\<open>flush\<close> as sequences of atomic operations that
  may interleave, and the flush loop over ticks, samples and the shutdown.

  Atomic additions wrap around, as \<^verbatim>\<open>fetch_add\<close> does.  The operations are relaxed, so that only the
  order on each single counter is fixed; the model interleaves them in every order that keeps the
  program order of each thread, and its statements are about one counter at a time.
\<close>

section \<open>Samples and counters\<close>

record sample =
  sm_events_in :: u64
  sm_events_sampled_out :: u64
  sm_events_exported :: u64
  sm_bytes_in :: u64
  sm_bytes_exported :: u64
  sm_redaction_count :: u64
  sm_failed_open :: bool

definition bytes_dropped :: "sample \<Rightarrow> u64" where
  "bytes_dropped s = saturating_sub (sm_bytes_in s) (sm_bytes_exported s)"

record window_counters =
  wc_events_in :: u64
  wc_events_sampled_out :: u64
  wc_events_exported :: u64
  wc_bytes_in :: u64
  wc_bytes_dropped :: u64
  wc_bytes_exported :: u64
  wc_redaction_count :: u64
  wc_failopen_count :: u64

definition counters_default :: window_counters where
  "counters_default = \<lparr>wc_events_in = 0, wc_events_sampled_out = 0, wc_events_exported = 0, wc_bytes_in = 0,
     wc_bytes_dropped = 0, wc_bytes_exported = 0, wc_redaction_count = 0, wc_failopen_count = 0\<rparr>"

text \<open>The names of the counters.\<close>

datatype counter = EventsIn | SampledOut | Exported | BytesIn | BytesDropped | BytesExported | Redactions | FailOpen

fun read_counter :: "counter \<Rightarrow> window_counters \<Rightarrow> u64" where
  "read_counter EventsIn w = wc_events_in w"
| "read_counter SampledOut w = wc_events_sampled_out w"
| "read_counter Exported w = wc_events_exported w"
| "read_counter BytesIn w = wc_bytes_in w"
| "read_counter BytesDropped w = wc_bytes_dropped w"
| "read_counter BytesExported w = wc_bytes_exported w"
| "read_counter Redactions w = wc_redaction_count w"
| "read_counter FailOpen w = wc_failopen_count w"

fun write_counter :: "counter \<Rightarrow> u64 \<Rightarrow> window_counters \<Rightarrow> window_counters" where
  "write_counter EventsIn v w = w\<lparr>wc_events_in := v\<rparr>"
| "write_counter SampledOut v w = w\<lparr>wc_events_sampled_out := v\<rparr>"
| "write_counter Exported v w = w\<lparr>wc_events_exported := v\<rparr>"
| "write_counter BytesIn v w = w\<lparr>wc_bytes_in := v\<rparr>"
| "write_counter BytesDropped v w = w\<lparr>wc_bytes_dropped := v\<rparr>"
| "write_counter BytesExported v w = w\<lparr>wc_bytes_exported := v\<rparr>"
| "write_counter Redactions v w = w\<lparr>wc_redaction_count := v\<rparr>"
| "write_counter FailOpen v w = w\<lparr>wc_failopen_count := v\<rparr>"

instantiation counter :: enum
begin

definition enum_counter :: "counter list" where
  "enum_counter = [EventsIn, SampledOut, Exported, BytesIn, BytesDropped, BytesExported, Redactions, FailOpen]"

definition enum_all_counter :: "(counter \<Rightarrow> bool) \<Rightarrow> bool" where
  "enum_all_counter P \<longleftrightarrow> list_all P enum_class.enum"

definition enum_ex_counter :: "(counter \<Rightarrow> bool) \<Rightarrow> bool" where
  "enum_ex_counter P \<longleftrightarrow> list_ex P enum_class.enum"

instance
proof
  show U: "(UNIV :: counter set) = set enum_class.enum"
    unfolding enum_counter_def using counter.exhaust by auto
  show "distinct (enum_class.enum :: counter list)" by (simp add: enum_counter_def)
  show "enum_class.enum_all P = Ball UNIV P" "enum_class.enum_ex P = Bex UNIV P" for P :: "counter \<Rightarrow> bool"
    by (simp_all add: U enum_all_counter_def enum_ex_counter_def list_all_iff list_ex_iff)
qed

end

lemma read_write [simp]: "read_counter c (write_counter c' v w) = (if c = c' then v else read_counter c w)"
  by (cases c; cases c') simp_all

lemma read_default [simp]: "read_counter c counters_default = 0"
  by (cases c) (simp_all add: counters_default_def)

text \<open>\<^verbatim>\<open>fetch_add\<close> and \<^verbatim>\<open>swap(0)\<close>.\<close>

definition fetch_add :: "counter \<Rightarrow> u64 \<Rightarrow> window_counters \<Rightarrow> window_counters" where
  "fetch_add c n w = write_counter c (read_counter c w + n) w"

definition swap_zero :: "counter \<Rightarrow> window_counters \<Rightarrow> u64 \<times> window_counters" where
  "swap_zero c w = (read_counter c w, write_counter c 0 w)"

text \<open>The additions of \<^verbatim>\<open>WindowCounters::record\<close> and the swaps of \<^verbatim>\<open>WindowCounters::drain\<close>, in order.\<close>

definition record_adds :: "sample \<Rightarrow> (counter \<times> u64) list" where
  "record_adds s =
     [(EventsIn, sm_events_in s), (SampledOut, sm_events_sampled_out s), (Exported, sm_events_exported s),
      (BytesIn, sm_bytes_in s), (BytesDropped, bytes_dropped s), (BytesExported, sm_bytes_exported s),
      (Redactions, sm_redaction_count s), (FailOpen, of_bool (sm_failed_open s))]"

definition drain_swaps :: "counter list" where
  "drain_swaps = [EventsIn, SampledOut, Exported, BytesIn, BytesDropped, BytesExported, Redactions, FailOpen]"

definition counters_record :: "sample \<Rightarrow> window_counters \<Rightarrow> window_counters" where
  "counters_record s w = fold (\<lambda>(c, n). fetch_add c n) (record_adds s) w"

text \<open>\<^verbatim>\<open>drain\<close> returns the values read; \<^verbatim>\<open>DrainedCounts\<close> has the fields of the counters.\<close>

definition counters_drain :: "window_counters \<Rightarrow> window_counters \<times> window_counters" where
  "counters_drain w =
     fold (\<lambda>c (d, w). case swap_zero c w of (v, w') \<Rightarrow> (write_counter c v d, w')) drain_swaps (counters_default, w)"

text \<open>What a sample adds to a counter.\<close>

fun sample_count :: "counter \<Rightarrow> sample \<Rightarrow> u64" where
  "sample_count EventsIn s = sm_events_in s"
| "sample_count SampledOut s = sm_events_sampled_out s"
| "sample_count Exported s = sm_events_exported s"
| "sample_count BytesIn s = sm_bytes_in s"
| "sample_count BytesDropped s = bytes_dropped s"
| "sample_count BytesExported s = sm_bytes_exported s"
| "sample_count Redactions s = sm_redaction_count s"
| "sample_count FailOpen s = of_bool (sm_failed_open s)"

lemma counters_record_read: "read_counter c (counters_record s w) = read_counter c w + sample_count c s"
  by (cases c) (simp_all add: counters_record_def record_adds_def fetch_add_def)

lemma counters_eqI: "(\<And>c. read_counter c w = read_counter c w') \<Longrightarrow> w = w'" for w w' :: window_counters
  using read_counter.simps by (cases w; cases w') (metis window_counters.simps(1-8))

lemma counters_drain_value: "counters_drain w = (w, counters_default)"
proof -
  have "read_counter c (fst (counters_drain w)) = read_counter c w" "read_counter c (snd (counters_drain w)) = 0" for c
    by (cases c; simp add: counters_drain_def drain_swaps_def swap_zero_def)+
  then show ?thesis by (intro prod_eqI counters_eqI) simp_all
qed

section \<open>The register\<close>

type_synonym i64 = "64 word"

record aggregate =
  ag_seq :: u64
  ag_window_start_ms :: i64
  ag_window_end_ms :: i64
  ag_policy_version :: u64
  ag_events_in :: u64
  ag_events_sampled_out :: u64
  ag_events_exported :: u64
  ag_bytes_in :: u64
  ag_bytes_dropped :: u64
  ag_bytes_exported :: u64
  ag_redaction_count :: u64
  ag_failopen_count :: u64

record metrics =
  me_counters :: window_counters
  me_seq :: u64
  me_policy_version :: u64

definition metrics_new :: "u64 \<Rightarrow> metrics" where
  "metrics_new policy_version = \<lparr>me_counters = counters_default, me_seq = 0, me_policy_version = policy_version\<rparr>"

definition metrics_record :: "sample \<Rightarrow> metrics \<Rightarrow> metrics" where
  "metrics_record s m = m\<lparr>me_counters := counters_record s (me_counters m)\<rparr>"

definition metrics_flush :: "i64 \<Rightarrow> i64 \<Rightarrow> metrics \<Rightarrow> metrics \<times> aggregate" where
  "metrics_flush window_start_ms window_end_ms m =
     (let (d, w) = counters_drain (me_counters m)
      in (m\<lparr>me_counters := w, me_seq := me_seq m + 1\<rparr>,
          \<lparr>ag_seq = me_seq m, ag_window_start_ms = window_start_ms, ag_window_end_ms = window_end_ms,
           ag_policy_version = me_policy_version m, ag_events_in = wc_events_in d,
           ag_events_sampled_out = wc_events_sampled_out d, ag_events_exported = wc_events_exported d,
           ag_bytes_in = wc_bytes_in d, ag_bytes_dropped = wc_bytes_dropped d,
           ag_bytes_exported = wc_bytes_exported d, ag_redaction_count = wc_redaction_count d,
           ag_failopen_count = wc_failopen_count d\<rparr>))"

fun agg_count :: "counter \<Rightarrow> aggregate \<Rightarrow> u64" where
  "agg_count EventsIn a = ag_events_in a"
| "agg_count SampledOut a = ag_events_sampled_out a"
| "agg_count Exported a = ag_events_exported a"
| "agg_count BytesIn a = ag_bytes_in a"
| "agg_count BytesDropped a = ag_bytes_dropped a"
| "agg_count BytesExported a = ag_bytes_exported a"
| "agg_count Redactions a = ag_redaction_count a"
| "agg_count FailOpen a = ag_failopen_count a"

lemma metrics_flush_eq:
  assumes "metrics_flush t0 t1 m = (m', a)"
  shows "m' = m\<lparr>me_counters := counters_default, me_seq := me_seq m + 1\<rparr>" "ag_seq a = me_seq m"
    "ag_window_start_ms a = t0" "ag_window_end_ms a = t1" "ag_policy_version a = me_policy_version m"
    "agg_count c a = read_counter c (me_counters m)"
  using assms by (cases c; auto simp: metrics_flush_def counters_drain_value)+

section \<open>Interleaving\<close>

text \<open>
  The threads that share the register: one in \<^verbatim>\<open>record\<close>, with the additions it has still to make, and
  one in \<^verbatim>\<open>flush\<close>, with the swaps still to make and the values drained so far; a flush ends with the
  addition to \<^verbatim>\<open>seq\<close>.
\<close>

datatype thread =
    Recording "(counter \<times> u64) list"
  | Draining "counter list" window_counters
  | Flushed u64 window_counters

record shared =
  sh_metrics :: metrics
  sh_threads :: "thread list"

inductive atomic_step :: "shared \<Rightarrow> shared \<Rightarrow> bool" where
  do_add: "i < length (sh_threads s) \<Longrightarrow> sh_threads s ! i = Recording ((c, n) # ops) \<Longrightarrow>
    atomic_step s \<lparr>sh_metrics = (sh_metrics s)\<lparr>me_counters := fetch_add c n (me_counters (sh_metrics s))\<rparr>,
      sh_threads = (sh_threads s)[i := Recording ops]\<rparr>"
| do_swap: "i < length (sh_threads s) \<Longrightarrow> sh_threads s ! i = Draining (c # cs) d \<Longrightarrow>
    swap_zero c (me_counters (sh_metrics s)) = (v, w) \<Longrightarrow>
    atomic_step s \<lparr>sh_metrics = (sh_metrics s)\<lparr>me_counters := w\<rparr>,
      sh_threads = (sh_threads s)[i := Draining cs (write_counter c v d)]\<rparr>"
| do_seq: "i < length (sh_threads s) \<Longrightarrow> sh_threads s ! i = Draining [] d \<Longrightarrow>
    atomic_step s \<lparr>sh_metrics = (sh_metrics s)\<lparr>me_seq := me_seq (sh_metrics s) + 1\<rparr>,
      sh_threads = (sh_threads s)[i := Flushed (me_seq (sh_metrics s)) d]\<rparr>"

inductive_cases atomic_stepE: "atomic_step s s'"

definition spawn :: "u64 \<Rightarrow> sample list \<Rightarrow> nat \<Rightarrow> shared" where
  "spawn pv samples flushes =
     \<lparr>sh_metrics = metrics_new pv,
      sh_threads = map (Recording \<circ> record_adds) samples @ replicate flushes (Draining drain_swaps counters_default)\<rparr>"

text \<open>What a thread still owes to a counter, or has taken out of it.\<close>

fun holds :: "counter \<Rightarrow> thread \<Rightarrow> u64" where
  "holds c (Recording ops) = sum_list (map snd (filter (\<lambda>op. fst op = c) ops))"
| "holds c (Draining cs d) = read_counter c d"
| "holds c (Flushed n d) = read_counter c d"

text \<open>A drain never visits a counter twice, so that no value it has taken is overwritten.\<close>

fun thread_ok :: "thread \<Rightarrow> bool" where
  "thread_ok (Draining cs d) = (distinct cs \<and> (\<forall>c \<in> set cs. read_counter c d = 0))"
| "thread_ok _ = True"

definition threads_ok :: "shared \<Rightarrow> bool" where
  "threads_ok s \<longleftrightarrow> list_all thread_ok (sh_threads s)"

definition counter_total :: "counter \<Rightarrow> shared \<Rightarrow> u64" where
  "counter_total c s = read_counter c (me_counters (sh_metrics s)) + sum_list (map (holds c) (sh_threads s))"

lemma sum_list_update_ab:
  fixes xs :: "'a :: ab_group_add list"
  shows "i < length xs \<Longrightarrow> sum_list (xs[i := y]) = sum_list xs - xs ! i + y"
  by (induction xs arbitrary: i) (auto split: nat.split)

lemma total_step:
  assumes "atomic_step s s'" "threads_ok s"
  shows "counter_total c s' = counter_total c s \<and> threads_ok s'"
  using assms(1)
proof (cases rule: atomic_step.cases)
  case (do_add i c' n ops)
  then show ?thesis using assms(2)
    by (auto simp: counter_total_def threads_ok_def map_update sum_list_update_ab fetch_add_def list_all_length nth_list_update)
next
  case (do_swap i c' cs d v w)
  have ok: "distinct (c' # cs)" "\<forall>x \<in> set (c' # cs). read_counter x d = 0"
    using assms(2) do_swap(2,3) by (auto simp: threads_ok_def list_all_length)
  moreover from do_swap(4) have "v = read_counter c' (me_counters (sh_metrics s))" "w = write_counter c' 0 (me_counters (sh_metrics s))"
    by (simp_all add: swap_zero_def)
  ultimately show ?thesis using assms(2) do_swap(1-3)
    by (auto simp: counter_total_def threads_ok_def map_update sum_list_update_ab list_all_length nth_list_update)
next
  case (do_seq i d)
  then show ?thesis using assms(2)
    by (auto simp: counter_total_def threads_ok_def map_update sum_list_update_ab list_all_length nth_list_update)
qed

lemma total_steps:
  assumes "atomic_step\<^sup>*\<^sup>* s s'" "threads_ok s"
  shows "counter_total c s' = counter_total c s \<and> threads_ok s'"
  using assms by (induction rule: rtranclp_induct) (auto dest: total_step[where c = c])

lemma holds_record [simp]: "holds c (Recording (record_adds s)) = sample_count c s"
  by (cases c) (simp_all add: record_adds_def)

lemma spawn_ok: "threads_ok (spawn pv samples n)"
  by (auto simp: threads_ok_def spawn_def list_all_iff drain_swaps_def)

lemma total_spawn: "counter_total c (spawn pv samples n) = sum_list (map (sample_count c) samples)"
  by (simp add: counter_total_def spawn_def metrics_new_def o_def map_replicate sum_list_replicate del: holds.simps(1))

definition finished :: "shared \<Rightarrow> bool" where
  "finished s \<longleftrightarrow> list_all (\<lambda>t. case t of Recording ops \<Rightarrow> ops = [] | Draining cs d \<Rightarrow> False | Flushed n d \<Rightarrow> True) (sh_threads s)"

definition flushed_count :: "counter \<Rightarrow> shared \<Rightarrow> u64" where
  "flushed_count c s = sum_list (map (\<lambda>t. case t of Flushed n d \<Rightarrow> read_counter c d | _ \<Rightarrow> 0) (sh_threads s))"

lemma finished_holds:
  assumes "finished s"
  shows "sum_list (map (holds c) (sh_threads s)) = flushed_count c s"
proof -
  have "holds c t = (case t of Flushed n d \<Rightarrow> read_counter c d | _ \<Rightarrow> 0)" if "t \<in> set (sh_threads s)" for t
    using assms that by (auto simp: finished_def list_all_iff split: thread.splits dest!: bspec)
  then show ?thesis unfolding flushed_count_def by (metis (no_types, lifting) map_cong)
qed

text \<open>The step of a given thread, and a schedule: the threads that move, in order.\<close>

fun thread_step :: "thread \<Rightarrow> metrics \<Rightarrow> (thread \<times> metrics) option" where
  "thread_step (Recording ((c, n) # ops)) m = Some (Recording ops, m\<lparr>me_counters := fetch_add c n (me_counters m)\<rparr>)"
| "thread_step (Draining (c # cs) d) m =
     (case swap_zero c (me_counters m) of (v, w) \<Rightarrow> Some (Draining cs (write_counter c v d), m\<lparr>me_counters := w\<rparr>))"
| "thread_step (Draining [] d) m = Some (Flushed (me_seq m) d, m\<lparr>me_seq := me_seq m + 1\<rparr>)"
| "thread_step _ m = None"

fun schedule :: "nat list \<Rightarrow> shared \<Rightarrow> shared option" where
  "schedule [] s = Some s"
| "schedule (i # is) s =
     (if i < length (sh_threads s) then
        (case thread_step (sh_threads s ! i) (sh_metrics s) of
           Some (t, m) \<Rightarrow> schedule is \<lparr>sh_metrics = m, sh_threads = (sh_threads s)[i := t]\<rparr>
         | None \<Rightarrow> None)
      else None)"

lemma thread_step_atomic:
  assumes "i < length (sh_threads s)" "thread_step (sh_threads s ! i) (sh_metrics s) = Some (t, m)"
  shows "atomic_step s \<lparr>sh_metrics = m, sh_threads = (sh_threads s)[i := t]\<rparr>"
  using assms
  by (cases "(sh_threads s ! i, sh_metrics s)" rule: thread_step.cases)
    (auto intro: atomic_step.intros split: prod.splits)

lemma schedule_steps: "schedule is s = Some s' \<Longrightarrow> atomic_step\<^sup>*\<^sup>* s s'"
  by (induction "is" s rule: schedule.induct)
    (auto split: if_splits option.splits dest: thread_step_atomic intro: converse_rtranclp_into_rtranclp)

section \<open>Sinks and the flush loop\<close>

datatype sink_error = Unimplemented | Delivery "u8 list"

record 'k sink =
  sk_deliver :: "'k \<Rightarrow> aggregate \<Rightarrow> 'k \<times> (sink_error + unit)"

text \<open>\<^verbatim>\<open>StdoutSink\<close> writes one line of numbers; the lines are the state.\<close>

definition stdout_sink :: "aggregate list sink" where
  "stdout_sink = \<lparr>sk_deliver = (\<lambda>lines agg. (lines @ [agg], Inr ()))\<rparr>"

text \<open>\<^verbatim>\<open>deliver\<close>: the error is logged and swallowed.\<close>

definition deliver :: "'k sink \<Rightarrow> aggregate \<Rightarrow> 'k \<Rightarrow> 'k" where
  "deliver sink agg k = (case sk_deliver sink k agg of (k', Inl err) \<Rightarrow> k' | (k', Inr _) \<Rightarrow> k')"

text \<open>
  What happens while the loop waits: requests are recorded, the ticker fires or the shutdown resolves
  (with the clock reading \<^verbatim>\<open>now_ms()\<close>).
\<close>

datatype loop_event = Recorded sample | Tick i64 | Shutdown i64

fun run_flush_loop :: "'k sink \<Rightarrow> i64 \<Rightarrow> metrics \<Rightarrow> 'k \<Rightarrow> loop_event list \<Rightarrow> metrics \<times> 'k" where
  "run_flush_loop sink window_start m k [] = (m, k)"
| "run_flush_loop sink window_start m k (Recorded s # es) = run_flush_loop sink window_start (metrics_record s m) k es"
| "run_flush_loop sink window_start m k (Tick window_end # es) =
     (case metrics_flush window_start window_end m of (m', agg) \<Rightarrow>
        run_flush_loop sink window_end m' (deliver sink agg k) es)"
| "run_flush_loop sink window_start m k (Shutdown now # es) =
     (case metrics_flush window_start now m of (m', agg) \<Rightarrow> (m', deliver sink agg k))"

fun samples_of :: "loop_event list \<Rightarrow> sample list" where
  "samples_of [] = []"
| "samples_of (Recorded s # es) = s # samples_of es"
| "samples_of (_ # es) = samples_of es"

fun window_chain :: "i64 \<Rightarrow> aggregate list \<Rightarrow> i64 \<Rightarrow> bool" where
  "window_chain t0 [] t1 = (t0 = t1)"
| "window_chain t0 (a # as) t1 = (ag_window_start_ms a = t0 \<and> window_chain (ag_window_end_ms a) as t1)"

fun consecutive :: "u64 \<Rightarrow> aggregate list \<Rightarrow> bool" where
  "consecutive n [] = True"
| "consecutive n (a # as) = (ag_seq a = n \<and> consecutive (n + 1) as)"

lemma flush_loop_run:
  assumes "\<forall>u. Shutdown u \<notin> set es"
  shows "\<exists>aggs m'. run_flush_loop sink t0 m k (es @ [Shutdown t1]) = (m', fold (deliver sink) aggs k) \<and>
    me_counters m' = counters_default \<and> window_chain t0 aggs t1 \<and> consecutive (me_seq m) aggs \<and>
    (\<forall>c. sum_list (map (agg_count c) aggs) = read_counter c (me_counters m) + sum_list (map (sample_count c) (samples_of es)))"
  using assms
proof (induction sink t0 m k es rule: run_flush_loop.induct)
  case (1 sink t0 m k)
  obtain m' a where f: "metrics_flush t0 t1 m = (m', a)" by (cases "metrics_flush t0 t1 m")
  from metrics_flush_eq[OF f] show ?case
    by (intro exI[of _ "[a]"] exI[of _ m']) (simp add: f)
next
  case (2 sink t0 m k s es)
  then show ?case by (auto simp: metrics_record_def counters_record_read add.assoc)
next
  case (3 sink t0 m k t es)
  obtain m1 a where f: "metrics_flush t0 t m = (m1, a)" by (cases "metrics_flush t0 t m")
  note F = metrics_flush_eq[OF f]
  from 3 f obtain aggs m' where I: "run_flush_loop sink t m1 (deliver sink a k) (es @ [Shutdown t1]) =
      (m', fold (deliver sink) aggs (deliver sink a k))" "me_counters m' = counters_default" "window_chain t aggs t1"
    "consecutive (me_seq m1) aggs" "\<forall>c. sum_list (map (agg_count c) aggs) =
      read_counter c (me_counters m1) + sum_list (map (sample_count c) (samples_of es))"
    by fastforce
  with F show ?case
    by (intro exI[of _ "a # aggs"] exI[of _ m']) (simp add: f)
next
  case (4 sink t0 m k now es)
  then show ?case by (metis list.set_intros(1))
qed

section \<open>Properties\<close>

text \<open>
  C39: no increment is lost and none is counted twice: whatever the interleaving of requests and
  flushes, when all have finished the drained windows and the register together hold, modulo
  \<open>2 ^ 64\<close>, exactly the sum of the samples, for each of the eight counters.
\<close>

theorem no_increment_lost:
  assumes "atomic_step\<^sup>*\<^sup>* (spawn pv samples flushes) s" "finished s"
  shows "flushed_count c s + read_counter c (me_counters (sh_metrics s)) = sum_list (map (sample_count c) samples)"
  using total_steps[OF assms(1) spawn_ok, of c] total_spawn[of c pv samples flushes] finished_holds[OF assms(2), of c]
  by (simp add: counter_total_def add.commute)

text \<open>One request that recorded one exported event, one flush, and a schedule that interleaves them.\<close>

definition one_event :: sample where
  "one_event = \<lparr>sm_events_in = 1, sm_events_sampled_out = 0, sm_events_exported = 1, sm_bytes_in = 40,
     sm_bytes_exported = 30, sm_redaction_count = 0, sm_failed_open = False\<rparr>"

definition torn_schedule :: "nat list" where
  "torn_schedule = [0, 0, 1, 1, 1, 1, 1, 1, 1, 1, 1, 0, 0, 0, 0, 0, 0]"

definition torn_end :: shared where
  "torn_end = \<lparr>sh_metrics = \<lparr>me_counters = counters_default\<lparr>wc_events_exported := 1, wc_bytes_in := 40,
       wc_bytes_dropped := 10, wc_bytes_exported := 30\<rparr>, me_seq = 1, me_policy_version = 0\<rparr>,
     sh_threads = [Recording [], Flushed 0 (counters_default\<lparr>wc_events_in := 1\<rparr>)]\<rparr>"

lemma torn_run: "atomic_step\<^sup>*\<^sup>* (spawn 0 [one_event] 1) torn_end"
proof -
  have "schedule torn_schedule (spawn 0 [one_event] 1) = Some torn_end"
    by (simp add: torn_schedule_def spawn_def record_adds_def drain_swaps_def fetch_add_def swap_zero_def one_event_def
        bytes_dropped_def saturating_sub_def torn_end_def metrics_new_def counters_default_def)
  then show ?thesis by (rule schedule_steps)
qed

theorem no_increment_lost_witness:
  "flushed_count EventsIn torn_end + read_counter EventsIn (me_counters (sh_metrics torn_end)) = 1"
proof -
  have "finished torn_end" by code_simp
  from no_increment_lost[OF torn_run this, of EventsIn] show ?thesis by (simp add: one_event_def)
qed

text \<open>
  A flush is atomic for each counter only: a request that is being recorded while the window is
  drained may be split over two windows, so that an aggregate reports one event received and none
  exported or dropped.
\<close>

theorem window_torn:
  "\<exists>s n d. atomic_step\<^sup>*\<^sup>* (spawn 0 [one_event] 1) s \<and> sh_threads s = [Recording [], Flushed n d] \<and>
    wc_events_in d = 1 \<and> wc_events_exported d = 0 \<and> wc_events_sampled_out d = 0"
  using torn_run by (intro exI[of _ torn_end]) (simp add: torn_end_def counters_default_def)

text \<open>
  C40: the flush loop loses nothing: until the shutdown it delivers one aggregate per tick and a last
  one, with consecutive sequence numbers and adjoining windows from its start to the shutdown, whose
  counters add up to all that was recorded; a failing sink changes none of it.
\<close>

theorem flush_loop_windows:
  assumes "\<forall>u. Shutdown u \<notin> set es"
  shows "\<exists>aggs m'. run_flush_loop sink t0 m k (es @ [Shutdown t1]) = (m', fold (deliver sink) aggs k) \<and>
    me_counters m' = counters_default \<and> window_chain t0 aggs t1 \<and> consecutive (me_seq m) aggs \<and>
    (\<forall>c. sum_list (map (agg_count c) aggs) = read_counter c (me_counters m) + sum_list (map (sample_count c) (samples_of es)))"
  by (rule flush_loop_run[OF assms])

theorem flush_loop_windows_witness:
  "\<exists>aggs. snd (run_flush_loop stdout_sink 5 (metrics_new 0) [] ([Recorded one_event, Tick 15] @ [Shutdown 20])) = aggs \<and>
    window_chain 5 aggs 20 \<and> consecutive 0 aggs \<and> sum_list (map ag_bytes_dropped aggs) = 10"
proof -
  have f: "fold (deliver stdout_sink) aggs k = k @ aggs" for aggs k
    by (induction aggs arbitrary: k) (simp_all add: deliver_def stdout_sink_def)
  obtain aggs m' where L: "run_flush_loop stdout_sink 5 (metrics_new 0) [] ([Recorded one_event, Tick 15] @ [Shutdown 20]) =
      (m', fold (deliver stdout_sink) aggs [])" "window_chain 5 aggs 20" "consecutive (me_seq (metrics_new 0)) aggs"
    "\<forall>c. sum_list (map (agg_count c) aggs) = read_counter c (me_counters (metrics_new 0)) +
      sum_list (map (sample_count c) (samples_of [Recorded one_event, Tick 15]))"
    using flush_loop_windows[of "[Recorded one_event, Tick 15]" stdout_sink 5 "metrics_new 0" "[]" 20] by auto
  have "agg_count BytesDropped = ag_bytes_dropped" by (rule ext) simp
  moreover have "bytes_dropped one_event = 10" by code_simp
  ultimately show ?thesis
    using L(4)[THEN spec, of BytesDropped] L(1-3) by (intro exI[of _ aggs]) (simp add: f metrics_new_def)
qed

end
