(* ===== verification/Forward.thy ===== *)
theory Forward
  imports Export
begin

text \<open>
  The forwarder, \<^verbatim>\<open>src/forward.rs\<close>: the request it makes for a payload and what it makes of the reply.
  The HTTP client (hyper, rustls) is a parameter: what building and sending a request comes to.
\<close>

datatype forward_error =
    UnsupportedScheme "u8 list"
  | RequestError "u8 list"
  | SendError "u8 list"
  | StatusError u16

datatype http_reply = RequestInvalid "u8 list" | SendFailed "u8 list" | Replied u16

record http_request =
  hr_method :: "u8 list"
  hr_uri :: "u8 list"
  hr_content_type :: "u8 list"
  hr_body :: "u8 list"

type_synonym http_client = "http_request \<Rightarrow> http_reply"

text \<open>\<^verbatim>\<open>str::starts_with\<close>, \<^verbatim>\<open>trim_end_matches('/')\<close> and \<^verbatim>\<open>StatusCode::is_success\<close>.\<close>

definition starts_with :: "u8 list \<Rightarrow> u8 list \<Rightarrow> bool" where
  "starts_with p s \<longleftrightarrow> take (length p) s = p"

definition trim_slashes :: "u8 list \<Rightarrow> u8 list" where
  "trim_slashes s = rev (dropWhile (\<lambda>b. b = 47) (rev s))"

definition is_success :: "u16 \<Rightarrow> bool" where
  "is_success status \<longleftrightarrow> 200 \<le> status \<and> status < 300"

definition forward_request :: "u8 list \<Rightarrow> assembled_payload \<Rightarrow> http_request" where
  "forward_request endpoint p =
     \<lparr>hr_method = bytes ''POST'', hr_uri = trim_slashes endpoint @ bytes ''/v1/logs'',
      hr_content_type = bytes ''application/x-protobuf'', hr_body = contiguous p\<rparr>"

definition forward :: "http_client \<Rightarrow> u8 list \<Rightarrow> assembled_payload \<Rightarrow> (forward_error, unit) result" where
  "forward client endpoint p =
     (if \<not> starts_with (bytes ''http://'') endpoint \<and> \<not> starts_with (bytes ''https://'') endpoint
      then Err (UnsupportedScheme endpoint)
      else case client (forward_request endpoint p) of
          RequestInvalid e \<Rightarrow> Err (RequestError e)
        | SendFailed e \<Rightarrow> Err (SendError e)
        | Replied status \<Rightarrow> if is_success status then Ok () else Err (StatusError status))"

lemma starts_with_iff: "starts_with p s \<longleftrightarrow> (\<exists>t. s = p @ t)"
  unfolding starts_with_def by (metis append_eq_conv_conj append_take_drop_id)

lemma forward_Ok:
  "forward client endpoint p = Ok u \<longleftrightarrow>
    (starts_with (bytes ''http://'') endpoint \<or> starts_with (bytes ''https://'') endpoint) \<and>
    (\<exists>status. client (forward_request endpoint p) = Replied status \<and> is_success status)"
  by (auto simp: forward_def split: http_reply.splits if_splits)

lemma forward_not_Panic: "forward client endpoint p \<noteq> Panic"
  by (auto simp: forward_def split: http_reply.splits)

text \<open>The destination sees the base address with exactly one slash before the path.\<close>

lemma trim_slashes_idem: "trim_slashes (trim_slashes s) = trim_slashes s"
  by (simp add: trim_slashes_def)

lemma dropWhile_replicate: "P x \<Longrightarrow> dropWhile P (replicate n x @ xs) = dropWhile P xs"
  by (induction n) simp_all

lemma trim_slashes_append: "trim_slashes (s @ replicate n 47) = trim_slashes s"
  by (simp add: trim_slashes_def dropWhile_replicate)

end
