(* ===== verification/Spool.thy ===== *)
theory Spool
  imports Forward Decimal "HOL-Library.RBT"
begin

text \<open>
  The disk spool, \<^verbatim>\<open>src/spool.rs\<close>: file names, recovery and the critical sections of pushes and drains
  on the shared state.  \<^verbatim>\<open>SpoolRun.thy\<close> runs them over a directory, \<^verbatim>\<open>DrainLoop.thy\<close> has the loop.

  \<^verbatim>\<open>BTreeMap\<close> is the red-black map of the library, used through the laws of \<open>ordered_map\<close>.
\<close>

section \<open>File names\<close>

definition OTLP :: "u8 list" where "OTLP = bytes ''.otlp''"
definition TMP :: "u8 list" where "TMP = bytes ''.tmp''"

text \<open>\<^verbatim>\<open>str::strip_suffix\<close> and \<^verbatim>\<open>str::ends_with\<close>.\<close>

definition strip_suffix :: "u8 list \<Rightarrow> u8 list \<Rightarrow> u8 list option" where
  "strip_suffix p s = (if length p \<le> length s \<and> drop (length s - length p) s = p then Some (take (length s - length p) s) else None)"

definition ends_with :: "u8 list \<Rightarrow> u8 list \<Rightarrow> bool" where
  "ends_with p s \<longleftrightarrow> length p \<le> length s \<and> drop (length s - length p) s = p"

definition parse_seq :: "u8 list \<Rightarrow> u64 option" where
  "parse_seq name =
     (case strip_suffix OTLP name of
        None \<Rightarrow> None
      | Some stem \<Rightarrow> if length stem = 20 \<and> list_all is_digit stem then parse_u64 stem else None)"

definition otlp_name :: "u64 \<Rightarrow> u8 list" where
  "otlp_name seq = zero_padded 20 (unat seq) @ OTLP"

definition tmp_name :: "u64 \<Rightarrow> u8 list" where
  "tmp_name seq = zero_padded 20 (unat seq) @ OTLP @ TMP"

lemma strip_suffix_Some: "strip_suffix p s = Some t \<longleftrightarrow> s = t @ p"
  by (auto simp: strip_suffix_def) (metis append_take_drop_id)

lemma ends_with_iff: "ends_with p s \<longleftrightarrow> (\<exists>t. s = t @ p)"
  unfolding ends_with_def by (metis append_take_drop_id diff_diff_cancel drop_append append_eq_conv_conj length_append le_add2 add_diff_cancel_right')

lemma padded_seq:
  "length (zero_padded 20 (unat (s :: u64))) = 20" "list_all is_digit (zero_padded 20 (unat s))"
  "digits_value (zero_padded 20 (unat s)) = unat s"
proof -
  have "unat s < 2 ^ 64" using unsigned_less[of s, where 'a = nat] by simp
  then have "unat s < 10 ^ 20" by simp
  then show "length (zero_padded 20 (unat s)) = 20" by (intro zero_padded_length) simp_all
qed (use zero_padded_digits[of 20 "unat s"] in simp_all)

lemma parse_seq_Some: "parse_seq name = Some s \<longleftrightarrow> name = otlp_name s"
proof
  assume "parse_seq name = Some s"
  then obtain stem where n: "name = stem @ OTLP" "length stem = 20" "list_all is_digit stem" "parse_u64 stem = Some s"
    by (auto simp: parse_seq_def strip_suffix_Some split: option.splits if_splits)
  from n(4) have "digits_value stem < 2 ^ 64" "s = of_nat (digits_value stem)" by (auto simp: parse_u64_digits[OF n(3)] split: if_splits)
  then have "unat s = digits_value stem" by (simp add: unat_of_nat take_bit_nat_eq_self)
  with zero_padded_value[OF n(3)] n(1,2) show "name = otlp_name s" by (simp add: otlp_name_def)
next
  assume "name = otlp_name s"
  moreover have "zero_padded 20 (unat s) \<noteq> []" using padded_seq(1)[of s] by auto
  moreover have "unat s < 2 ^ 64" using unsigned_less[of s, where 'a = nat] by simp
  ultimately show "parse_seq name = Some s"
    using padded_seq[of s] strip_suffix_Some[of OTLP name "zero_padded 20 (unat s)"]
    by (simp add: parse_seq_def otlp_name_def parse_u64_digits)
qed

lemma otlp_name_inj: "otlp_name s = otlp_name t \<longleftrightarrow> s = t"
  by (metis parse_seq_Some option.inject)

lemma otlp_not_tmp: "\<not> ends_with TMP (otlp_name s)"
  by (simp add: ends_with_def otlp_name_def OTLP_def TMP_def)

lemma tmp_is_tmp: "ends_with TMP (tmp_name s)" "parse_seq (tmp_name s) = None" "tmp_name s \<noteq> otlp_name t"
proof -
  show t: "ends_with TMP (tmp_name s)" by (simp add: ends_with_def tmp_name_def OTLP_def TMP_def)
  then show n: "tmp_name s \<noteq> otlp_name t" for t using otlp_not_tmp[of t] by metis
  then show "parse_seq (tmp_name s) = None" by (metis parse_seq_Some option.exhaust)
qed

section \<open>Ordered maps\<close>

text \<open>What the spool relies on of \<^verbatim>\<open>BTreeMap\<close>: \<^verbatim>\<open>insert\<close>, \<^verbatim>\<open>remove\<close> and \<^verbatim>\<open>iter().next()\<close>.\<close>

locale ordered_map =
  fixes look :: "'t \<Rightarrow> 'k :: linorder \<Rightarrow> 'v option"
    and ins :: "'k \<Rightarrow> 'v \<Rightarrow> 't \<Rightarrow> 't"
    and del :: "'k \<Rightarrow> 't \<Rightarrow> 't"
    and first :: "'t \<Rightarrow> ('k \<times> 'v) option"
  assumes look_ins: "look (ins k v t) = (look t)(k \<mapsto> v)"
    and look_del: "look (del k t) = (look t)(k := None)"
    and look_finite: "finite (dom (look t))"
    and first_None: "first t = None \<Longrightarrow> look t = Map.empty"
    and first_Some: "first t = Some (k, v) \<Longrightarrow> look t k = Some v \<and> (\<forall>k' \<in> dom (look t). k \<le> k')"
begin

lemma weight_ins:
  fixes f :: "'v \<Rightarrow> nat"
  assumes "look t k = None"
  shows "(\<Sum>x\<in>dom (look (ins k v t)). f (the (look (ins k v t) x))) = f v + (\<Sum>x\<in>dom (look t). f (the (look t x)))"
proof -
  have k: "k \<notin> dom (look t)" using assms by auto
  have "(\<Sum>x\<in>dom (look t). f (the (((look t)(k \<mapsto> v)) x))) = (\<Sum>x\<in>dom (look t). f (the (look t x)))"
    by (rule sum.cong) (use k in auto)
  with k look_finite[of t] show ?thesis by (simp add: look_ins)
qed

lemma weight_del:
  fixes f :: "'v \<Rightarrow> nat"
  assumes "look t k = Some v"
  shows "(\<Sum>x\<in>dom (look t). f (the (look t x))) = f v + (\<Sum>x\<in>dom (look (del k t)). f (the (look (del k t) x)))"
proof -
  have d: "dom (look t) = Set.insert k (dom (look t) - {k})" using assms by auto
  have "(\<Sum>x\<in>dom (look t) - {k}. f (the (((look t)(k := None)) x))) = (\<Sum>x\<in>dom (look t) - {k}. f (the (look t x)))"
    by (rule sum.cong) auto
  with look_finite[of t] show ?thesis
    by (subst d, subst sum.insert) (simp_all add: assms look_del)
qed

lemma first_dom: "first t = None \<longleftrightarrow> dom (look t) = {}"
  using first_None[of t] first_Some[of t] by (cases "first t") auto

end

definition bmap_first :: "('k :: linorder, 'v) rbt \<Rightarrow> ('k \<times> 'v) option" where
  "bmap_first t = (case RBT.entries t of [] \<Rightarrow> None | e # es \<Rightarrow> Some e)"

interpretation pending: ordered_map RBT.lookup RBT.insert RBT.delete bmap_first
proof unfold_locales
  fix t :: "('k :: linorder, 'v) rbt" and k v
  show "RBT.lookup (RBT.insert k v t) = (RBT.lookup t)(k \<mapsto> v)" by simp
  show "RBT.lookup (RBT.delete k t) = (RBT.lookup t)(k := None)" by simp
  show "finite (dom (RBT.lookup t))" by simp
  show "bmap_first t = None \<Longrightarrow> RBT.lookup t = Map.empty"
    unfolding map_of_entries[of t, symmetric] by (cases "RBT.entries t") (simp_all add: bmap_first_def)
  assume "bmap_first t = Some (k, v)"
  then obtain es where e: "RBT.entries t = (k, v) # es" by (auto simp: bmap_first_def split: list.splits)
  have "k \<le> k'" if "k' \<in> dom (RBT.lookup t)" for k'
  proof -
    from that obtain w where "(k', w) \<in> set (RBT.entries t)" by (auto simp: lookup_in_tree)
    with e sorted_entries[of t] show ?thesis by auto
  qed
  with e lookup_in_tree[of t k v] show "RBT.lookup t k = Some v \<and> (\<forall>k' \<in> dom (RBT.lookup t). k \<le> k')" by simp
qed

section \<open>The state and its updates\<close>

datatype spool_error = Full u64 u64 | SpoolIo "u8 list"

datatype drain_outcome = Delivered | Idle | Retry

record spool_state =
  ss_next_seq :: u64
  ss_total_bytes :: u64
  ss_pending :: "(u64, u64) rbt"

text \<open>\<^verbatim>\<open>open\<close>: the loop over the directory; a failing \<^verbatim>\<open>metadata\<close> ends it.\<close>

fun open_loop ::
  "(u8 list \<Rightarrow> 'io + u64) \<Rightarrow> u8 list list \<Rightarrow> (u64, u64) rbt \<Rightarrow> u64 \<Rightarrow> u64 option \<Rightarrow>
   'io + (u64, u64) rbt \<times> u64 \<times> u64 option" where
  "open_loop metadata [] pending tot max_seq = Inr (pending, tot, max_seq)"
| "open_loop metadata (name # names) pending tot max_seq =
     (if ends_with TMP name then open_loop metadata names pending tot max_seq
      else case parse_seq name of
          Some seq \<Rightarrow>
            (case metadata name of
               Inl e \<Rightarrow> Inl e
             | Inr len \<Rightarrow> open_loop metadata names (RBT.insert seq len pending) (tot + len)
                 (Some (case max_seq of None \<Rightarrow> seq | Some m \<Rightarrow> max m seq)))
        | None \<Rightarrow> open_loop metadata names pending tot max_seq)"

definition spool_open :: "(u8 list \<Rightarrow> 'io + u64) \<Rightarrow> u8 list list \<Rightarrow> 'io + spool_state" where
  "spool_open metadata names =
     (case open_loop metadata names RBT.empty 0 None of
        Inl e \<Rightarrow> Inl e
      | Inr (pending, tot, max_seq) \<Rightarrow>
          Inr \<lparr>ss_next_seq = (case max_seq of None \<Rightarrow> 0 | Some m \<Rightarrow> m + 1), ss_total_bytes = tot, ss_pending = pending\<rparr>)"

text \<open>The files that \<^verbatim>\<open>open\<close> tries to remove.\<close>

definition swept :: "u8 list list \<Rightarrow> u8 list list" where
  "swept names = filter (ends_with TMP) names"

definition spool_stats :: "spool_state \<Rightarrow> nat \<times> u64" where
  "spool_stats s = (length (RBT.entries (ss_pending s)), ss_total_bytes s)"

text \<open>The critical sections of \<^verbatim>\<open>push\<close>: the reservation, the publication and the rollback.\<close>

definition push_reserve :: "u64 \<Rightarrow> u64 \<Rightarrow> spool_state \<Rightarrow> spool_error + u64 \<times> spool_state" where
  "push_reserve max_bytes len s =
     (if max_bytes < ss_total_bytes s + len then Inl (Full (ss_total_bytes s) max_bytes)
      else Inr (ss_next_seq s, s\<lparr>ss_next_seq := ss_next_seq s + 1, ss_total_bytes := ss_total_bytes s + len\<rparr>))"

definition push_publish :: "u64 \<Rightarrow> u64 \<Rightarrow> spool_state \<Rightarrow> spool_state" where
  "push_publish seq len s = s\<lparr>ss_pending := RBT.insert seq len (ss_pending s)\<rparr>"

definition push_rollback :: "u64 \<Rightarrow> spool_state \<Rightarrow> spool_state" where
  "push_rollback len s = s\<lparr>ss_total_bytes := saturating_sub (ss_total_bytes s) len\<rparr>"

text \<open>Those of \<^verbatim>\<open>drain_once\<close>: the choice of the oldest file, and its removal after delivery.\<close>

definition drain_pick :: "spool_state \<Rightarrow> (u64 \<times> u64) option" where
  "drain_pick s = bmap_first (ss_pending s)"

definition drain_remove :: "u64 \<Rightarrow> u64 \<Rightarrow> spool_state \<Rightarrow> spool_state" where
  "drain_remove seq len s =
     (if RBT.lookup (ss_pending s) seq \<noteq> None
      then s\<lparr>ss_pending := RBT.delete seq (ss_pending s), ss_total_bytes := saturating_sub (ss_total_bytes s) len\<rparr>
      else s)"

end
