(* ===== verification/SpoolRun.thy ===== *)
theory SpoolRun
  imports Spool
begin

text \<open>
  The spool at work, \<^verbatim>\<open>src/spool.rs\<close>: pushes and the drain as sequences of steps that interleave on
  the shared state and the directory, crashes and restarts, and the handlers those steps make up.
\<close>

section \<open>Steps\<close>

text \<open>
  A push after its reservation: writing the temporary file, or renamed and not yet published.  The
  last two fields of the world record what was promised and what was delivered.
\<close>

datatype push = Writing (push_seq: u64) (push_payload: "u8 list") | Renamed (push_seq: u64) (push_payload: "u8 list")

record world =
  wd_state :: spool_state
  wd_disk :: "u8 list \<Rightarrow> u8 list option"
  wd_pushes :: "push list"
  wd_draining :: "(u64 \<times> u64) option"
  wd_accepted :: "(u64 \<times> u8 list) list"
  wd_delivered :: "(u64 \<times> u8 list) list"

abbreviation len64 :: "u8 list \<Rightarrow> u64" where
  "len64 p \<equiv> of_nat (length p)"

definition without :: "'a list \<Rightarrow> nat \<Rightarrow> 'a list" where
  "without xs i = take i xs @ drop (Suc i) xs"

text \<open>What \<^verbatim>\<open>metadata\<close> reports for the files of a directory.\<close>

definition disk_len :: "(u8 list \<Rightarrow> u8 list option) \<Rightarrow> u8 list \<Rightarrow> unit + u64" where
  "disk_len disk name = (case disk name of None \<Rightarrow> Inl () | Some p \<Rightarrow> Inr (len64 p))"

text \<open>The bytes of the pending files.\<close>

definition weight :: "(u64, u64) rbt \<Rightarrow> nat" where
  "weight t = (\<Sum>x\<in>dom (RBT.lookup t). unat (the (RBT.lookup t x)))"

text \<open>
  The steps.  A write may leave any contents in the temporary file; the rename is atomic.  A push
  fails at any file operation before the rename.  \<open>fl_deliver\<close> is a successful forward, after which the
  removal of the file may fail.  A restart loses the state and all calls in progress and opens the
  directory again; some of the temporary files may resist removal.

  Three bounds are part of the rules: a payload is shorter than \<open>2 ^ 63\<close> bytes (no Rust allocation is
  longer), the files found by a restart are together shorter than that, and the sequence does not
  reach its last number.

  First the steps on the files, of pushes in progress and of the drain.
\<close>

inductive file_step :: "http_client \<Rightarrow> u8 list \<Rightarrow> world \<Rightarrow> world \<Rightarrow> bool"
  for client endpoint where
  fl_write: "Writing seq p \<in> set (wd_pushes w) \<Longrightarrow>
    file_step client endpoint w (w\<lparr>wd_disk := (wd_disk w)(tmp_name seq \<mapsto> part)\<rparr>)"
| fl_rename: "i < length (wd_pushes w) \<Longrightarrow> wd_pushes w ! i = Writing seq p \<Longrightarrow> wd_disk w (tmp_name seq) = Some p \<Longrightarrow>
    file_step client endpoint w
      (w\<lparr>wd_disk := (wd_disk w)(tmp_name seq := None, otlp_name seq \<mapsto> p), wd_pushes := (wd_pushes w)[i := Renamed seq p]\<rparr>)"
| fl_pick: "wd_draining w = None \<Longrightarrow> drain_pick (wd_state w) = Some (seq, len) \<Longrightarrow>
    file_step client endpoint w (w\<lparr>wd_draining := Some (seq, len)\<rparr>)"
| fl_retry: "wd_draining w = Some (seq, len) \<Longrightarrow>
    file_step client endpoint w (w\<lparr>wd_draining := None\<rparr>)"
| fl_deliver: "wd_draining w = Some (seq, len) \<Longrightarrow> wd_disk w (otlp_name seq) = Some b \<Longrightarrow>
    forward client endpoint (passthrough b) = Ok () \<Longrightarrow> disk' = (wd_disk w)(otlp_name seq := None) \<or> disk' = wd_disk w \<Longrightarrow>
    file_step client endpoint w
      (w\<lparr>wd_state := drain_remove seq len (wd_state w), wd_disk := disk', wd_draining := None,
         wd_delivered := wd_delivered w @ [(seq, b)]\<rparr>)"

definition reopened :: "world \<Rightarrow> world \<Rightarrow> bool" where
  "reopened w w' \<longleftrightarrow>
     (\<exists>names s' removed. distinct names \<and> set names = dom (wd_disk w) \<and> spool_open (disk_len (wd_disk w)) names = Inr s' \<and>
        removed \<subseteq> set (swept names) \<and> weight (ss_pending s') < 2 ^ 63 \<and>
        w' = w\<lparr>wd_state := s', wd_disk := (wd_disk w) |` (- removed), wd_pushes := [], wd_draining := None\<rparr>)"

inductive spool_step :: "u64 \<Rightarrow> http_client \<Rightarrow> u8 list \<Rightarrow> world \<Rightarrow> world \<Rightarrow> bool"
  for max_bytes client endpoint where
  st_reserve: "push_reserve max_bytes (len64 p) (wd_state w) = Inr (seq, s') \<Longrightarrow> length p < 2 ^ 63 \<Longrightarrow>
    ss_next_seq (wd_state w) < - 1 \<Longrightarrow>
    spool_step max_bytes client endpoint w (w\<lparr>wd_state := s', wd_pushes := wd_pushes w @ [Writing seq p]\<rparr>)"
| st_file: "file_step client endpoint w w' \<Longrightarrow> spool_step max_bytes client endpoint w w'"
| st_fail: "i < length (wd_pushes w) \<Longrightarrow> wd_pushes w ! i = Writing seq p \<Longrightarrow>
    spool_step max_bytes client endpoint w
      (w\<lparr>wd_state := push_rollback (len64 p) (wd_state w), wd_pushes := without (wd_pushes w) i\<rparr>)"
| st_publish: "i < length (wd_pushes w) \<Longrightarrow> wd_pushes w ! i = Renamed seq p \<Longrightarrow>
    spool_step max_bytes client endpoint w
      (w\<lparr>wd_state := push_publish seq (len64 p) (wd_state w), wd_pushes := without (wd_pushes w) i,
         wd_accepted := wd_accepted w @ [(seq, p)]\<rparr>)"
| st_restart: "reopened w w' \<Longrightarrow> spool_step max_bytes client endpoint w w'"

lemmas st_write = st_file[OF fl_write]
  and st_rename = st_file[OF fl_rename]
  and st_pick = st_file[OF fl_pick]
  and st_deliver = st_file[OF fl_deliver]

section \<open>Recovery\<close>

definition next_above :: "(u64, u64) rbt \<Rightarrow> u64 option \<Rightarrow> bool" where
  "next_above pending m \<longleftrightarrow>
     (case m of None \<Rightarrow> dom (RBT.lookup pending) = {} | Some k \<Rightarrow> k \<in> dom (RBT.lookup pending) \<and> (\<forall>x \<in> dom (RBT.lookup pending). x \<le> k))"

lemma open_loop_lookup:
  assumes "open_loop metadata names pending tot m = Inr (pending', tot', m')"
  shows "RBT.lookup pending' seq =
    (if otlp_name seq \<in> set names then Some (projr (metadata (otlp_name seq))) else RBT.lookup pending seq)"
  using assms
proof (induction metadata names pending tot m rule: open_loop.induct)
  case (2 metadata name names pending tot m)
  show ?case
  proof (cases "parse_seq name")
    case None
    then have n: "name \<noteq> otlp_name seq" by (metis parse_seq_Some option.distinct(1))
    show ?thesis
    proof (cases "ends_with TMP name")
      case True
      with "2.prems" "2.IH"(1)[OF True] n show ?thesis by simp
    next
      case False
      with "2.prems" "2.IH" n None show ?thesis by simp
    qed
  next
    case (Some s)
    then have n: "name = otlp_name s" by (simp add: parse_seq_Some)
    then have t: "\<not> ends_with TMP name" using otlp_not_tmp by simp
    with "2.prems" Some obtain len where l: "metadata name = Inr len"
      "open_loop metadata names (RBT.insert s len pending) (tot + len) (Some (case m of None \<Rightarrow> s | Some k \<Rightarrow> max k s)) =
        Inr (pending', tot', m')"
      by (auto split: sum.splits)
    from "2.IH"(3)[OF t Some l] show ?thesis
      using n l(1) by (auto simp: otlp_name_inj)
  qed
qed simp

lemma open_loop_above:
  "open_loop metadata names pending tot m = Inr (pending', tot', m') \<Longrightarrow> next_above pending m \<Longrightarrow> next_above pending' m'"
proof (induction metadata names pending tot m rule: open_loop.induct)
  case (2 metadata name names pending tot m)
  show ?case
  proof (cases "\<not> ends_with TMP name \<and> parse_seq name \<noteq> None")
    case False
    with 2 show ?thesis by (auto split: if_splits option.splits)
  next
    case True
    then obtain s where s: "\<not> ends_with TMP name" "parse_seq name = Some s" by auto
    with "2.prems"(1) obtain len where l: "metadata name = Inr len"
      "open_loop metadata names (RBT.insert s len pending) (tot + len) (Some (case m of None \<Rightarrow> s | Some k \<Rightarrow> max k s)) =
        Inr (pending', tot', m')"
      by (auto split: sum.splits)
    have "next_above (RBT.insert s len pending) (Some (case m of None \<Rightarrow> s | Some k \<Rightarrow> max k s))"
      using "2.prems"(2) by (auto simp: next_above_def max_def split: option.splits if_splits intro: order_trans)
    with "2.IH" s l show ?thesis by auto
  qed
qed simp

lemma weight_insert: "RBT.lookup t k = None \<Longrightarrow> weight (RBT.insert k v t) = unat v + weight t"
  unfolding weight_def by (rule pending.weight_ins)

lemma weight_delete: "RBT.lookup t k = Some v \<Longrightarrow> weight t = unat v + weight (RBT.delete k t)"
  unfolding weight_def by (rule pending.weight_del)

lemma open_loop_weight:
  assumes "open_loop metadata names pending tot m = Inr (pending', tot', m')" "distinct names"
    and "\<forall>seq. otlp_name seq \<in> set names \<longrightarrow> RBT.lookup pending seq = None" "tot = of_nat (weight pending)"
  shows "tot' = of_nat (weight pending')"
  using assms
proof (induction metadata names pending tot m rule: open_loop.induct)
  case (2 metadata name names pending tot m)
  show ?case
  proof (cases "\<not> ends_with TMP name \<and> parse_seq name \<noteq> None")
    case False
    with 2 show ?thesis by (auto split: if_splits option.splits)
  next
    case True
    then obtain s where s: "\<not> ends_with TMP name" "parse_seq name = Some s" by auto
    then have n: "name = otlp_name s" by (simp add: parse_seq_Some)
    with s "2.prems"(1) obtain len where l: "metadata name = Inr len"
      "open_loop metadata names (RBT.insert s len pending) (tot + len) (Some (case m of None \<Rightarrow> s | Some k \<Rightarrow> max k s)) =
        Inr (pending', tot', m')"
      by (auto split: sum.splits)
    have "RBT.lookup pending s = None" using "2.prems"(3) n by simp
    then have "tot + len = of_nat (weight (RBT.insert s len pending))"
      using "2.prems"(4) by (simp add: weight_insert)
    moreover have "\<forall>seq. otlp_name seq \<in> set names \<longrightarrow> RBT.lookup (RBT.insert s len pending) seq = None"
      using "2.prems"(2,3) n by (auto simp: otlp_name_inj)
    ultimately show ?thesis using "2.IH"(3)[OF s l] "2.prems"(2) by simp
  qed
qed simp

lemma less_next: "k < - 1 \<Longrightarrow> x \<le> k \<Longrightarrow> x < k + 1" for k :: u64
  by unat_arith

text \<open>What a restart finds: exactly the published files, with their lengths, and a fresh sequence number.\<close>

lemma spool_open_result:
  assumes "spool_open (disk_len disk) names = Inr s" "distinct names" "set names = dom disk"
  shows "RBT.lookup (ss_pending s) seq = map_option len64 (disk (otlp_name seq))"
    "ss_total_bytes s = of_nat (weight (ss_pending s))"
    "(\<forall>x. disk (otlp_name x) \<noteq> None \<longrightarrow> x < - 1) \<Longrightarrow> disk (otlp_name seq) \<noteq> None \<Longrightarrow> seq < ss_next_seq s"
proof -
  from assms(1) obtain pending tot m where O: "open_loop (disk_len disk) names RBT.empty 0 None = Inr (pending, tot, m)"
    and s: "s = \<lparr>ss_next_seq = (case m of None \<Rightarrow> 0 | Some m \<Rightarrow> m + 1), ss_total_bytes = tot, ss_pending = pending\<rparr>"
    by (auto simp: spool_open_def split: sum.splits)
  show L: "RBT.lookup (ss_pending s) seq = map_option len64 (disk (otlp_name seq))" for seq
    using open_loop_lookup[OF O, of seq] assms(3) by (auto simp: s disk_len_def split: option.splits)
  show "ss_total_bytes s = of_nat (weight (ss_pending s))"
    using open_loop_weight[OF O assms(2)] by (simp add: s weight_def)
  assume top: "\<forall>x. disk (otlp_name x) \<noteq> None \<longrightarrow> x < - 1" and d: "disk (otlp_name seq) \<noteq> None"
  have "next_above pending m" using open_loop_above[OF O] by (simp add: next_above_def)
  moreover have "seq \<in> dom (RBT.lookup pending)" using L[of seq] d by (auto simp: s)
  ultimately obtain k where k: "m = Some k" "k \<in> dom (RBT.lookup pending)" "seq \<le> k"
    by (auto simp: next_above_def split: option.splits)
  then obtain y where "RBT.lookup pending k = Some y" by auto
  then have "disk (otlp_name k) \<noteq> None" using L[of k] by (cases "disk (otlp_name k)") (simp_all add: s)
  then have "k < - 1" using top by blast
  with k show "seq < ss_next_seq s" by (simp add: s less_next)
qed

lemma names_differ [simp]:
  "tmp_name s \<noteq> otlp_name t" "otlp_name t \<noteq> tmp_name s" "otlp_name t = otlp_name u \<longleftrightarrow> t = u"
  using tmp_is_tmp(3)[of s t] by (auto simp: otlp_name_inj)

lemma open_loop_total:
  "\<forall>name \<in> set names. \<exists>len. metadata name = Inr len \<Longrightarrow> \<exists>r. open_loop metadata names pending tot m = Inr r"
  by (induction metadata names pending tot m rule: open_loop.induct) (auto split: option.splits sum.splits)

text \<open>
  C27: Recovery: opening a directory takes up exactly the published files with their lengths, counts
  their bytes, chooses a number above all of them, and sweeps only temporary files, none of them a
  published one.
\<close>

theorem spool_recovery:
  assumes "distinct names" "set names = dom disk" "\<forall>x. disk (otlp_name x) \<noteq> None \<longrightarrow> x < - 1"
  shows "\<exists>s. spool_open (disk_len disk) names = Inr s \<and>
    (\<forall>seq. RBT.lookup (ss_pending s) seq = map_option len64 (disk (otlp_name seq))) \<and>
    ss_total_bytes s = of_nat (weight (ss_pending s)) \<and>
    (\<forall>seq. disk (otlp_name seq) \<noteq> None \<longrightarrow> seq < ss_next_seq s \<and> otlp_name seq \<notin> set (swept names))"
proof -
  have "\<forall>name \<in> set names. \<exists>len. disk_len disk name = Inr len" using assms(2) by (auto simp: disk_len_def)
  from open_loop_total[OF this, of RBT.empty 0 None] obtain s where s: "spool_open (disk_len disk) names = Inr s"
    by (auto simp: spool_open_def)
  note O = spool_open_result[OF s assms(1,2)]
  have "otlp_name seq \<notin> set (swept names)" for seq using otlp_not_tmp by (simp add: swept_def)
  with s O(1,2) O(3)[OF assms(3)] show ?thesis by blast
qed

theorem spool_recovery_witness:
  "\<exists>s. spool_open (disk_len [otlp_name 3 \<mapsto> [1, 2], tmp_name 5 \<mapsto> [9]]) [tmp_name 5, otlp_name 3] = Inr s \<and>
    RBT.lookup (ss_pending s) 3 = Some 2 \<and> 3 < ss_next_seq s"
proof -
  define d where "d = [otlp_name 3 \<mapsto> [1, 2], tmp_name 5 \<mapsto> [9 :: u8]]"
  have "distinct [tmp_name 5, otlp_name 3]" "set [tmp_name 5, otlp_name 3] = dom d" "\<forall>x. d (otlp_name x) \<noteq> None \<longrightarrow> x < - 1"
    by (auto simp: d_def split: if_splits)
  from spool_recovery[OF this] obtain s where "spool_open (disk_len d) [tmp_name 5, otlp_name 3] = Inr s"
    "RBT.lookup (ss_pending s) 3 = map_option len64 (d (otlp_name 3))" "d (otlp_name 3) \<noteq> None \<longrightarrow> 3 < ss_next_seq s" by blast
  then show ?thesis by (intro exI[of _ s]) (simp add: d_def)
qed

section \<open>Invariants\<close>

definition in_flight :: "push list \<Rightarrow> nat" where
  "in_flight ps = sum_list (map (length \<circ> push_payload) ps)"

text \<open>Pending files are on disk with their lengths, and no published number is reused while its file exists.\<close>

definition files_ok :: "world \<Rightarrow> bool" where
  "files_ok w \<longleftrightarrow>
     (\<forall>seq len. RBT.lookup (ss_pending (wd_state w)) seq = Some len \<longrightarrow>
        (\<exists>b. wd_disk w (otlp_name seq) = Some b \<and> len = len64 b)) \<and>
     (\<forall>seq. wd_disk w (otlp_name seq) \<noteq> None \<longrightarrow> seq < ss_next_seq (wd_state w))"

definition push_ok :: "world \<Rightarrow> push \<Rightarrow> bool" where
  "push_ok w p \<longleftrightarrow> push_seq p < ss_next_seq (wd_state w) \<and> RBT.lookup (ss_pending (wd_state w)) (push_seq p) = None \<and>
     length (push_payload p) < 2 ^ 63 \<and>
     (case p of Renamed seq b \<Rightarrow> wd_disk w (otlp_name seq) = Some b | Writing seq b \<Rightarrow> True)"

definition pushes_ok :: "world \<Rightarrow> bool" where
  "pushes_ok w \<longleftrightarrow> distinct (map push_seq (wd_pushes w)) \<and> (\<forall>p \<in> set (wd_pushes w). push_ok w p)"

definition drain_ok :: "world \<Rightarrow> bool" where
  "drain_ok w \<longleftrightarrow> (\<forall>seq len. wd_draining w = Some (seq, len) \<longrightarrow> RBT.lookup (ss_pending (wd_state w)) seq = Some len)"

definition books_ok :: "world \<Rightarrow> bool" where
  "books_ok w \<longleftrightarrow> unat (ss_total_bytes (wd_state w)) = weight (ss_pending (wd_state w)) + in_flight (wd_pushes w) \<and>
     unat (ss_total_bytes (wd_state w)) < 2 ^ 63"

definition promises_ok :: "world \<Rightarrow> bool" where
  "promises_ok w \<longleftrightarrow> (\<forall>seq p. (seq, p) \<in> set (wd_accepted w) \<longrightarrow> (seq, p) \<in> set (wd_delivered w) \<or>
     wd_disk w (otlp_name seq) = Some p \<and> RBT.lookup (ss_pending (wd_state w)) seq \<noteq> None)"

definition world_ok :: "world \<Rightarrow> bool" where
  "world_ok w \<longleftrightarrow> files_ok w \<and> pushes_ok w \<and> drain_ok w \<and> books_ok w \<and> promises_ok w"

lemmas world_defs = files_ok_def pushes_ok_def drain_ok_def books_ok_def promises_ok_def

lemma set_without: "set (without xs i) \<subseteq> set xs"
  using set_take_subset[of i xs] set_drop_subset[of "Suc i" xs] by (auto simp: without_def)

lemma without_split:
  assumes "distinct (map f xs)" "i < length xs"
  shows "distinct (map f (without xs i))" "x \<in> set (without xs i) \<Longrightarrow> f x \<noteq> f (xs ! i)"
proof -
  have d: "distinct (map f (take i xs) @ f (xs ! i) # map f (drop (Suc i) xs))"
    using id_take_nth_drop[OF assms(2)] assms(1) by (metis list.simps(9) map_append)
  then show "distinct (map f (without xs i))" by (simp add: without_def)
  assume "x \<in> set (without xs i)"
  then have "f x \<in> f ` set (take i xs) \<union> f ` set (drop (Suc i) xs)" by (auto simp: without_def)
  moreover have "f (xs ! i) \<notin> f ` set (take i xs) \<union> f ` set (drop (Suc i) xs)" using d by simp
  ultimately show "f x \<noteq> f (xs ! i)" by metis
qed

lemma in_flight_without: "i < length ps \<Longrightarrow> in_flight ps = length (push_payload (ps ! i)) + in_flight (without ps i)"
  by (subst id_take_nth_drop[of i ps]) (simp_all add: in_flight_def without_def)

lemma in_flight_update:
  "i < length ps \<Longrightarrow> push_payload p = push_payload (ps ! i) \<Longrightarrow> in_flight (ps[i := p]) = in_flight ps"
  unfolding in_flight_def by (metis comp_apply length_map list_update_same_conv map_update nth_map)

lemma map_seq_update:
  "i < length ps \<Longrightarrow> push_seq p = push_seq (ps ! i) \<Longrightarrow> map push_seq (ps[i := p]) = map push_seq ps"
  by (simp add: map_update list_update_same_conv)

lemma unat_len64: "length p < 2 ^ 63 \<Longrightarrow> unat (len64 p) = length p"
  by (simp add: unat_of_nat take_bit_nat_eq_self)

text \<open>The critical sections as equations on the state.\<close>

lemma push_reserve_Inr:
  assumes "push_reserve max_bytes len s = Inr (seq, s')" "unat (ss_total_bytes s) < 2 ^ 63" "unat len < 2 ^ 63"
  shows "seq = ss_next_seq s" "s' = s\<lparr>ss_next_seq := ss_next_seq s + 1, ss_total_bytes := ss_total_bytes s + len\<rparr>"
    "unat (ss_total_bytes s') = unat (ss_total_bytes s) + unat len" "unat (ss_total_bytes s') \<le> unat max_bytes"
proof -
  from assms(1) show "seq = ss_next_seq s"
    and s: "s' = s\<lparr>ss_next_seq := ss_next_seq s + 1, ss_total_bytes := ss_total_bytes s + len\<rparr>"
    and "unat (ss_total_bytes s') \<le> unat max_bytes"
    by (auto simp: push_reserve_def not_less word_le_nat_alt split: if_splits)
  show "unat (ss_total_bytes s') = unat (ss_total_bytes s) + unat len"
    using assms(2,3) by (simp add: s unat_add_lem[THEN iffD1])
qed

lemma push_rollback_total: "unat (ss_total_bytes (push_rollback len s)) = unat (ss_total_bytes s) - unat len"
  by (simp add: push_rollback_def unat_saturating_sub)

lemma push_rollback_fields [simp]:
  "ss_next_seq (push_rollback len s) = ss_next_seq s" "ss_pending (push_rollback len s) = ss_pending s"
  by (simp_all add: push_rollback_def)

lemma push_publish_fields [simp]:
  "ss_next_seq (push_publish seq len s) = ss_next_seq s" "ss_total_bytes (push_publish seq len s) = ss_total_bytes s"
  "ss_pending (push_publish seq len s) = RBT.insert seq len (ss_pending s)"
  by (simp_all add: push_publish_def)

lemma drain_remove_fields:
  assumes "RBT.lookup (ss_pending s) seq = Some len"
  shows "ss_next_seq (drain_remove seq len s) = ss_next_seq s"
    "ss_pending (drain_remove seq len s) = RBT.delete seq (ss_pending s)"
    "unat (ss_total_bytes (drain_remove seq len s)) = unat (ss_total_bytes s) - unat len"
  using assms by (simp_all add: drain_remove_def unat_saturating_sub)

lemmas push_ok_cases = push_ok_def push.case_eq_if

lemma ok_reserve:
  assumes ok: "world_ok w" and r: "push_reserve max_bytes (len64 p) (wd_state w) = Inr (seq, s')" and p: "length p < 2 ^ 63"
    and top: "ss_next_seq (wd_state w) < - 1" and max: "unat max_bytes < 2 ^ 63"
  shows "world_ok (w\<lparr>wd_state := s', wd_pushes := wd_pushes w @ [Writing seq p]\<rparr>)"
proof -
  note R = push_reserve_Inr[OF r]
  have b: "unat (ss_total_bytes (wd_state w)) < 2 ^ 63" using ok by (simp add: world_ok_def books_ok_def)
  note R = R[OF b] unat_len64[OF p]
  have n: "x < ss_next_seq (wd_state w) \<Longrightarrow> x < ss_next_seq (wd_state w) + 1" for x
    using less_next[OF top, of x] by simp
  have new: "RBT.lookup (ss_pending (wd_state w)) seq = None"
    using ok R(1) p by (cases "RBT.lookup (ss_pending (wd_state w)) seq") (force simp: world_ok_def files_ok_def R)+
  have o: "\<forall>q \<in> set (wd_pushes w). push_ok w q" "distinct (map push_seq (wd_pushes w))"
    using ok by (simp_all add: world_ok_def pushes_ok_def)
  have "pushes_ok (w\<lparr>wd_state := s', wd_pushes := wd_pushes w @ [Writing seq p]\<rparr>)"
    using o p new n R by (fastforce simp: pushes_ok_def push_ok_cases less_next[OF top])
  moreover have "books_ok (w\<lparr>wd_state := s', wd_pushes := wd_pushes w @ [Writing seq p]\<rparr>)"
    using ok R p max by (simp add: world_ok_def books_ok_def in_flight_def)
  ultimately show ?thesis
    using ok R p n by (auto simp: world_ok_def files_ok_def drain_ok_def promises_ok_def)
qed

lemma ok_write:
  assumes "world_ok w"
  shows "world_ok (w\<lparr>wd_disk := (wd_disk w)(tmp_name seq := x)\<rparr>)"
  using assms by (auto simp: world_ok_def world_defs push_ok_def split: push.splits)

lemma ok_rename:
  assumes ok: "world_ok w" and i: "i < length (wd_pushes w)" "wd_pushes w ! i = Writing seq p"
  shows "world_ok (w\<lparr>wd_disk := (wd_disk w)(tmp_name seq := None, otlp_name seq \<mapsto> p), wd_pushes := (wd_pushes w)[i := Renamed seq p]\<rparr>)"
proof -
  have m: "Writing seq p \<in> set (wd_pushes w)" using i nth_mem by metis
  with ok have q: "push_ok w (Writing seq p)" by (simp add: world_ok_def pushes_ok_def)
  let ?w = "w\<lparr>wd_disk := (wd_disk w)(tmp_name seq := None, otlp_name seq \<mapsto> p), wd_pushes := (wd_pushes w)[i := Renamed seq p]\<rparr>"
  have d: "distinct (map push_seq (wd_pushes w))" using ok by (simp add: world_ok_def pushes_ok_def)
  have s: "map push_seq ((wd_pushes w)[i := Renamed seq p]) = map push_seq (wd_pushes w)"
    using i by (intro map_seq_update) simp_all
  have "push_ok ?w x" if x: "x \<in> set ((wd_pushes w)[i := Renamed seq p])" for x
  proof (cases "x = Renamed seq p")
    case True
    with q show ?thesis by (simp add: push_ok_def)
  next
    case False
    with x have xm: "x \<in> set (without (wd_pushes w) i)"
      using i(1) by (auto simp: without_def upd_conv_take_nth_drop)
    with without_split(2)[OF d i(1)] i(2) have "push_seq x \<noteq> seq" by fastforce
    moreover have "push_ok w x" using ok xm set_without[of "wd_pushes w" i] by (auto simp: world_ok_def pushes_ok_def)
    ultimately show ?thesis by (auto simp: push_ok_def split: push.splits)
  qed
  then have "pushes_ok ?w" using d s by (simp add: pushes_ok_def)
  moreover have "books_ok ?w"
    using ok i in_flight_update[of i "wd_pushes w" "Renamed seq p"] by (simp add: world_ok_def books_ok_def)
  moreover have "promises_ok ?w" using ok q by (fastforce simp: world_ok_def promises_ok_def push_ok_def)
  ultimately show ?thesis
    using ok q by (auto simp: world_ok_def files_ok_def drain_ok_def push_ok_def)
qed

lemma ok_without:
  assumes ok: "world_ok w" and i: "i < length (wd_pushes w)"
    and keep: "\<And>x. x \<in> set (without (wd_pushes w) i) \<Longrightarrow> push_seq x \<noteq> push_seq (wd_pushes w ! i) \<Longrightarrow> push_ok w x \<Longrightarrow> push_ok w' x"
    and w': "wd_pushes w' = without (wd_pushes w) i"
  shows "pushes_ok w'"
proof -
  have d: "distinct (map push_seq (wd_pushes w))" and o: "\<forall>x \<in> set (wd_pushes w). push_ok w x"
    using ok by (simp_all add: world_ok_def pushes_ok_def)
  show ?thesis
    unfolding pushes_ok_def w'
    using without_split[OF d i] keep o set_without[of "wd_pushes w" i] by blast
qed

lemma ok_fail:
  assumes ok: "world_ok w" and i: "i < length (wd_pushes w)" "wd_pushes w ! i = Writing seq p"
  shows "world_ok (w\<lparr>wd_state := push_rollback (len64 p) (wd_state w), wd_pushes := without (wd_pushes w) i\<rparr>)" (is "world_ok ?w")
proof -
  have "push_ok w (Writing seq p)" using ok i nth_mem[OF i(1)] by (simp add: world_ok_def pushes_ok_def)
  then have p: "unat (len64 p) = length p" by (simp add: push_ok_def unat_len64)
  have "pushes_ok ?w" by (rule ok_without[OF ok i(1)]) (auto simp: push_ok_def split: push.splits)
  moreover have "books_ok ?w"
    using ok p i(2) in_flight_without[OF i(1)] by (simp add: world_ok_def books_ok_def push_rollback_total)
  ultimately show ?thesis using ok by (simp add: world_ok_def files_ok_def drain_ok_def promises_ok_def)
qed

lemma ok_publish:
  assumes ok: "world_ok w" and i: "i < length (wd_pushes w)" "wd_pushes w ! i = Renamed seq p"
  shows "world_ok (w\<lparr>wd_state := push_publish seq (len64 p) (wd_state w), wd_pushes := without (wd_pushes w) i,
    wd_accepted := wd_accepted w @ [(seq, p)]\<rparr>)" (is "world_ok ?w")
proof -
  have q: "push_ok w (Renamed seq p)" using ok i nth_mem[OF i(1)] by (simp add: world_ok_def pushes_ok_def)
  then have p: "unat (len64 p) = length p" by (simp add: push_ok_def unat_len64)
  have n: "RBT.lookup (ss_pending (wd_state w)) seq = None" using q by (simp add: push_ok_def)
  have "pushes_ok ?w" by (rule ok_without[OF ok i(1)]) (auto simp: push_ok_def i(2) split: push.splits)
  moreover have "books_ok ?w"
    using ok p i(2) in_flight_without[OF i(1)] weight_insert[OF n] by (simp add: world_ok_def books_ok_def)
  moreover have "files_ok ?w" "drain_ok ?w"
    using ok q n by (auto simp: world_ok_def files_ok_def drain_ok_def push_ok_def)
  moreover have "promises_ok ?w" using ok q n by (fastforce simp: world_ok_def promises_ok_def push_ok_def)
  ultimately show ?thesis by (simp add: world_ok_def)
qed

lemma ok_deliver:
  assumes ok: "world_ok w" and d: "wd_draining w = Some (seq, len)" and b: "wd_disk w (otlp_name seq) = Some b"
    and disk': "disk' = (wd_disk w)(otlp_name seq := None) \<or> disk' = wd_disk w"
  shows "world_ok (w\<lparr>wd_state := drain_remove seq len (wd_state w), wd_disk := disk', wd_draining := None,
    wd_delivered := wd_delivered w @ [(seq, b)]\<rparr>)" (is "world_ok ?w")
proof -
  have l: "RBT.lookup (ss_pending (wd_state w)) seq = Some len" using ok d by (simp add: world_ok_def drain_ok_def)
  note D = drain_remove_fields[OF l]
  have "push_seq x \<noteq> seq" if "x \<in> set (wd_pushes w)" for x
    using ok that l by (auto simp: world_ok_def pushes_ok_def push_ok_def)
  then have "pushes_ok ?w"
    using ok disk' by (fastforce simp: world_ok_def pushes_ok_def push_ok_def D split: push.splits)
  moreover have "books_ok ?w"
    using ok weight_delete[OF l] by (simp add: world_ok_def books_ok_def D)
  moreover have "files_ok ?w" using ok disk' by (auto simp: world_ok_def files_ok_def D split: if_splits)
  moreover have "promises_ok ?w" using ok disk' b by (fastforce simp: world_ok_def promises_ok_def D)
  ultimately show ?thesis by (simp add: world_ok_def drain_ok_def)
qed

lemma swept_tmp: "removed \<subseteq> set (swept names) \<Longrightarrow> otlp_name s \<notin> removed"
  using otlp_not_tmp[of s] by (auto simp: swept_def)

lemma ok_opened:
  assumes s: "spool_open (disk_len disk) names = Inr s'" "distinct names" "set names = dom disk"
    and top: "\<forall>x. disk (otlp_name x) \<noteq> None \<longrightarrow> x < - 1" and small: "weight (ss_pending s') < 2 ^ 63"
    and removed: "removed \<subseteq> set (swept names)"
    and w: "wd_state w = s'" "wd_disk w = disk |` (- removed)" "wd_pushes w = []" "wd_draining w = None"
    and acc: "\<forall>seq p. (seq, p) \<in> set (wd_accepted w) \<longrightarrow> (seq, p) \<in> set (wd_delivered w) \<or> disk (otlp_name seq) = Some p"
  shows "world_ok w"
proof -
  note O = spool_open_result[OF s]
  have d: "(disk |` (- removed)) (otlp_name x) = disk (otlp_name x)" for x
    using swept_tmp[OF removed, of x] by (simp add: restrict_map_def)
  have "files_ok w" using O(1) O(3)[OF top] by (auto simp: files_ok_def w d)
  moreover have "books_ok w"
    using O(2) small by (simp add: books_ok_def w in_flight_def unat_of_nat take_bit_nat_eq_self)
  moreover have "promises_ok w" using acc O(1) by (auto simp: promises_ok_def w d)
  ultimately show ?thesis by (simp add: world_ok_def pushes_ok_def drain_ok_def w)
qed

lemma ok_file_step:
  assumes "file_step client endpoint w w'" "world_ok w"
  shows "world_ok w'"
  using assms(1)
proof cases
  case fl_write
  with ok_write[OF assms(2)] show ?thesis by simp
next
  case fl_rename
  with ok_rename[OF assms(2)] show ?thesis by blast
next
  case (fl_pick seq len)
  from pending.first_Some[OF this(3)[unfolded drain_pick_def]]
  have "RBT.lookup (ss_pending (wd_state w)) seq = Some len" ..
  with fl_pick assms(2) show ?thesis by (auto simp: world_ok_def world_defs push_ok_def split: push.splits)
next
  case fl_retry
  with assms(2) show ?thesis by (auto simp: world_ok_def world_defs push_ok_def split: push.splits)
next
  case fl_deliver
  with ok_deliver[OF assms(2)] show ?thesis by blast
qed

lemma ok_reopened:
  assumes "reopened w w'" "world_ok w"
  shows "world_ok w'"
proof -
  have "\<forall>seq p. (seq, p) \<in> set (wd_accepted w) \<longrightarrow> (seq, p) \<in> set (wd_delivered w) \<or> wd_disk w (otlp_name seq) = Some p"
    using assms(2) by (auto simp: world_ok_def promises_ok_def)
  moreover have "\<forall>seq. wd_disk w (otlp_name seq) \<noteq> None \<longrightarrow> seq < - 1"
    using assms(2) by (auto simp: world_ok_def files_ok_def dest: order_less_le_trans[OF _ word_order.extremum])
  moreover obtain names s' removed where "distinct names" "set names = dom (wd_disk w)" "spool_open (disk_len (wd_disk w)) names = Inr s'"
    "removed \<subseteq> set (swept names)" "weight (ss_pending s') < 2 ^ 63"
    "w' = w\<lparr>wd_state := s', wd_disk := (wd_disk w) |` (- removed), wd_pushes := [], wd_draining := None\<rparr>"
    using assms(1) unfolding reopened_def by blast
  ultimately show ?thesis by (intro ok_opened[of "wd_disk w" names s' removed]) simp_all
qed

lemma step_ok:
  assumes "spool_step max_bytes client endpoint w w'" "world_ok w" "unat max_bytes < 2 ^ 63"
  shows "world_ok w'"
  using assms(1)
proof cases
  case st_reserve
  with ok_reserve[OF assms(2)] assms(3) show ?thesis by blast
next
  case st_file
  with ok_file_step assms(2) show ?thesis by blast
next
  case st_fail
  with ok_fail[OF assms(2)] show ?thesis by blast
next
  case st_publish
  with ok_publish[OF assms(2)] show ?thesis by blast
next
  case st_restart
  with ok_reopened assms(2) show ?thesis by blast
qed

section \<open>Runs\<close>

inductive spool_reach :: "u64 \<Rightarrow> http_client \<Rightarrow> u8 list \<Rightarrow> world \<Rightarrow> bool"
  for max_bytes client endpoint where
  sr_open: "spool_open (disk_len disk) names = Inr s \<Longrightarrow> distinct names \<Longrightarrow> set names = dom disk \<Longrightarrow>
    \<forall>x. disk (otlp_name x) \<noteq> None \<longrightarrow> x < - 1 \<Longrightarrow> weight (ss_pending s) < 2 ^ 63 \<Longrightarrow> removed \<subseteq> set (swept names) \<Longrightarrow>
    spool_reach max_bytes client endpoint
      \<lparr>wd_state = s, wd_disk = disk |` (- removed), wd_pushes = [], wd_draining = None, wd_accepted = [], wd_delivered = []\<rparr>"
| sr_step: "spool_reach max_bytes client endpoint w \<Longrightarrow> spool_step max_bytes client endpoint w w' \<Longrightarrow>
    spool_reach max_bytes client endpoint w'"

lemma reach_ok:
  assumes "spool_reach max_bytes client endpoint w" "unat max_bytes < 2 ^ 63"
  shows "world_ok w"
  using assms(1)
proof induction
  case (sr_open disk names s removed)
  then show ?case by (intro ok_opened[of disk names s removed]) simp_all
next
  case (sr_step w w')
  with step_ok assms(2) show ?case by blast
qed

lemma file_step_delivered:
  "file_step client endpoint w w' \<Longrightarrow> x \<in> set (wd_delivered w') \<Longrightarrow>
    x \<in> set (wd_delivered w) \<or> forward client endpoint (passthrough (snd x)) = Ok ()"
  by (induction rule: file_step.induct) auto

lemma reach_delivered:
  assumes "spool_reach max_bytes client endpoint w" "(seq, b) \<in> set (wd_delivered w)"
  shows "forward client endpoint (passthrough b) = Ok ()"
  using assms
proof (induction arbitrary: seq b)
  case (sr_step w w')
  from sr_step.hyps(2) have "set (wd_delivered w') \<subseteq> set (wd_delivered w) \<union> {(q, x). forward client endpoint (passthrough x) = Ok ()}"
    by cases (auto simp: reopened_def dest: file_step_delivered)
  with sr_step.IH sr_step.prems show ?case by blast
qed simp

text \<open>
  C5: An accepted payload is never lost: at every moment of every run, with pushes, drains, failures
  of file operations, crashes and restarts in any order, a payload whose push returned its number
  has been delivered, the destination having answered it with success, or is on disk unchanged under
  that number and pending.
\<close>

theorem accepted_never_lost:
  assumes "spool_reach max_bytes client endpoint w" "unat max_bytes < 2 ^ 63" "(seq, p) \<in> set (wd_accepted w)"
  shows "((seq, p) \<in> set (wd_delivered w) \<and> forward client endpoint (passthrough p) = Ok ()) \<or>
    (wd_disk w (otlp_name seq) = Some p \<and> RBT.lookup (ss_pending (wd_state w)) seq = Some (len64 p))"
  using reach_ok[OF assms(1,2)] assms(3) reach_delivered[OF assms(1), of seq p]
  by (fastforce simp: world_ok_def promises_ok_def files_ok_def)

text \<open>
  C25: The books of the spool are exact: in every reachable world the bytes it counts are those of
  the pending files and of the pushes in progress, and a push that would exceed the limit is
  refused, with the state untouched, while one that is let in keeps the count within it.
\<close>

theorem spool_accounting:
  assumes "spool_reach max_bytes client endpoint w" "unat max_bytes < 2 ^ 63" "length p < 2 ^ 63"
  shows "unat (ss_total_bytes (wd_state w)) = weight (ss_pending (wd_state w)) + in_flight (wd_pushes w) \<and>
    (if unat max_bytes < weight (ss_pending (wd_state w)) + in_flight (wd_pushes w) + length p
     then push_reserve max_bytes (len64 p) (wd_state w) = Inl (Full (ss_total_bytes (wd_state w)) max_bytes)
     else \<exists>s'. push_reserve max_bytes (len64 p) (wd_state w) = Inr (ss_next_seq (wd_state w), s') \<and>
       unat (ss_total_bytes s') \<le> unat max_bytes)"
proof -
  have b: "unat (ss_total_bytes (wd_state w)) = weight (ss_pending (wd_state w)) + in_flight (wd_pushes w)"
    "unat (ss_total_bytes (wd_state w)) < 2 ^ 63"
    using reach_ok[OF assms(1,2)] by (simp_all add: world_ok_def books_ok_def)
  have "unat (ss_total_bytes (wd_state w) + len64 p) = unat (ss_total_bytes (wd_state w)) + length p"
    using b(2) assms(3) unat_len64[OF assms(3)] by (simp add: unat_add_lem[THEN iffD1])
  with b(1) show ?thesis by (auto simp: push_reserve_def word_less_nat_alt)
qed

section \<open>Draining the backlog\<close>

definition backlog :: "world \<Rightarrow> (u64 \<times> u8 list) list" where
  "backlog w = map (\<lambda>(seq, len). (seq, the (wd_disk w (otlp_name seq)))) (RBT.entries (ss_pending (wd_state w)))"

lemma entries_delete_first:
  assumes "RBT.entries t = (k, v) # es"
  shows "RBT.entries (RBT.delete k t) = es"
proof -
  note ds = distinct_entries[of t] sorted_entries[of t] distinct_entries[of "RBT.delete k t"] sorted_entries[of "RBT.delete k t"]
  have "map_of es = (map_of (RBT.entries t))(k := None)"
    using ds(1) assms by (auto simp: fun_eq_iff map_of_eq_None_iff)
  then have "map_of (RBT.entries (RBT.delete k t)) = map_of es" by simp
  then have e: "set (RBT.entries (RBT.delete k t)) = set es"
    using ds assms by (subst (asm) map_of_inject_set) simp_all
  have i: "inj_on fst (set es)" using ds(1) assms by (simp add: distinct_map)
  show ?thesis
    by (rule map_sorted_distinct_set_unique[of fst]) (use ds i e assms in simp_all)
qed

lemma drain_one:
  assumes ok: "world_ok w" and d: "wd_draining w = None" and e: "RBT.entries (ss_pending (wd_state w)) = (seq, len) # es"
    and up: "forward client endpoint (passthrough (the (wd_disk w (otlp_name seq)))) = Ok ()"
  shows "\<exists>w'. (spool_step max_bytes client endpoint)\<^sup>*\<^sup>* w w' \<and> RBT.entries (ss_pending (wd_state w')) = es \<and>
    wd_disk w' = (wd_disk w)(otlp_name seq := None) \<and> wd_draining w' = None \<and>
    wd_delivered w' = wd_delivered w @ [(seq, the (wd_disk w (otlp_name seq)))] \<and> wd_accepted w' = wd_accepted w"
proof -
  have p: "drain_pick (wd_state w) = Some (seq, len)" using e by (simp add: drain_pick_def bmap_first_def)
  with pending.first_Some have l: "RBT.lookup (ss_pending (wd_state w)) seq = Some len"
    by (metis drain_pick_def)
  with ok obtain b where b: "wd_disk w (otlp_name seq) = Some b"
    by (fastforce simp: world_ok_def files_ok_def)
  let ?p = "w\<lparr>wd_draining := Some (seq, len)\<rparr>"
  let ?w = "?p\<lparr>wd_state := drain_remove seq len (wd_state w), wd_disk := (wd_disk w)(otlp_name seq := None),
    wd_draining := None, wd_delivered := wd_delivered w @ [(seq, b)]\<rparr>"
  have "spool_step max_bytes client endpoint w ?p" using d p by (rule st_pick)
  moreover have "spool_step max_bytes client endpoint ?p ?w"
    using st_deliver[of ?p seq len b client endpoint "(wd_disk w)(otlp_name seq := None)" max_bytes] b up by simp
  ultimately have "(spool_step max_bytes client endpoint)\<^sup>*\<^sup>* w ?w" by (meson r_into_rtranclp rtranclp.rtrancl_into_rtrancl)
  moreover have "RBT.entries (ss_pending (wd_state ?w)) = es"
    using drain_remove_fields(2)[OF l] entries_delete_first[OF e] by simp
  ultimately show ?thesis using b by (intro exI[of _ ?w]) simp
qed

lemma steps_ok:
  "(spool_step max_bytes client endpoint)\<^sup>*\<^sup>* w w' \<Longrightarrow> world_ok w \<Longrightarrow> unat max_bytes < 2 ^ 63 \<Longrightarrow> world_ok w'"
  by (induction rule: rtranclp_induct) (auto intro: step_ok)

lemma drain_all:
  assumes "unat max_bytes < 2 ^ 63" "world_ok w" "wd_draining w = None" "RBT.entries (ss_pending (wd_state w)) = es"
    and "\<forall>(seq, b) \<in> set (backlog w). forward client endpoint (passthrough b) = Ok ()"
  shows "\<exists>w'. (spool_step max_bytes client endpoint)\<^sup>*\<^sup>* w w' \<and> RBT.entries (ss_pending (wd_state w')) = [] \<and>
    wd_delivered w' = wd_delivered w @ backlog w \<and> wd_accepted w' = wd_accepted w"
  using assms(2-)
proof (induction es arbitrary: w)
  case Nil
  then show ?case by (intro exI[of _ w]) (simp add: backlog_def)
next
  case (Cons e es)
  obtain seq len where e: "e = (seq, len)" by force
  let ?b = "the (wd_disk w (otlp_name seq))"
  have "forward client endpoint (passthrough ?b) = Ok ()" using Cons.prems(3,4) by (simp add: e backlog_def)
  from drain_one[OF Cons.prems(1,2) _ this] Cons.prems(3) obtain w1 where
    w1: "(spool_step max_bytes client endpoint)\<^sup>*\<^sup>* w w1" "RBT.entries (ss_pending (wd_state w1)) = es"
      "wd_disk w1 = (wd_disk w)(otlp_name seq := None)" "wd_draining w1 = None"
      "wd_delivered w1 = wd_delivered w @ [(seq, ?b)]" "wd_accepted w1 = wd_accepted w"
    unfolding e by blast
  have "distinct (map fst (e # es))" using distinct_entries Cons.prems(3) by metis
  then have "backlog w = (seq, ?b) # backlog w1"
    using w1(2,3) Cons.prems(3) by (force simp: backlog_def e)
  moreover have "world_ok w1" by (rule steps_ok[OF w1(1) Cons.prems(1) assms(1)])
  ultimately show ?case
    using Cons.IH[OF _ w1(4,2)] Cons.prems(4) w1(1,5,6) by (auto intro: rtranclp_trans)
qed

text \<open>
  C26: The backlog reaches the destination in order: from any reachable world with no drain in
  progress there is a run that delivers every pending payload, oldest first and unchanged, and leaves
  the spool empty, provided the destination answers them with success.
\<close>

theorem backlog_delivered:
  assumes "spool_reach max_bytes client endpoint w" "unat max_bytes < 2 ^ 63" "wd_draining w = None"
    and "\<forall>(seq, b) \<in> set (backlog w). forward client endpoint (passthrough b) = Ok ()"
  shows "sorted (map fst (backlog w)) \<and> distinct (map fst (backlog w)) \<and>
    (\<exists>w'. (spool_step max_bytes client endpoint)\<^sup>*\<^sup>* w w' \<and> RBT.entries (ss_pending (wd_state w')) = [] \<and>
       wd_delivered w' = wd_delivered w @ backlog w \<and> wd_accepted w' = wd_accepted w)"
proof -
  have "map fst (backlog w) = map fst (RBT.entries (ss_pending (wd_state w)))" by (auto simp: backlog_def)
  with drain_all[OF assms(2) reach_ok[OF assms(1,2)] assms(3) refl assms(4)] show ?thesis
    by (simp add: sorted_entries distinct_entries)
qed

section \<open>The operations as a whole\<close>

text \<open>
  \<^verbatim>\<open>push\<close> and \<^verbatim>\<open>drain_once\<close> from one end to the other.  What the file operations of a push come to, and
  what reading the file gives, are arguments.
\<close>

definition spool_push ::
  "u64 \<Rightarrow> (u64 \<Rightarrow> u8 list \<Rightarrow> u8 list + unit) \<Rightarrow> u8 list \<Rightarrow> spool_state \<Rightarrow> (spool_error + u64) \<times> spool_state" where
  "spool_push max_bytes publish_file raw s =
     (case push_reserve max_bytes (len64 raw) s of
        Inl e \<Rightarrow> (Inl e, s)
      | Inr (seq, s') \<Rightarrow>
          (case publish_file seq raw of
             Inr u \<Rightarrow> (Inr seq, push_publish seq (len64 raw) s')
           | Inl e \<Rightarrow> (Inl (SpoolIo e), push_rollback (len64 raw) s')))"

definition drain_once ::
  "http_client \<Rightarrow> u8 list \<Rightarrow> (u8 list \<Rightarrow> u8 list option) \<Rightarrow> spool_state \<Rightarrow> drain_outcome \<times> spool_state" where
  "drain_once client endpoint read s =
     (case drain_pick s of
        None \<Rightarrow> (Idle, s)
      | Some (seq, len) \<Rightarrow>
          (case read (otlp_name seq) of
             None \<Rightarrow> (Retry, s)
           | Some b \<Rightarrow>
               (case forward client endpoint (passthrough b) of
                  Ok u \<Rightarrow> (Delivered, drain_remove seq len s)
                | e \<Rightarrow> (Retry, s))))"

lemma spool_push_steps:
  assumes "spool_push max_bytes publish_file p (wd_state w) = (Inr seq, s')" "length p < 2 ^ 63"
    and "ss_next_seq (wd_state w) < - 1"
  shows "(spool_step max_bytes client endpoint)\<^sup>*\<^sup>* w
    (w\<lparr>wd_state := s', wd_disk := (wd_disk w)(tmp_name seq := None, otlp_name seq \<mapsto> p), wd_accepted := wd_accepted w @ [(seq, p)]\<rparr>)"
proof -
  let ?step = "spool_step max_bytes client endpoint"
  from assms(1) obtain s1 where r: "push_reserve max_bytes (len64 p) (wd_state w) = Inr (seq, s1)"
    and s': "s' = push_publish seq (len64 p) s1"
    by (auto simp: spool_push_def split: sum.splits)
  let ?w1 = "w\<lparr>wd_state := s1, wd_pushes := wd_pushes w @ [Writing seq p]\<rparr>"
  let ?w2 = "?w1\<lparr>wd_disk := (wd_disk w)(tmp_name seq \<mapsto> p)\<rparr>"
  let ?w3 = "?w2\<lparr>wd_disk := (wd_disk w)(tmp_name seq := None, otlp_name seq \<mapsto> p), wd_pushes := wd_pushes w @ [Renamed seq p]\<rparr>"
  let ?w4 = "?w3\<lparr>wd_state := s', wd_pushes := wd_pushes w, wd_accepted := wd_accepted w @ [(seq, p)]\<rparr>"
  have 1: "?step w ?w1" using r assms(2,3) by (rule st_reserve)
  have 2: "?step ?w1 ?w2" using st_write[of seq p ?w1 max_bytes client endpoint p] by simp
  have 3: "?step ?w2 ?w3" using st_rename[of "length (wd_pushes w)" ?w2 seq p max_bytes client endpoint] by simp
  have 4: "?step ?w3 ?w4"
    using st_publish[of "length (wd_pushes w)" ?w3 seq p max_bytes client endpoint] by (simp add: without_def s')
  have "?step\<^sup>*\<^sup>* w ?w4"
    using 1 2 3 4 by (meson rtranclp.rtrancl_into_rtrancl rtranclp.rtrancl_refl)
  moreover have "?w4 = w\<lparr>wd_state := s', wd_disk := (wd_disk w)(tmp_name seq := None, otlp_name seq \<mapsto> p),
      wd_accepted := wd_accepted w @ [(seq, p)]\<rparr>"
    by (cases w) simp
  ultimately show ?thesis by metis
qed

section \<open>A run\<close>

text \<open>An empty directory is opened and one payload of one byte is pushed.\<close>

definition up :: http_client where "up = (\<lambda>request. Replied 200)"

definition empty_spool :: spool_state where
  "empty_spool = \<lparr>ss_next_seq = 0, ss_total_bytes = 0, ss_pending = RBT.empty\<rparr>"

definition run_spool :: spool_state where
  "run_spool = \<lparr>ss_next_seq = 1, ss_total_bytes = 1, ss_pending = RBT.insert 0 1 RBT.empty\<rparr>"

definition run_world :: world where
  "run_world = \<lparr>wd_state = run_spool, wd_disk = [otlp_name 0 \<mapsto> [7]], wd_pushes = [], wd_draining = None,
     wd_accepted = [(0, [7])], wd_delivered = []\<rparr>"

lemma reach_steps:
  "(spool_step max_bytes client endpoint)\<^sup>*\<^sup>* w w' \<Longrightarrow> spool_reach max_bytes client endpoint w \<Longrightarrow> spool_reach max_bytes client endpoint w'"
  by (induction rule: rtranclp_induct) (auto intro: sr_step)

definition open_world :: world where
  "open_world = \<lparr>wd_state = empty_spool, wd_disk = Map.empty, wd_pushes = [], wd_draining = None, wd_accepted = [], wd_delivered = []\<rparr>"

lemma open_reach: "spool_reach max_bytes client endpoint open_world"
  using sr_open[of Map.empty "[]" empty_spool "{}" max_bytes client endpoint]
  by (simp add: open_world_def spool_open_def empty_spool_def weight_def swept_def)

lemma run_reach: "spool_reach 10 up (bytes ''http://d'') run_world"
proof -
  let ?w = open_world
  have "spool_push 10 (\<lambda>seq p. Inr ()) [7] (wd_state ?w) = (Inr 0, run_spool)"
    by (simp add: open_world_def spool_push_def push_reserve_def push_publish_def empty_spool_def run_spool_def word_less_nat_alt)
  then have "(spool_step 10 up (bytes ''http://d''))\<^sup>*\<^sup>* ?w
      (?w\<lparr>wd_state := run_spool, wd_disk := (wd_disk ?w)(tmp_name 0 := None, otlp_name 0 \<mapsto> [7]), wd_accepted := wd_accepted ?w @ [(0, [7])]\<rparr>)"
    by (rule spool_push_steps) (simp_all add: open_world_def empty_spool_def word_gt_0)
  moreover have "?w\<lparr>wd_state := run_spool, wd_disk := (wd_disk ?w)(tmp_name 0 := None, otlp_name 0 \<mapsto> [7]), wd_accepted := wd_accepted ?w @ [(0, [7])]\<rparr>
      = run_world"
    by (simp add: run_world_def open_world_def fun_eq_iff)
  ultimately show ?thesis by (metis reach_steps open_reach)
qed

lemma run_weight: "weight (RBT.insert 0 1 RBT.empty) = 1"
  by (simp add: weight_insert, simp add: weight_def)

theorem accepted_never_lost_witness:
  "(0, [7]) \<in> set (wd_accepted run_world) \<and> wd_disk run_world (otlp_name 0) = Some [7] \<and>
    RBT.lookup (ss_pending (wd_state run_world)) 0 = Some 1"
  using accepted_never_lost[OF run_reach, of 0 "[7]"] by (simp add: run_world_def)

theorem spool_accounting_witness:
  "unat (ss_total_bytes (wd_state run_world)) = 1 \<and>
    push_reserve 10 (len64 (replicate 10 0)) (wd_state run_world) = Inl (Full 1 10)"
  using spool_accounting[OF run_reach, of "replicate 10 0"]
  by (simp add: run_world_def run_spool_def in_flight_def run_weight)

lemma run_backlog: "backlog run_world = [(0, [7])]"
proof -
  have "RBT.entries (RBT.insert 0 (1 :: u64) RBT.empty) = [(0 :: u64, 1)]" by code_simp
  then show ?thesis by (simp add: backlog_def run_world_def run_spool_def)
qed

theorem backlog_delivered_witness:
  "\<exists>w'. (spool_step 10 up (bytes ''http://d''))\<^sup>*\<^sup>* run_world w' \<and> wd_delivered w' = [(0, [7])]"
proof -
  have "\<forall>(seq, b) \<in> set (backlog run_world). forward up (bytes ''http://d'') (passthrough b) = Ok ()"
    by (simp add: run_backlog forward_def starts_with_def bytes_def up_def is_success_def word_le_nat_alt word_less_nat_alt)
  with backlog_delivered[OF run_reach] show ?thesis by (auto simp: run_backlog) (auto simp: run_world_def)
qed

end
