(* ===== verification/Server.thy ===== *)
theory Server
  imports Pipeline Metrics SpoolRun
begin

text \<open>
  The server core, \<^verbatim>\<open>src/server.rs\<close>: what one payload comes to (pipeline, metrics, forwarding and the
  spool) and the HTTP receiver.  Sockets and HTTP parsing are hyper's and tokio's; the worker pool is
  in \<^verbatim>\<open>Pool.thy\<close>, the accept loop and the shutdown are in \<^verbatim>\<open>Serve.thy\<close>.
\<close>

section \<open>One payload\<close>

datatype verdict = Accepted | Malformed | ForwardFailed

text \<open>The spool comes with its limit; \<^verbatim>\<open>client\<close> is an argument of the operations.\<close>

record ('rx, 'rs) app_state =
  as_pipeline :: "('rx, 'rs) pipeline"
  as_forward_endpoint :: "u8 list option"
  as_metrics :: metrics
  as_spool :: "(u64 \<times> spool_state) option"
  as_channel_capacity :: nat

text \<open>The sample of a request; \<^verbatim>\<open>as u64\<close> wraps around.\<close>

definition sample_of :: "stats \<Rightarrow> sample" where
  "sample_of s =
     \<lparr>sm_events_in = of_nat (ps_records_in s), sm_events_sampled_out = of_nat (ps_dropped s),
      sm_events_exported = of_nat (ps_kept s), sm_bytes_in = of_nat (ps_bytes_in s),
      sm_bytes_exported = of_nat (ps_bytes_out s), sm_redaction_count = of_nat (ps_redactions s),
      sm_failed_open = (ps_redact_bypassed s \<or> ps_assemble_bypassed s)\<rparr>"

text \<open>Forwarding, with the spool to fall back on.\<close>

definition forward_or_spool ::
  "http_client \<Rightarrow> (u64 \<Rightarrow> u8 list \<Rightarrow> u8 list + unit) \<Rightarrow> assembled_payload \<Rightarrow> ('rx, 'rs) app_state \<Rightarrow>
   ('rx, 'rs) app_state \<times> verdict" where
  "forward_or_spool client publish_file output state =
     (case as_forward_endpoint state of
        None \<Rightarrow> (state, Accepted)
      | Some endpoint \<Rightarrow>
          (case forward client endpoint output of
             Ok u \<Rightarrow> (state, Accepted)
           | err \<Rightarrow>
               (case as_spool state of
                  Some (max_bytes, spool) \<Rightarrow>
                    (case spool_push max_bytes publish_file (contiguous output) spool of
                       (Inr seq, spool') \<Rightarrow> (state\<lparr>as_spool := Some (max_bytes, spool')\<rparr>, Accepted)
                     | (Inl e, spool') \<Rightarrow> (state\<lparr>as_spool := Some (max_bytes, spool')\<rparr>, ForwardFailed))
                | None \<Rightarrow> (state, ForwardFailed))))"

text \<open>\<^verbatim>\<open>run\<close>; \<open>None\<close> is a panic of the pipeline.\<close>

definition run ::
  "('rx, 'rs) regex_lib \<Rightarrow> 'h hasher \<Rightarrow> nat \<Rightarrow> instant \<Rightarrow> http_client \<Rightarrow> (u64 \<Rightarrow> u8 list \<Rightarrow> u8 list + unit) \<Rightarrow>
   ('rx, 'rs) app_state \<Rightarrow> u8 list \<Rightarrow> (('rx, 'rs) app_state \<times> verdict) option" where
  "run lib hx received_at now client publish_file state raw =
     (case process lib hx received_at now (as_pipeline state) raw of
        None \<Rightarrow> None
      | Some (pipeline', processed) \<Rightarrow>
          (let state = state\<lparr>as_pipeline := pipeline'\<rparr> in
           if ps_parse_bypassed (pr_stats processed) then Some (state, Malformed)
           else
             (let state = state\<lparr>as_metrics := metrics_record (sample_of (pr_stats processed)) (as_metrics state)\<rparr>
              in Some (forward_or_spool client publish_file (pr_output processed) state))))"

section \<open>The HTTP receiver\<close>

record http_call =
  hc_method :: "u8 list"
  hc_path :: "u8 list"
  hc_content_type :: "u8 list option"
  hc_body :: "u8 list option"

record http_response =
  hs_status :: u16
  hs_content_type :: "u8 list"
  hs_body :: "u8 list"

definition response :: "u16 \<Rightarrow> u8 list \<Rightarrow> http_response" where
  "response status body = \<lparr>hs_status = status, hs_content_type = bytes ''application/x-protobuf'', hs_body = body\<rparr>"

definition otlp_ok :: http_response where
  "otlp_ok = response 200 []"

text \<open>
  \<^verbatim>\<open>Limited\<close>: collecting a body of at most \<open>limit\<close> bytes; \<open>None\<close> is a transfer that breaks off.
\<close>

definition collect_limited :: "nat \<Rightarrow> u8 list option \<Rightarrow> u8 list option" where
  "collect_limited limit body =
     (case body of None \<Rightarrow> None | Some b \<Rightarrow> if length b \<le> limit then Some b else None)"

text \<open>A byte literal of the source, with its line feed.\<close>

definition verdict_response :: "verdict \<Rightarrow> http_response" where
  "verdict_response v =
     (case v of
        Accepted \<Rightarrow> otlp_ok
      | Malformed \<Rightarrow> response 400 (bytes ''unparseable OTLP'' @ [10])
      | ForwardFailed \<Rightarrow> response 503 (bytes ''forward failed'' @ [10]))"

text \<open>\<^verbatim>\<open>handle\<close>, over what submitting a payload to the workers does.\<close>

definition handle :: "nat \<Rightarrow> ('s \<Rightarrow> u8 list \<Rightarrow> 's \<times> verdict) \<Rightarrow> 's \<Rightarrow> http_call \<Rightarrow> 's \<times> http_response" where
  "handle max_body submit s req =
     (if hc_method req \<noteq> bytes ''POST'' \<or> hc_path req \<noteq> bytes ''/v1/logs''
      then (s, response 404 (bytes ''not found'' @ [10]))
      else case collect_limited max_body (hc_body req) of
          None \<Rightarrow> (s, response 413 (bytes ''too large'' @ [10]))
        | Some raw \<Rightarrow> (case submit s raw of (s', v) \<Rightarrow> (s', verdict_response v)))"

section \<open>Lemmas\<close>

text \<open>What the outcome of the last step says.\<close>

lemma forward_or_spool_Accepted:
  assumes "forward_or_spool client publish_file output state = (state', Accepted)"
  obtains (validate_only) "as_forward_endpoint state = None" "state' = state"
    | (forwarded) endpoint where "as_forward_endpoint state = Some endpoint" "forward client endpoint output = Ok ()" "state' = state"
    | (spooled) endpoint max_bytes spool seq spool' where "as_forward_endpoint state = Some endpoint"
        "as_spool state = Some (max_bytes, spool)" "spool_push max_bytes publish_file (contiguous output) spool = (Inr seq, spool')"
        "state' = state\<lparr>as_spool := Some (max_bytes, spool')\<rparr>"
  using assms by (auto simp: forward_or_spool_def split: option.splits result.splits prod.splits sum.splits)

lemma forward_or_spool_frame:
  assumes "forward_or_spool client publish_file output state = (state', v)"
  shows "as_pipeline state' = as_pipeline state" "as_metrics state' = as_metrics state"
    "as_forward_endpoint state' = as_forward_endpoint state" "v \<noteq> Malformed"
  using assms by (auto simp: forward_or_spool_def split: option.splits result.splits prod.splits sum.splits)

lemma parse_bypassed_iff:
  assumes "length raw < 2 ^ 64" "process lib hx t now pl raw = Some (pl', out)"
  shows "ps_parse_bypassed (pr_stats out) \<longleftrightarrow> \<not> is_Ok (parse_export_logs_request raw [])"
proof -
  define recs where "recs = (case parse_export_logs_request raw [] of Ok rs \<Rightarrow> rs | _ \<Rightarrow> [])"
  obtain pl1 env skipped where "redact_step lib now pl (sampled_env t raw recs (verdicts_of hx (pl_policy pl) raw recs)) = (pl1, env, skipped)"
    by (metis prod.collapse)
  from process_unfold[OF assms(1) recs_def refl this] assms(2) show ?thesis
    by (auto simp: Let_def run_stats_def split: result.splits)
qed

lemma run_Some:
  assumes "length raw < 2 ^ 64" "run lib hx t now client publish_file state raw = Some (state', v)"
  obtains pl' out where "process lib hx t now (as_pipeline state) raw = Some (pl', out)"
    "if is_Ok (parse_export_logs_request raw [])
     then forward_or_spool client publish_file (pr_output out)
         (state\<lparr>as_pipeline := pl', as_metrics := metrics_record (sample_of (pr_stats out)) (as_metrics state)\<rparr>) = (state', v)
     else state' = state\<lparr>as_pipeline := pl'\<rparr> \<and> v = Malformed"
proof -
  from assms(2) obtain pl' out where P: "process lib hx t now (as_pipeline state) raw = Some (pl', out)"
    by (auto simp: run_def split: option.splits)
  with parse_bypassed_iff[OF assms(1) P] assms(2) that show thesis
    by (fastforce simp: run_def Let_def split: if_splits)
qed

lemma run_total:
  assumes "length raw < 2 ^ 64" "matches_inside lib"
  shows "\<exists>state' v. run lib hx t now client publish_file state raw = Some (state', v)"
proof -
  obtain pl' out where "process lib hx t now (as_pipeline state) raw = Some (pl', out)" by (rule process_total[OF assms])
  then show ?thesis
    by (simp add: run_def Let_def)
qed

lemma run_pipeline:
  assumes "length raw < 2 ^ 64" "run lib hx t now client publish_file state raw = Some (state', v)"
  shows "\<exists>out. process lib hx t now (as_pipeline state) raw = Some (as_pipeline state', out)"
proof -
  from run_Some[OF assms] obtain pl' out where P: "process lib hx t now (as_pipeline state) raw = Some (pl', out)"
    "if is_Ok (parse_export_logs_request raw [])
     then forward_or_spool client publish_file (pr_output out)
         (state\<lparr>as_pipeline := pl', as_metrics := metrics_record (sample_of (pr_stats out)) (as_metrics state)\<rparr>) = (state', v)
     else state' = state\<lparr>as_pipeline := pl'\<rparr> \<and> v = Malformed" .
  then have "as_pipeline state' = pl'" by (auto split: if_splits dest: forward_or_spool_frame(1))
  with P(1) show ?thesis by blast
qed

section \<open>Properties\<close>

text \<open>
  C24: Every payload gets a verdict, the regex library, the destination and the disk behaving as
  they may.  Malformed is the answer for exactly the payloads that are not OTLP, which change neither
  metrics nor spool and are not forwarded.  Every other payload is counted once, with the statistics
  of the request, and is accepted at least whenever no destination is configured or the destination
  answers it with success.
\<close>

theorem run_verdicts:
  assumes "length raw < 2 ^ 64" "matches_inside lib"
  shows "\<exists>state' v pl' out. run lib hx t now client publish_file state raw = Some (state', v) \<and>
    process lib hx t now (as_pipeline state) raw = Some (pl', out) \<and> as_pipeline state' = pl' \<and>
    (if is_Ok (parse_export_logs_request raw [])
     then v \<noteq> Malformed \<and> as_metrics state' = metrics_record (sample_of (pr_stats out)) (as_metrics state) \<and>
       (as_forward_endpoint state = None \<longrightarrow> v = Accepted \<and> as_spool state' = as_spool state) \<and>
       (\<forall>endpoint. as_forward_endpoint state = Some endpoint \<and> forward client endpoint (pr_output out) = Ok () \<longrightarrow>
          v = Accepted \<and> as_spool state' = as_spool state)
     else v = Malformed \<and> state' = state\<lparr>as_pipeline := pl'\<rparr>)"
proof -
  obtain state' v where R: "run lib hx t now client publish_file state raw = Some (state', v)"
    using run_total[OF assms] by blast
  from run_Some[OF assms(1) R] obtain pl' out where P: "process lib hx t now (as_pipeline state) raw = Some (pl', out)"
    "if is_Ok (parse_export_logs_request raw [])
     then forward_or_spool client publish_file (pr_output out)
         (state\<lparr>as_pipeline := pl', as_metrics := metrics_record (sample_of (pr_stats out)) (as_metrics state)\<rparr>) = (state', v)
     else state' = state\<lparr>as_pipeline := pl'\<rparr> \<and> v = Malformed" .
  show ?thesis
  proof (cases "is_Ok (parse_export_logs_request raw [])")
    case True
    with P(2) have F: "forward_or_spool client publish_file (pr_output out)
        (state\<lparr>as_pipeline := pl', as_metrics := metrics_record (sample_of (pr_stats out)) (as_metrics state)\<rparr>) = (state', v)"
      by simp
    have "as_forward_endpoint state = None \<Longrightarrow> v = Accepted \<and> as_spool state' = as_spool state"
      using F by (auto simp: forward_or_spool_def)
    moreover have "v = Accepted \<and> as_spool state' = as_spool state"
      if "as_forward_endpoint state = Some endpoint" "forward client endpoint (pr_output out) = Ok ()" for endpoint
      using F that by (auto simp: forward_or_spool_def)
    ultimately show ?thesis using True R P(1) forward_or_spool_frame[OF F] by auto
  next
    case False
    with P R show ?thesis by auto
  qed
qed

text \<open>
  C4: Accepted is never a false promise: when a payload is accepted and a destination is configured,
  then the destination has answered the governed output with success, or the spool is in a state that
  its steps reach and in which that very output is accepted and on disk; by
  \<open>accepted_never_lost\<close> it stays there, through crashes and restarts, until it is delivered.
\<close>

theorem accepted_means_safe:
  assumes "length raw < 2 ^ 64" "run lib hx t now client publish_file state raw = Some (state', Accepted)"
    and "as_forward_endpoint state = Some endpoint" "as_spool state = Some (max_bytes, wd_state w)"
    and "spool_reach max_bytes client endpoint w" "ss_next_seq (wd_state w) < - 1"
    and "\<forall>pl' out. process lib hx t now (as_pipeline state) raw = Some (pl', out) \<longrightarrow> length (contiguous (pr_output out)) < 2 ^ 63"
  shows "\<exists>pl' out. process lib hx t now (as_pipeline state) raw = Some (pl', out) \<and> \<not> ps_parse_bypassed (pr_stats out) \<and>
    (forward client endpoint (pr_output out) = Ok () \<or>
     (\<exists>w' seq. spool_reach max_bytes client endpoint w' \<and> as_spool state' = Some (max_bytes, wd_state w') \<and>
        (seq, contiguous (pr_output out)) \<in> set (wd_accepted w') \<and>
        wd_disk w' (otlp_name seq) = Some (contiguous (pr_output out))))"
proof -
  from run_Some[OF assms(1,2)] obtain pl' out where P: "process lib hx t now (as_pipeline state) raw = Some (pl', out)"
    "if is_Ok (parse_export_logs_request raw [])
     then forward_or_spool client publish_file (pr_output out)
         (state\<lparr>as_pipeline := pl', as_metrics := metrics_record (sample_of (pr_stats out)) (as_metrics state)\<rparr>) = (state', Accepted)
     else state' = state\<lparr>as_pipeline := pl'\<rparr> \<and> Accepted = Malformed" .
  then have ok: "is_Ok (parse_export_logs_request raw [])" by (auto split: if_splits)
  with parse_bypassed_iff[OF assms(1) P(1)] have nb: "\<not> ps_parse_bypassed (pr_stats out)" by simp
  have len: "length (contiguous (pr_output out)) < 2 ^ 63" using assms(7) P(1) by blast
  from P(2) ok have F: "forward_or_spool client publish_file (pr_output out)
         (state\<lparr>as_pipeline := pl', as_metrics := metrics_record (sample_of (pr_stats out)) (as_metrics state)\<rparr>) = (state', Accepted)"
    by simp
  have "forward client endpoint (pr_output out) = Ok () \<or>
     (\<exists>w' seq. spool_reach max_bytes client endpoint w' \<and> as_spool state' = Some (max_bytes, wd_state w') \<and>
        (seq, contiguous (pr_output out)) \<in> set (wd_accepted w') \<and> wd_disk w' (otlp_name seq) = Some (contiguous (pr_output out)))"
    using F
  proof (cases rule: forward_or_spool_Accepted)
    case (spooled e m spool seq spool')
    then have "spool_push max_bytes publish_file (contiguous (pr_output out)) (wd_state w) = (Inr seq, spool')"
      using assms(3,4) by simp
    from reach_steps[OF spool_push_steps[OF this len assms(6)] assms(5)] show ?thesis
      using spooled(2,4) assms(4) by (intro disjI2 exI[of _ "w\<lparr>wd_state := spool',
          wd_disk := (wd_disk w)(tmp_name seq := None, otlp_name seq \<mapsto> contiguous (pr_output out)),
          wd_accepted := wd_accepted w @ [(seq, contiguous (pr_output out))]\<rparr>"] exI[of _ seq]) simp
  qed (use assms(3) in simp_all)
  with P(1) nb show ?thesis by blast
qed

text \<open>
  The HTTP receiver: 404 for every other method or path and 413 for a body over the limit or broken
  off, both without a submission; otherwise the verdict of the submission decides, and the client is
  told 200, with an empty message, exactly when the payload was accepted.
\<close>

theorem handle_status:
  "hs_status (snd (handle max_body submit s req)) =
     (if hc_method req = bytes ''POST'' \<and> hc_path req = bytes ''/v1/logs''
      then (case collect_limited max_body (hc_body req) of
          Some raw \<Rightarrow> (case snd (submit s raw) of Accepted \<Rightarrow> 200 | Malformed \<Rightarrow> 400 | ForwardFailed \<Rightarrow> 503)
        | None \<Rightarrow> 413)
      else 404) \<and>
   (hs_status (snd (handle max_body submit s req)) = 200 \<longrightarrow> hs_body (snd (handle max_body submit s req)) = [] \<and>
      (\<exists>raw. hc_body req = Some raw \<and> length raw \<le> max_body \<and> snd (submit s raw) = Accepted))"
  by (auto simp: handle_def collect_limited_def verdict_response_def otlp_ok_def response_def
      split: verdict.split prod.split option.split)

section \<open>An example\<close>

text \<open>The pipeline of \<open>body_config\<close> with a destination that is down and an empty spool of 100 bytes.\<close>

definition down :: http_client where "down = (\<lambda>request. SendFailed [])"

definition spooling_state :: "(u8, u8 list) app_state" where
  "spooling_state = \<lparr>as_pipeline = body_pipeline, as_forward_endpoint = Some (bytes ''http://d''), as_metrics = metrics_new 0,
     as_spool = Some (100, wd_state open_world), as_channel_capacity = 1\<rparr>"

lemma spooling_push:
  "spool_push 100 (\<lambda>seq p. Inr ()) leak_request (wd_state open_world) =
     (Inr 0, \<lparr>ss_next_seq = 1, ss_total_bytes = 12, ss_pending = RBT.insert 0 12 RBT.empty\<rparr>)"
  by (simp add: spool_push_def push_reserve_def push_publish_def open_world_def empty_spool_def leak_request_def word_less_nat_alt)

lemma spooling_run:
  obtains pl' where "process byte_lib hx 0 0 body_pipeline leak_request = Some (pl', leak_out)"
    "\<exists>state'. run byte_lib hx 0 0 down (\<lambda>seq p. Inr ()) spooling_state leak_request = Some (state', Accepted) \<and>
       as_spool state' = Some (100, \<lparr>ss_next_seq = 1, ss_total_bytes = 12, ss_pending = RBT.insert 0 12 RBT.empty\<rparr>)"
proof -
  obtain pl' where P: "process byte_lib hx 0 0 body_pipeline leak_request = Some (pl', leak_out)" using leak_process by blast
  have o: "contiguous (pr_output leak_out) = leak_request" "\<not> ps_parse_bypassed (pr_stats leak_out)"
    by (simp_all add: leak_out_def run_stats_def)
  have "forward down (bytes ''http://d'') p = Err (SendError [])" for p
    by (simp add: forward_def starts_with_def bytes_def down_def)
  then have "\<exists>state'. run byte_lib hx 0 0 down (\<lambda>seq p. Inr ()) spooling_state leak_request = Some (state', Accepted) \<and>
       as_spool state' = Some (100, \<lparr>ss_next_seq = 1, ss_total_bytes = 12, ss_pending = RBT.insert 0 12 RBT.empty\<rparr>)"
    using P o spooling_push by (simp add: run_def spooling_state_def forward_or_spool_def Let_def)
  with P that show thesis by blast
qed

theorem run_verdicts_witness:
  "\<exists>state' v. run byte_lib poly_hasher 0 0 down (\<lambda>seq p. Inr ()) spooling_state at_request = Some (state', v) \<and> v \<noteq> Malformed"
  using run_verdicts[OF request_lengths(1) byte_lib_inside, of poly_hasher 0 0 down "\<lambda>seq p. Inr ()" spooling_state]
  by (auto simp: parse_examples)

theorem accepted_means_safe_witness:
  "\<exists>w' seq. spool_reach 100 down (bytes ''http://d'') w' \<and> (seq, leak_request) \<in> set (wd_accepted w') \<and>
     wd_disk w' (otlp_name seq) = Some leak_request"
proof -
  obtain pl' state' where P: "process byte_lib poly_hasher 0 0 body_pipeline leak_request = Some (pl', leak_out)"
    and R: "run byte_lib poly_hasher 0 0 down (\<lambda>seq p. Inr ()) spooling_state leak_request = Some (state', Accepted)"
    using spooling_run[of poly_hasher] by blast
  have s: "as_forward_endpoint spooling_state = Some (bytes ''http://d'')" "as_spool spooling_state = Some (100, wd_state open_world)"
    "as_pipeline spooling_state = body_pipeline"
    by (simp_all add: spooling_state_def)
  have o: "contiguous (pr_output leak_out) = leak_request" "length leak_request < 2 ^ 63"
    by (simp_all add: leak_out_def leak_request_def)
  have f: "forward down (bytes ''http://d'') p \<noteq> Ok ()" for p
    by (simp add: forward_def starts_with_def bytes_def down_def)
  have n: "ss_next_seq (wd_state open_world) < - 1" by (simp add: open_world_def empty_spool_def word_gt_0)
  from accepted_means_safe[OF request_lengths(2) R s(1,2) open_reach n] P o f show ?thesis
    by (simp add: s(3)) blast
qed

end
