(* ===== verification/Pool.thy ===== *)
theory Pool
  imports Server "HOL-Library.Multiset"
begin

text \<open>
  The worker pool of \<^verbatim>\<open>src/server.rs\<close>: the bounded queue between the receivers and the workers, the
  workers, and the one-shot replies, as a step relation over every interleaving.

  The run of a job is one step; the interleaving of its accesses to the spool and to the metrics is
  the subject of \<^verbatim>\<open>Workers.thy\<close>, \<^verbatim>\<open>SpoolRun.thy\<close> and \<^verbatim>\<open>Metrics.thy\<close>.  A panic in a run ends its worker task and drops the
  sender of the reply.  The sender side of the queue stays open here, as \<^verbatim>\<open>serve\<close> holds it;
  how it closes is in \<^verbatim>\<open>Serve.thy\<close>.
\<close>

section \<open>The pool\<close>

definition worker_count :: "nat option \<Rightarrow> nat" where
  "worker_count available_parallelism = (case available_parallelism of Some n \<Rightarrow> n | None \<Rightarrow> 4)"

text \<open>A job: the number of its reply channel and the payload.\<close>

type_synonym job = "nat \<times> u8 list"

datatype worker = Waiting | Busy job | Gone

record ('rx, 'rs) pool =
  pq_app :: "('rx, 'rs) app_state"
  pq_queue :: "job list"
  pq_workers :: "worker list"
  pq_sent :: "job list"
  pq_replies :: "(job \<times> verdict) list"

definition spawn_pool :: "('rx, 'rs) app_state \<Rightarrow> nat \<Rightarrow> ('rx, 'rs) pool" where
  "spawn_pool app workers =
     \<lparr>pq_app = app, pq_queue = [], pq_workers = replicate (max workers 1) Waiting, pq_sent = [], pq_replies = []\<rparr>"

definition queue_bound :: "('rx, 'rs) pool \<Rightarrow> nat" where
  "queue_bound p = max (as_channel_capacity (pq_app p)) 1"

text \<open>
  The two sides of the queue.  A send waits for room and fails when every worker is gone; then
  \<^verbatim>\<open>submit\<close> answers \<open>ForwardFailed\<close>, as it does when the sender of the reply is dropped.
\<close>

inductive submit_step :: "('rx, 'rs) pool \<Rightarrow> ('rx, 'rs) pool \<Rightarrow> bool" where
  su_send: "length (pq_queue p) < queue_bound p \<Longrightarrow> \<exists>w \<in> set (pq_workers p). w \<noteq> Gone \<Longrightarrow> length raw < 2 ^ 64 \<Longrightarrow>
    submit_step p (p\<lparr>pq_queue := pq_queue p @ [(length (pq_sent p), raw)], pq_sent := pq_sent p @ [(length (pq_sent p), raw)]\<rparr>)"
| su_closed: "\<forall>w \<in> set (pq_workers p). w = Gone \<Longrightarrow> length raw < 2 ^ 64 \<Longrightarrow>
    submit_step p (p\<lparr>pq_sent := pq_sent p @ [(length (pq_sent p), raw)],
      pq_replies := pq_replies p @ [((length (pq_sent p), raw), ForwardFailed)]\<rparr>)"

inductive work_step :: "('rx, 'rs) regex_lib \<Rightarrow> 'h hasher \<Rightarrow> ('rx, 'rs) pool \<Rightarrow> ('rx, 'rs) pool \<Rightarrow> bool"
  for lib hx where
  wk_recv: "pq_queue p = j # js \<Longrightarrow> i < length (pq_workers p) \<Longrightarrow> pq_workers p ! i = Waiting \<Longrightarrow>
    work_step lib hx p (p\<lparr>pq_queue := js, pq_workers := (pq_workers p)[i := Busy j]\<rparr>)"
| wk_respond: "i < length (pq_workers p) \<Longrightarrow> pq_workers p ! i = Busy j \<Longrightarrow>
    run lib hx t now client publish_file (pq_app p) (snd j) = Some (app', v) \<Longrightarrow>
    work_step lib hx p (p\<lparr>pq_app := app', pq_workers := (pq_workers p)[i := Waiting], pq_replies := pq_replies p @ [(j, v)]\<rparr>)"
| wk_panic: "i < length (pq_workers p) \<Longrightarrow> pq_workers p ! i = Busy j \<Longrightarrow>
    run lib hx t now client publish_file (pq_app p) (snd j) = None \<Longrightarrow>
    work_step lib hx p (p\<lparr>pq_workers := (pq_workers p)[i := Gone], pq_replies := pq_replies p @ [(j, ForwardFailed)]\<rparr>)"

inductive pool_reach :: "('rx, 'rs) regex_lib \<Rightarrow> 'h hasher \<Rightarrow> ('rx, 'rs) pool \<Rightarrow> bool"
  for lib hx where
  pr_spawn: "pool_reach lib hx (spawn_pool app workers)"
| pr_submit: "pool_reach lib hx p \<Longrightarrow> submit_step p p' \<Longrightarrow> pool_reach lib hx p'"
| pr_work: "pool_reach lib hx p \<Longrightarrow> work_step lib hx p p' \<Longrightarrow> pool_reach lib hx p'"

section \<open>Invariants\<close>

primrec jobs_of :: "worker \<Rightarrow> job multiset" where
  "jobs_of Waiting = {#}"
| "jobs_of (Busy j) = {#j#}"
| "jobs_of Gone = {#}"

definition in_work :: "worker list \<Rightarrow> job multiset" where
  "in_work ws = \<Sum>\<^sub># (mset (map jobs_of ws))"

definition earned :: "('rx, 'rs) regex_lib \<Rightarrow> 'h hasher \<Rightarrow> job \<Rightarrow> verdict \<Rightarrow> bool" where
  "earned lib hx j v \<longleftrightarrow> v = ForwardFailed \<or>
     (\<exists>t now client publish_file app app'. run lib hx t now client publish_file app (snd j) = Some (app', v))"

definition pool_inv :: "('rx, 'rs) regex_lib \<Rightarrow> 'h hasher \<Rightarrow> ('rx, 'rs) pool \<Rightarrow> bool" where
  "pool_inv lib hx p \<longleftrightarrow>
     mset (pq_sent p) = mset (pq_queue p) + in_work (pq_workers p) + mset (map fst (pq_replies p)) \<and>
     map fst (pq_sent p) = [0..<length (pq_sent p)] \<and> (\<forall>j \<in> set (pq_sent p). length (snd j) < 2 ^ 64) \<and>
     length (pq_queue p) \<le> queue_bound p \<and> pq_workers p \<noteq> [] \<and>
     (\<forall>(j, v) \<in> set (pq_replies p). earned lib hx j v)"

lemma in_work_update:
  "i < length ws \<Longrightarrow> in_work ws + jobs_of w = in_work (ws[i := w]) + jobs_of (ws ! i)"
  by (subst (1 3) id_take_nth_drop[of i ws]) (simp_all add: in_work_def upd_conv_take_nth_drop nth_append min_def)

lemma run_capacity:
  assumes "run lib hx t now client publish_file app raw = Some (app', v)"
  shows "as_channel_capacity app' = as_channel_capacity app"
  using assms by (auto simp: run_def Let_def forward_or_spool_def split: option.splits result.splits prod.splits sum.splits if_splits)

lemma work_step_inv:
  assumes "work_step lib hx p p'" "pool_inv lib hx p"
  shows "pool_inv lib hx p'"
  using assms(1)
proof cases
  case (wk_recv j js i)
  then show ?thesis
    using assms(2) in_work_update[of i "pq_workers p" "Busy j"] by (auto simp: pool_inv_def queue_bound_def)
next
  case (wk_respond i j t now client publish_file app' v)
  then have "earned lib hx j v" by (auto simp: earned_def)
  with wk_respond show ?thesis
    using assms(2) in_work_update[of i "pq_workers p" Waiting] run_capacity[OF wk_respond(4)]
    by (auto simp: pool_inv_def queue_bound_def)
next
  case (wk_panic i j t now client publish_file)
  then show ?thesis
    using assms(2) in_work_update[of i "pq_workers p" Gone] by (auto simp: pool_inv_def queue_bound_def earned_def)
qed

lemma submit_step_inv:
  assumes "submit_step p p'" "pool_inv lib hx p"
  shows "pool_inv lib hx p'"
  using assms by cases (auto simp: pool_inv_def queue_bound_def earned_def)

lemma reach_inv: "pool_reach lib hx p \<Longrightarrow> pool_inv lib hx p"
proof (induction rule: pool_reach.induct)
  case (pr_spawn app workers)
  then show ?case by (simp add: pool_inv_def spawn_pool_def in_work_def queue_bound_def sum_mset_replicate_mset)
qed (auto intro: work_step_inv submit_step_inv)

text \<open>No run panics, so no worker is lost.\<close>

definition alive :: "('rx, 'rs) pool \<Rightarrow> bool" where
  "alive p \<longleftrightarrow> Gone \<notin> set (pq_workers p)"

lemma busy_sent:
  assumes "pool_inv lib hx p" "i < length (pq_workers p)" "pq_workers p ! i = Busy j"
  shows "length (snd j) < 2 ^ 64"
proof -
  have "j \<in># in_work (pq_workers p)"
    using assms(2,3) in_work_update[of i "pq_workers p" Waiting]
    by (metis jobs_of.simps(1,2) add.right_neutral union_iff union_single_eq_member)
  then have "j \<in># mset (pq_sent p)" using assms(1) by (auto simp: pool_inv_def)
  then show ?thesis using assms(1) by (auto simp: pool_inv_def)
qed

lemma work_step_alive:
  assumes "work_step lib hx p p'" "matches_inside lib" "pool_inv lib hx p" "alive p"
  shows "alive p'"
  using assms(1)
proof cases
  case (wk_panic i j t now client publish_file)
  have "length (snd j) < 2 ^ 64" by (rule busy_sent[OF assms(3) wk_panic(2,3)])
  with run_total[OF _ assms(2)] wk_panic(4) show ?thesis by (metis option.distinct(1))
qed (use assms(4) in \<open>auto simp: alive_def dest: set_update_subset_insert[THEN subsetD]\<close>)

lemma reach_alive:
  assumes "pool_reach lib hx p" "matches_inside lib"
  shows "alive p"
  using assms
proof induction
  case (pr_submit p p')
  from pr_submit(2) have "pq_workers p' = pq_workers p" by cases simp_all
  with pr_submit show ?case by (simp add: alive_def)
next
  case (pr_work p p')
  with work_step_alive[OF pr_work(2) assms(2) reach_inv[OF pr_work(1)]] show ?case by simp
qed (simp add: spawn_pool_def alive_def)

section \<open>Progress\<close>

definition work_left :: "('rx, 'rs) pool \<Rightarrow> nat" where
  "work_left p = 2 * length (pq_queue p) + size (in_work (pq_workers p))"

lemma work_step_measure: "work_step lib hx p p' \<Longrightarrow> work_left p' < work_left p \<and> pq_sent p' = pq_sent p"
proof (induction rule: work_step.induct)
  case (wk_recv p j js i)
  then show ?case using arg_cong[OF in_work_update[of i "pq_workers p" "Busy j"], of size] by (simp add: work_left_def)
next
  case (wk_respond i p j t now client publish_file app' v)
  then show ?case using arg_cong[OF in_work_update[of i "pq_workers p" Waiting], of size] by (simp add: work_left_def)
next
  case (wk_panic i p j t now client publish_file)
  then show ?case using arg_cong[OF in_work_update[of i "pq_workers p" Gone], of size] by (simp add: work_left_def)
qed

lemma busy_or_not: "in_work ws = {#} \<or> (\<exists>i j. i < length ws \<and> ws ! i = Busy j)"
proof (cases "\<exists>j. Busy j \<in> set ws")
  case True
  then show ?thesis by (metis in_set_conv_nth)
next
  case False
  then have "\<forall>w \<in> set ws. jobs_of w = {#}" by (metis jobs_of.simps worker.exhaust)
  then show ?thesis by (auto simp: in_work_def)
qed

lemma work_step_enabled:
  assumes "pool_inv lib hx p" "alive p" "pq_queue p \<noteq> [] \<or> in_work (pq_workers p) \<noteq> {#}"
  shows "\<exists>p'. work_step lib hx p p'"
proof (cases "\<exists>i j. i < length (pq_workers p) \<and> pq_workers p ! i = Busy j")
  case True
  then obtain i j where i: "i < length (pq_workers p)" "pq_workers p ! i = Busy j" by blast
  obtain r where r: "run lib hx 0 0 (\<lambda>r. SendFailed []) (\<lambda>seq p. Inr ()) (pq_app p) (snd j) = r" by blast
  show ?thesis
  proof (cases r)
    case None
    with r have "run lib hx 0 0 (\<lambda>r. SendFailed []) (\<lambda>seq p. Inr ()) (pq_app p) (snd j) = None" by simp
    from wk_panic[OF i this] show ?thesis by (rule exI)
  next
    case (Some x)
    with r have "run lib hx 0 0 (\<lambda>r. SendFailed []) (\<lambda>seq p. Inr ()) (pq_app p) (snd j) = Some (fst x, snd x)" by simp
    from wk_respond[OF i this] show ?thesis by (rule exI)
  qed
next
  case False
  then have "pq_queue p \<noteq> []" using busy_or_not assms(3) by blast
  then obtain j js where q: "pq_queue p = j # js" by (cases "pq_queue p") auto
  have l: "0 < length (pq_workers p)" using assms(1) by (simp add: pool_inv_def)
  with assms(2) have "pq_workers p ! 0 \<noteq> Gone" by (metis alive_def nth_mem)
  with l False have "pq_workers p ! 0 = Waiting" by (cases "pq_workers p ! 0") auto
  from wk_recv[OF q l this] show ?thesis by blast
qed

lemma work_done:
  assumes "pool_reach lib hx p" "matches_inside lib"
  shows "\<exists>p'. (work_step lib hx)\<^sup>*\<^sup>* p p' \<and> pool_reach lib hx p' \<and> pq_queue p' = [] \<and> in_work (pq_workers p') = {#} \<and> pq_sent p' = pq_sent p"
  using assms
proof (induction "work_left p" arbitrary: p rule: less_induct)
  case less
  show ?case
  proof (cases "pq_queue p \<noteq> [] \<or> in_work (pq_workers p) \<noteq> {#}")
    case True
    from work_step_enabled[OF reach_inv[OF less.prems(1)] reach_alive[OF less.prems] True]
    obtain p1 where p1: "work_step lib hx p p1" by blast
    from less.hyps[OF _ pr_work[OF less.prems(1) p1] less.prems(2)] work_step_measure[OF p1]
    obtain p' where "(work_step lib hx)\<^sup>*\<^sup>* p1 p'" "pool_reach lib hx p'" "pq_queue p' = []" "in_work (pq_workers p') = {#}"
      "pq_sent p' = pq_sent p1" by blast
    with p1 work_step_measure[OF p1] show ?thesis by (metis converse_rtranclp_into_rtranclp)
  next
    case False
    with less.prems show ?thesis by (intro exI[of _ p]) simp
  qed
qed

section \<open>Properties\<close>


text \<open>
  Every submission is answered: from any reachable pool, whatever clock, destination and disk do,
  the workers can always go on while there is work, every one of their steps makes it less, and they
  end with every submitted job answered exactly once.
\<close>

theorem pool_answers:
  assumes "pool_reach lib hx p" "matches_inside lib"
  shows "(\<forall>p'. work_step lib hx p p' \<longrightarrow> work_left p' < work_left p) \<and>
    (pq_queue p \<noteq> [] \<or> in_work (pq_workers p) \<noteq> {#} \<longrightarrow> (\<exists>p'. work_step lib hx p p')) \<and>
    (\<exists>p'. (work_step lib hx)\<^sup>*\<^sup>* p p' \<and> pq_queue p' = [] \<and> mset (map fst (pq_replies p')) = mset (pq_sent p))"
proof -
  obtain p' where p': "(work_step lib hx)\<^sup>*\<^sup>* p p'" "pool_reach lib hx p'" "pq_queue p' = []" "in_work (pq_workers p') = {#}"
    "pq_sent p' = pq_sent p" using work_done[OF assms] by blast
  then have "mset (map fst (pq_replies p')) = mset (pq_sent p)"
    using reach_inv[OF p'(2)] by (simp add: pool_inv_def)
  with p' work_step_measure work_step_enabled[OF reach_inv[OF assms(1)] reach_alive[OF assms]] show ?thesis by blast
qed

text \<open>A pool of one worker that has been handed one payload.\<close>

definition small_pool :: "(u8, u8 list) pool" where
  "small_pool = (spawn_pool spooling_state 0)\<lparr>pq_queue := [(0, [7])], pq_sent := [(0, [7])]\<rparr>"

lemma small_reach: "pool_reach byte_lib hx small_pool"
proof -
  have "submit_step (spawn_pool spooling_state 0) small_pool"
    using su_send[of "spawn_pool spooling_state 0" "[7]"]
    by (simp add: small_pool_def spawn_pool_def queue_bound_def)
  with pr_submit pr_spawn show ?thesis by blast
qed


theorem pool_answers_witness:
  "\<exists>p'. (work_step byte_lib poly_hasher)\<^sup>*\<^sup>* small_pool p' \<and> map fst (pq_replies p') = [(0, [7])]"
proof -
  have "pq_sent small_pool = [(0, [7])]" by (simp add: small_pool_def)
  with pool_answers[OF small_reach byte_lib_inside, of poly_hasher] show ?thesis
    by (metis mset_single_iff_right mset_single_iff mset.simps add_mset_eq_singleton_iff)
qed

end
