(* ===== verification/Grpc.thy ===== *)
theory Grpc
  imports Server
begin

text \<open>
  The OTLP/gRPC receiver, \<^verbatim>\<open>src/grpc.rs\<close>: the message frame, the response body with its trailers, and
  the mapping of verdicts to gRPC status codes.  HTTP/2 itself is hyper's, and the accept
  loop is in \<^verbatim>\<open>Serve.thy\<close>.
\<close>

section \<open>Responses\<close>

definition LOGS_EXPORT_PATH :: "u8 list" where
  "LOGS_EXPORT_PATH = bytes ''/opentelemetry.proto.collector.logs.v1.LogsService/Export''"

type_synonym header_map = "(u8 list \<times> u8 list) list"

record grpc_body =
  gb_data :: "u8 list option"
  gb_trailers :: "header_map option"

datatype frame = DataFrame "u8 list" | TrailersFrame header_map

definition poll_frame :: "grpc_body \<Rightarrow> frame option \<times> grpc_body" where
  "poll_frame self =
     (case gb_data self of
        Some data \<Rightarrow> (Some (DataFrame data), self\<lparr>gb_data := None\<rparr>)
      | None \<Rightarrow>
          (case gb_trailers self of
             Some trailers \<Rightarrow> (Some (TrailersFrame trailers), self\<lparr>gb_trailers := None\<rparr>)
           | None \<Rightarrow> (None, self)))"

definition status_value :: "u8 \<Rightarrow> u8 list" where
  "status_value code =
     (if code = 0 then bytes ''0'' else if code = 3 then bytes ''3'' else if code = 8 then bytes ''8''
      else if code = 12 then bytes ''12'' else if code = 14 then bytes ''14'' else bytes ''2'')"

record grpc_reply =
  gr_status :: u16
  gr_content_type :: "u8 list"
  gr_body :: grpc_body

definition grpc_response :: "u8 \<Rightarrow> bool \<Rightarrow> grpc_reply" where
  "grpc_response status_code with_message =
     \<lparr>gr_status = 200, gr_content_type = bytes ''application/grpc'',
      gr_body = \<lparr>gb_data = (if with_message then Some [0, 0, 0, 0, 0] else None),
        gb_trailers = Some [(bytes ''grpc-status'', status_value status_code)]\<rparr>\<rparr>"

section \<open>Requests\<close>

text \<open>\<^verbatim>\<open>HeaderValue::to_str\<close>: only visible characters, spaces and tabs.\<close>

definition header_to_str :: "u8 list \<Rightarrow> u8 list option" where
  "header_to_str v = (if list_all (\<lambda>b. 32 \<le> b \<and> b < 127 \<or> b = 9) v then Some v else None)"

definition content_type_ok :: "u8 list option \<Rightarrow> bool" where
  "content_type_ok h =
     (case Option.bind h header_to_str of None \<Rightarrow> False | Some s \<Rightarrow> starts_with (bytes ''application/grpc'') s)"

definition from_be_bytes :: "u8 list \<Rightarrow> nat" where
  "from_be_bytes bs = foldl (\<lambda>n b. 256 * n + unat b) 0 bs"

text \<open>The message of a frame, or the status that answers the request.\<close>

definition unframe :: "u8 list \<Rightarrow> u8 + u8 list" where
  "unframe framed =
     (if length framed < 5 then Inl 3
      else if framed ! 0 \<noteq> 0 then Inl 12
      else
        (let len = from_be_bytes (take 4 (drop 1 framed)) in
         if length framed < 5 + len then Inl 3 else Inr (take len (drop 5 framed))))"

definition grpc_verdict :: "verdict \<Rightarrow> grpc_reply" where
  "grpc_verdict v =
     (case v of
        Accepted \<Rightarrow> grpc_response 0 True
      | Malformed \<Rightarrow> grpc_response 3 False
      | ForwardFailed \<Rightarrow> grpc_response 14 False)"

text \<open>\<^verbatim>\<open>handle_grpc\<close>; the limit is a \<^verbatim>\<open>usize\<close> sum, which wraps around in a release build.\<close>

definition handle_grpc :: "nat \<Rightarrow> ('s \<Rightarrow> u8 list \<Rightarrow> 's \<times> verdict) \<Rightarrow> 's \<Rightarrow> http_call \<Rightarrow> 's \<times> grpc_reply" where
  "handle_grpc max_body submit s req =
     (if hc_method req \<noteq> bytes ''POST'' \<or> hc_path req \<noteq> LOGS_EXPORT_PATH then (s, grpc_response 12 False)
      else if \<not> content_type_ok (hc_content_type req) then (s, grpc_response 3 False)
      else case collect_limited ((max_body + 5) mod 2 ^ 64) (hc_body req) of
          None \<Rightarrow> (s, grpc_response 8 False)
        | Some framed \<Rightarrow>
            (case unframe framed of
               Inl code \<Rightarrow> (s, grpc_response code False)
             | Inr message \<Rightarrow> (case submit s message of (s', v) \<Rightarrow> (s', grpc_verdict v))))"

section \<open>Frames\<close>

text \<open>What a client sends: an uncompressed frame.\<close>

primrec be_bytes :: "nat \<Rightarrow> nat \<Rightarrow> u8 list" where
  "be_bytes 0 n = []"
| "be_bytes (Suc k) n = be_bytes k (n div 256) @ [of_nat n]"

definition grpc_frame :: "u8 list \<Rightarrow> u8 list" where
  "grpc_frame message = 0 # be_bytes 4 (length message) @ message"

lemma from_be_Nil [simp]: "from_be_bytes [] = 0"
  by (simp add: from_be_bytes_def)

lemma from_be_snoc [simp]: "from_be_bytes (bs @ [b]) = 256 * from_be_bytes bs + unat b"
  by (simp add: from_be_bytes_def)

lemma length_be_bytes [simp]: "length (be_bytes k n) = k"
  by (induction k arbitrary: n) simp_all

lemma unat_byte: "unat (of_nat n :: u8) = n mod 256"
  by (simp add: unat_of_nat take_bit_eq_mod)

lemma from_be_bytes_be: "n < 256 ^ k \<Longrightarrow> from_be_bytes (be_bytes k n) = n"
proof (induction k arbitrary: n)
  case (Suc k)
  then have "n div 256 < 256 ^ k" by (simp add: less_mult_imp_div_less mult.commute)
  with Suc.IH show ?case by (simp add: unat_byte)
qed simp

lemma from_be_less: "from_be_bytes bs < 256 ^ length bs"
proof (induction bs rule: rev_induct)
  case (snoc b bs)
  have "unat b < 256" using unsigned_less[of b, where 'a = nat] by simp
  with snoc show ?case by simp
qed simp

lemma be_bytes_from: "be_bytes (length bs) (from_be_bytes bs) = bs"
proof (induction bs rule: rev_induct)
  case (snoc b bs)
  have "unat b < 256" using unsigned_less[of b, where 'a = nat] by simp
  then have "(256 * from_be_bytes bs + unat b) div 256 = from_be_bytes bs" by simp
  moreover have "of_nat (256 * from_be_bytes bs + unat b) = b"
    by (rule word_unat_eq_iff[THEN iffD2]) (use \<open>unat b < 256\<close> in \<open>simp only: unat_byte, simp\<close>)
  ultimately show ?case using snoc by simp
qed simp

lemma unframe_frame: "length message < 2 ^ 32 \<Longrightarrow> unframe (grpc_frame message @ after) = Inr message"
  using from_be_bytes_be[of "length message" 4] by (simp add: unframe_def grpc_frame_def)

text \<open>
  The frame of a message: a frame is read back as the message, and what is read is the message of
  the frame at the front of the body, whatever comes after it.
\<close>

theorem unframe_exact:
  "unframe framed = Inr message \<longleftrightarrow> (\<exists>rest. framed = grpc_frame message @ rest) \<and> length message < 2 ^ 32"
proof
  assume "unframe framed = Inr message"
  then have l: "5 \<le> length framed" "framed ! 0 = 0" "5 + from_be_bytes (take 4 (drop 1 framed)) \<le> length framed"
    and m: "message = take (from_be_bytes (take 4 (drop 1 framed))) (drop 5 framed)"
    by (auto simp: unframe_def Let_def split: if_splits)
  let ?h = "take 4 (drop 1 framed)"
  have h: "length ?h = 4" using l(1) by simp
  have n: "length message = from_be_bytes ?h" using l(3) by (simp add: m)
  obtain r where r: "framed = 0 # r" using l(1,2) by (cases framed) simp_all
  have "r = take 4 r @ drop 4 r" by simp
  then have "framed = 0 # ?h @ drop 5 framed" by (simp add: r)
  also have "?h = be_bytes 4 (length message)" using be_bytes_from[of ?h] h n by simp
  also have "drop 5 framed = message @ drop (length message) (drop 5 framed)" unfolding n unfolding m by (rule append_take_drop_id[symmetric])
  finally have "framed = grpc_frame message @ drop (length message) (drop 5 framed)" by (simp add: grpc_frame_def)
  moreover have "length message < 2 ^ 32" using from_be_less[of ?h] h n by simp
  ultimately show "(\<exists>rest. framed = grpc_frame message @ rest) \<and> length message < 2 ^ 32" by blast
next
  assume "(\<exists>rest. framed = grpc_frame message @ rest) \<and> length message < 2 ^ 32"
  then show "unframe framed = Inr message" using unframe_frame by blast
qed

section \<open>Both receivers\<close>

text \<open>The frames of a body, polled to its end.\<close>

function body_frames :: "grpc_body \<Rightarrow> frame list" where
  "body_frames b = (case poll_frame b of (None, b') \<Rightarrow> [] | (Some f, b') \<Rightarrow> f # body_frames b')"
  by pat_completeness auto
termination
  by (relation "measure (\<lambda>b. length (filter id [gb_data b \<noteq> None, gb_trailers b \<noteq> None]))")
    (auto simp: poll_frame_def split: option.splits)

declare body_frames.simps [simp del]

lemma grpc_response_frames:
  "body_frames (gr_body (grpc_response code m)) =
     (if m then [DataFrame (grpc_frame [])] else []) @ [TrailersFrame [(bytes ''grpc-status'', status_value code)]]"
proof -
  have e: "body_frames \<lparr>gb_data = None, gb_trailers = None\<rparr> = []"
    by (subst body_frames.simps) (simp add: poll_frame_def)
  have t: "body_frames \<lparr>gb_data = None, gb_trailers = Some ts\<rparr> = [TrailersFrame ts]" for ts
    by (subst body_frames.simps) (simp add: poll_frame_def e)
  have "body_frames \<lparr>gb_data = Some d, gb_trailers = Some ts\<rparr> = [DataFrame d, TrailersFrame ts]" for d ts
    by (subst body_frames.simps) (simp add: poll_frame_def t)
  moreover have "grpc_frame [] = [0, 0, 0, 0, 0]" by code_simp
  ultimately show ?thesis by (simp add: grpc_response_def t)
qed

definition grpc_status :: "grpc_reply \<Rightarrow> u8 list" where
  "grpc_status r = (case last (body_frames (gr_body r)) of TrailersFrame ts \<Rightarrow> snd (hd ts) | DataFrame d \<Rightarrow> [])"

lemma grpc_status_response: "grpc_status (grpc_response code m) = status_value code"
  by (simp add: grpc_status_def grpc_response_frames)

text \<open>
  C28: The two transports agree: a message sent over gRPC has the effect of the same message sent over
  HTTP, with the same limit on its size, and the answers correspond: 200 to \<^verbatim>\<open>OK\<close>, 400 to
  \<^verbatim>\<open>INVALID_ARGUMENT\<close>, 413 to \<^verbatim>\<open>RESOURCE_EXHAUSTED\<close> and 503 to \<^verbatim>\<open>UNAVAILABLE\<close>; the message part of the
  answer, an empty response, is there exactly when the payload was accepted.
\<close>

theorem transports_agree:
  assumes "max_body + 5 < 2 ^ 64" "length message < 2 ^ 32"
    and "http = \<lparr>hc_method = bytes ''POST'', hc_path = bytes ''/v1/logs'', hc_content_type = ct, hc_body = Some message\<rparr>"
    and "grpc = \<lparr>hc_method = bytes ''POST'', hc_path = LOGS_EXPORT_PATH,
      hc_content_type = Some (bytes ''application/grpc''), hc_body = Some (grpc_frame message)\<rparr>"
    and "handle max_body submit s http = (s1, r1)" "handle_grpc max_body submit s grpc = (s2, r2)"
  shows "s1 = s2 \<and> gr_status r2 = 200 \<and>
    (hs_status r1, grpc_status r2) \<in>
      {(200, bytes ''0''), (400, bytes ''3''), (413, bytes ''8''), (503, bytes ''14'')} \<and>
    (DataFrame (grpc_frame []) \<in> set (body_frames (gr_body r2)) \<longleftrightarrow> hs_status r1 = 200)"
proof -
  have ct: "content_type_ok (Some (bytes ''application/grpc''))"
    by (simp add: content_type_ok_def header_to_str_def bytes_def starts_with_def word_le_nat_alt word_less_nat_alt)
  have m: "(max_body + 5) mod 2 ^ 64 = max_body + 5" using assms(1) by simp
  have c: "collect_limited (max_body + 5) (Some (grpc_frame message)) =
      (if length message \<le> max_body then Some (grpc_frame message) else None)"
    by (simp add: collect_limited_def grpc_frame_def)
  have u: "unframe (grpc_frame message) = Inr message"
    using unframe_frame[OF assms(2), of "[]"] by simp
  have G: "handle_grpc max_body submit s grpc =
      (if length message \<le> max_body then case submit s message of (s', v) \<Rightarrow> (s', grpc_verdict v) else (s, grpc_response 8 False))"
    unfolding handle_grpc_def m using ct by (simp add: assms(4) c u)
  have H: "handle max_body submit s http =
      (if length message \<le> max_body then case submit s message of (s', v) \<Rightarrow> (s', verdict_response v)
       else (s, response 413 (bytes ''too large'' @ [10])))"
    by (simp add: handle_def assms(3) collect_limited_def)
  obtain s' v where v: "submit s message = (s', v)" by fastforce
  have "gr_status (grpc_response code b) = 200" for code b by (simp add: grpc_response_def)
  with assms(5,6) show ?thesis
    unfolding G H v
    by (cases v; cases "length message \<le> max_body")
      (auto simp: verdict_response_def otlp_ok_def response_def grpc_verdict_def grpc_status_response grpc_response_frames status_value_def)
qed

theorem transports_agree_witness:
  "snd (handle 4 (\<lambda>s raw. (raw # s, Accepted)) [] \<lparr>hc_method = bytes ''POST'', hc_path = bytes ''/v1/logs'',
     hc_content_type = None, hc_body = Some [7]\<rparr>) = otlp_ok \<and>
   grpc_status (snd (handle_grpc 4 (\<lambda>s raw. (raw # s, Accepted)) [] \<lparr>hc_method = bytes ''POST'', hc_path = LOGS_EXPORT_PATH,
     hc_content_type = Some (bytes ''application/grpc''), hc_body = Some (grpc_frame [7])\<rparr>)) = bytes ''0''"
proof -
  let ?h = "\<lparr>hc_method = bytes ''POST'', hc_path = bytes ''/v1/logs'', hc_content_type = None, hc_body = Some [7]\<rparr>"
  have "handle 4 (\<lambda>s raw. (raw # s, Accepted)) [] ?h = ([[7]], otlp_ok)"
    by (simp add: handle_def collect_limited_def verdict_response_def)
  moreover obtain s2 r2 where "handle_grpc 4 (\<lambda>s raw. (raw # s, Accepted)) [] \<lparr>hc_method = bytes ''POST'', hc_path = LOGS_EXPORT_PATH,
     hc_content_type = Some (bytes ''application/grpc''), hc_body = Some (grpc_frame [7])\<rparr> = (s2, r2)" by fastforce
  ultimately show ?thesis
    using transports_agree[of 4 "[7]" ?h None _ "\<lambda>s raw. (raw # s, Accepted)" "[]" "[[7]]" otlp_ok s2 r2]
    by (simp add: otlp_ok_def response_def)
qed

end
