(* ===== verification/DrainLoop.thy ===== *)
theory DrainLoop
  imports Spool
begin

text \<open>
  The waiting times of \<^verbatim>\<open>run_drain_loop\<close>, \<^verbatim>\<open>src/spool.rs\<close>.
\<close>

section \<open>The drain loop\<close>

text \<open>Durations in milliseconds.  \<open>jitter\<close> is given the nanoseconds of the clock.\<close>

definition IDLE_POLL :: nat where "IDLE_POLL = 1000"
definition BACKOFF_BASE :: nat where "BACKOFF_BASE = 1000"
definition BACKOFF_MAX :: nat where "BACKOFF_MAX = 30000"

definition jitter :: "u32 \<Rightarrow> nat" where
  "jitter nanos = unat (nanos mod 250)"

definition drain_wait :: "drain_outcome \<Rightarrow> u32 \<Rightarrow> nat \<Rightarrow> nat \<times> nat" where
  "drain_wait outcome nanos backoff =
     (case outcome of
        Delivered \<Rightarrow> (0, BACKOFF_BASE)
      | Idle \<Rightarrow> (IDLE_POLL, backoff)
      | Retry \<Rightarrow> (backoff + jitter nanos, min (backoff * 2) BACKOFF_MAX))"

text \<open>The waits of the loop, one for each attempt until the shutdown.\<close>

primrec drain_waits :: "nat \<Rightarrow> (drain_outcome \<times> u32) list \<Rightarrow> nat list" where
  "drain_waits backoff [] = []"
| "drain_waits backoff (a # as) =
     (case drain_wait (fst a) (snd a) backoff of (wait, backoff') \<Rightarrow> wait # drain_waits backoff' as)"

definition run_drain_loop :: "(drain_outcome \<times> u32) list \<Rightarrow> nat list" where
  "run_drain_loop attempts = drain_waits BACKOFF_BASE attempts"

text \<open>The failures since the last delivery.\<close>

definition failures :: "(drain_outcome \<times> u32) list \<Rightarrow> nat" where
  "failures attempts = length (filter (\<lambda>a. fst a = Retry) (takeWhile (\<lambda>a. fst a \<noteq> Delivered) (rev attempts)))"

definition backoff_after :: "nat \<Rightarrow> nat" where
  "backoff_after n = min (1000 * 2 ^ n) 30000"

lemma failures_Nil [simp]: "failures [] = 0"
  by (simp add: failures_def)

lemma failures_snoc [simp]:
  "failures (as @ [a]) = (if fst a = Delivered then 0 else failures as + (if fst a = Retry then 1 else 0))"
  by (simp add: failures_def)

lemma backoff_after_Suc: "backoff_after (Suc n) = min (backoff_after n * 2) 30000"
  by (simp add: backoff_after_def min_def)

lemma drain_waits_append:
  "drain_waits backoff (as @ bs) = drain_waits backoff as @ drain_waits (foldl (\<lambda>k a. snd (drain_wait (fst a) (snd a) k)) backoff as) bs"
  by (induction as arbitrary: backoff) (simp_all add: case_prod_unfold)

lemma length_drain_waits [simp]: "length (drain_waits backoff as) = length as"
  by (induction as arbitrary: backoff) (simp_all add: case_prod_unfold)

lemma loop_backoff: "foldl (\<lambda>k a. snd (drain_wait (fst a) (snd a) k)) BACKOFF_BASE as = backoff_after (failures as)"
proof (induction as rule: rev_induct)
  case Nil
  show ?case by (simp add: BACKOFF_BASE_def backoff_after_def)
next
  case (snoc a as)
  then show ?case
    by (cases "fst a") (simp_all add: drain_wait_def BACKOFF_MAX_def backoff_after_Suc, simp add: BACKOFF_BASE_def backoff_after_def)
qed

lemma jitter_less: "jitter nanos < 250"
  unfolding jitter_def by (simp add: unat_mod)

text \<open>
  C30: The waits of the drain loop: none after a delivery, a second when there is nothing to drain,
  and after a failure one second doubled for every failure since the last delivery, never more than
  thirty, and less than a quarter of a second on top.
\<close>

theorem drain_loop_waits:
  assumes "i < length attempts" "attempts ! i = (outcome, nanos)"
  shows "run_drain_loop attempts ! i =
      (case outcome of
         Delivered \<Rightarrow> 0
       | Idle \<Rightarrow> 1000
       | Retry \<Rightarrow> min (1000 * 2 ^ failures (take i attempts)) 30000 + jitter nanos) \<and>
    run_drain_loop attempts ! i < 30250"
proof -
  have a: "attempts = take i attempts @ (outcome, nanos) # drop (Suc i) attempts"
    using id_take_nth_drop[OF assms(1)] assms(2) by simp
  have "drain_waits BACKOFF_BASE attempts ! i = fst (drain_wait outcome nanos (backoff_after (failures (take i attempts))))"
    by (subst a, subst drain_waits_append) (simp add: nth_append loop_backoff case_prod_unfold assms(1) less_imp_le)
  then show ?thesis
    using jitter_less[of nanos]
    by (cases outcome) (simp_all add: run_drain_loop_def drain_wait_def backoff_after_def IDLE_POLL_def)
qed

theorem drain_loop_waits_witness:
  "run_drain_loop [(Retry, 1000000249), (Idle, 0), (Retry, 7)] ! 2 = 2007"
  using drain_loop_waits[of 2 "[(Retry, 1000000249), (Idle, 0), (Retry, 7)]" Retry 7]
  by (simp add: failures_def jitter_def)

end
