(* ===== verification/Agent.thy ===== *)
theory Agent
  imports Pool Grpc DrainLoop
begin

text \<open>
  Start-up of the binary, \<^verbatim>\<open>src/main.rs\<close>: from the environment to a running agent.  What runs then is in
  \<^verbatim>\<open>Lifecycle.thy\<close>.

  Logging, the TLS provider and signals are left out.  The file system, the YAML reader, the parser of
  socket addresses and binding a port are parameters; their error values are not looked at, so they
  are units here.
\<close>

section \<open>Trimming\<close>

text \<open>\<^verbatim>\<open>str::trim\<close>: the characters with the property White\_Space, in UTF-8.\<close>

definition white_space :: "u8 list list" where
  "white_space = [[9], [10], [11], [12], [13], [32], [0xC2, 0x85], [0xC2, 0xA0], [0xE1, 0x9A, 0x80],
     [0xE2, 0x80, 0x80], [0xE2, 0x80, 0x81], [0xE2, 0x80, 0x82], [0xE2, 0x80, 0x83], [0xE2, 0x80, 0x84],
     [0xE2, 0x80, 0x85], [0xE2, 0x80, 0x86], [0xE2, 0x80, 0x87], [0xE2, 0x80, 0x88], [0xE2, 0x80, 0x89],
     [0xE2, 0x80, 0x8A], [0xE2, 0x80, 0xA8], [0xE2, 0x80, 0xA9], [0xE2, 0x80, 0xAF], [0xE2, 0x81, 0x9F],
     [0xE3, 0x80, 0x80]]"

lemma white_space_find: "find (\<lambda>w. starts_with w s) white_space = Some w \<Longrightarrow> 0 < length w \<and> length w \<le> length s"
  by (auto simp: find_Some_iff white_space_def starts_with_iff nth_Cons' split: if_splits)

function trim_start :: "u8 list \<Rightarrow> u8 list" where
  "trim_start s = (case find (\<lambda>w. starts_with w s) white_space of None \<Rightarrow> s | Some w \<Rightarrow> trim_start (drop (length w) s))"
  by pat_completeness auto
termination
  by (relation "measure length") (auto dest!: white_space_find simp: length_greater_0_conv[symmetric] simp del: length_greater_0_conv)

definition ends_in :: "u8 list \<Rightarrow> u8 list \<Rightarrow> bool" where
  "ends_in s w \<longleftrightarrow> starts_with (rev w) (rev s)"

lemma white_space_find_end: "find (ends_in s) white_space = Some w \<Longrightarrow> 0 < length w \<and> length w \<le> length s"
  by (auto simp: find_Some_iff white_space_def ends_in_def starts_with_iff nth_Cons' split: if_splits dest: arg_cong[of _ _ length])

function trim_end :: "u8 list \<Rightarrow> u8 list" where
  "trim_end s = (case find (ends_in s) white_space of None \<Rightarrow> s | Some w \<Rightarrow> trim_end (take (length s - length w) s))"
  by pat_completeness auto
termination
  by (relation "measure length") (auto dest!: white_space_find_end simp: length_greater_0_conv[symmetric] simp del: length_greater_0_conv)

declare trim_start.simps [simp del] trim_end.simps [simp del]

definition trim :: "u8 list \<Rightarrow> u8 list" where
  "trim s = trim_end (trim_start s)"

section \<open>Start-up\<close>

datatype startup_error =
    LoadFailed "(unit, unit) config_error"
  | BuildFailed "(unit, unit) build_error"
  | BadEndpoint "u8 list"
  | BindFailed "u8 list"

text \<open>
  The host: \<open>ARCHIV_CONFIG\<close>, the file system, the YAML reader, the address parser, whether an address can
  be bound beside those already bound, and what opening a directory finds.
\<close>

record 'a host =
  ho_archiv_config :: "u8 list option"
  ho_read_to_string :: "u8 list \<Rightarrow> unit + u8 list"
  ho_from_str :: "u8 list \<Rightarrow> unit + agent_config"
  ho_parse_addr :: "u8 list \<Rightarrow> 'a option"
  ho_bind :: "'a list \<Rightarrow> 'a \<Rightarrow> bool"
  ho_read_dir :: "u8 list \<Rightarrow> unit + (u8 list list \<times> (u8 list \<Rightarrow> unit + u64))"

definition read_config :: "'a host \<Rightarrow> (startup_error, agent_config) result" where
  "read_config host =
     (case ho_archiv_config host of
        Some path \<Rightarrow>
          if trim path \<noteq> [] then map_err LoadFailed (load (ho_read_to_string host) (ho_from_str host) (trim path))
          else Ok agent_default
      | None \<Rightarrow> Ok agent_default)"

text \<open>The spool is opened only for a destination, and its failure is not fatal.\<close>

definition open_spool :: "'a host \<Rightarrow> export_config \<Rightarrow> (u64 \<times> spool_state) option" where
  "open_spool host ex =
     (if ec_otlp_endpoint ex = None then None
      else case ho_read_dir host (ec_spool_dir ex) of
          Inl e \<Rightarrow> None
        | Inr (names, metadata) \<Rightarrow>
            (case spool_open metadata names of
               Inl e \<Rightarrow> None
             | Inr s \<Rightarrow> Some (ec_spool_max_bytes ex, s)))"

definition listen :: "'a host \<Rightarrow> 'a list \<Rightarrow> u8 list \<Rightarrow> 'a \<Rightarrow> (startup_error, unit) result" where
  "listen host bound endpoint addr = (if ho_bind host bound addr then Ok () else Err (BindFailed endpoint))"

definition parse_addr :: "'a host \<Rightarrow> u8 list \<Rightarrow> (startup_error, 'a) result" where
  "parse_addr host endpoint = (case ho_parse_addr host endpoint of None \<Rightarrow> Err (BadEndpoint endpoint) | Some a \<Rightarrow> Ok a)"

text \<open>\<^verbatim>\<open>main\<close> up to the servers; every error is logged and ends in \<^verbatim>\<open>ExitCode::FAILURE\<close>.\<close>

definition startup ::
  "('rx, 'rs) regex_lib \<Rightarrow> 'h hasher \<Rightarrow> instant \<Rightarrow> 'a host \<Rightarrow> (startup_error, ('rx, 'rs) app_state) result" where
  "startup lib hx now host =
     rbind (read_config host) (\<lambda>config.
       let policy_version = policy_fingerprint hx config in
       rbind (map_err BuildFailed (from_config lib now config)) (\<lambda>pipeline.
       rbind (parse_addr host (ic_http_endpoint (ac_ingest config))) (\<lambda>http_addr.
       rbind (parse_addr host (ic_grpc_endpoint (ac_ingest config))) (\<lambda>grpc_addr.
       rbind (listen host [] (ic_http_endpoint (ac_ingest config)) http_addr) (\<lambda>_.
       rbind (listen host [http_addr] (ic_grpc_endpoint (ac_ingest config)) grpc_addr) (\<lambda>_.
         Ok \<lparr>as_pipeline = pipeline, as_forward_endpoint = ec_otlp_endpoint (ac_export config),
             as_metrics = metrics_new policy_version, as_spool = open_spool host (ac_export config),
             as_channel_capacity = ic_channel_capacity (ac_ingest config)\<rparr>))))))"

text \<open>Whether the drain loop runs, and the exit code of the process.\<close>

definition drains :: "('rx, 'rs) app_state \<Rightarrow> bool" where
  "drains state \<longleftrightarrow> as_spool state \<noteq> None \<and> as_forward_endpoint state \<noteq> None"

definition exit_code :: "bool \<Rightarrow> bool \<Rightarrow> nat" where
  "exit_code http_ok grpc_ok = (if http_ok \<and> grpc_ok then 0 else 1)"

section \<open>What a running agent has\<close>

lemma default_valid: "config_valid agent_default"
  by (simp add: config_valid_def agent_default_def sampling_default_def ingest_default_def limits_default_def)

lemma load_valid:
  assumes "(load read_to_string from_str path :: (('io, 'y) config_error, agent_config) result) = Ok cfg"
  shows "config_valid cfg \<and> (\<exists>text. read_to_string path = Inr text \<and> from_str text = Inr cfg)"
proof -
  from assms obtain doc where "read_to_string path = Inr doc" "from_str doc = Inr cfg"
    and "(validate cfg :: (('io, 'y) config_error, unit) result) = Ok ()"
    by (auto simp: load_def from_yaml_def result_simps split: sum.splits)
  with validate_Ok show ?thesis by blast
qed

lemma read_config_Ok:
  assumes "read_config host = Ok cfg"
  shows "config_valid cfg"
    "if \<exists>path. ho_archiv_config host = Some path \<and> trim path \<noteq> []
     then \<exists>text. ho_read_to_string host (trim (the (ho_archiv_config host))) = Inr text \<and> ho_from_str host text = Inr cfg
     else cfg = agent_default"
  using assms default_valid by (auto simp: read_config_def result_simps split: option.splits if_splits dest!: load_valid)

lemma startup_Ok:
  assumes "startup lib hx now host = Ok state"
  obtains cfg where "read_config host = Ok cfg"
    "(from_config lib now cfg :: ((unit, unit) build_error, ('rx, 'rs) pipeline) result) = Ok (as_pipeline state)"
    "as_forward_endpoint state = ec_otlp_endpoint (ac_export cfg)" "as_metrics state = metrics_new (policy_fingerprint hx cfg)"
    "as_spool state = open_spool host (ac_export cfg)" "as_channel_capacity state = ic_channel_capacity (ac_ingest cfg)"
    "\<exists>a b. ho_parse_addr host (ic_http_endpoint (ac_ingest cfg)) = Some a \<and> ho_parse_addr host (ic_grpc_endpoint (ac_ingest cfg)) = Some b \<and>
       ho_bind host [] a \<and> ho_bind host [a] b"
  using assms by (auto simp: startup_def Let_def result_simps parse_addr_def listen_def split: option.splits if_splits)

section \<open>Properties\<close>


text \<open>A host without a configuration, where every port is free.\<close>

definition bare_host :: "unit host" where
  "bare_host = \<lparr>ho_archiv_config = Some [32, 0xC2, 0xA0], ho_read_to_string = (\<lambda>path. Inl ()), ho_from_str = (\<lambda>doc. Inl ()),
     ho_parse_addr = (\<lambda>endpoint. Some ()), ho_bind = (\<lambda>bound addr. True), ho_read_dir = (\<lambda>dir. Inl ())\<rparr>"

lemma bare_trim: "trim [32, 0xC2, 0xA0] = []"
proof -
  have "trim_start [32, 0xC2, 0xA0] = []"
    by (subst trim_start.simps, simp add: white_space_def starts_with_def)+
  then show ?thesis by (simp add: trim_def) (subst trim_end.simps, simp add: white_space_def ends_in_def starts_with_def)
qed

lemma bare_startup: "\<exists>state. startup byte_lib hx 0 bare_host = Ok state"
proof -
  have "\<exists>pl. (from_config byte_lib 0 agent_default :: ((unit, unit) build_error, (u8, u8 list) pipeline) result) = Ok pl"
    by (simp add: from_config_def agent_default_def sampling_default_def into_rule_specs_def redact_compile_def byte_lib_def Let_def)
  then show ?thesis by (auto simp: startup_def read_config_def bare_host_def bare_trim parse_addr_def listen_def Let_def)
qed


end
