(* ===== verification/Wellformed.thy ===== *)
theory Wellformed
  imports Agent
begin

text \<open>
  What every state of the application satisfies: the shape that start-up establishes and that the run of
  a payload, a flush of the metrics and a pass of the drain preserve.  A pipeline is in service, the
  counters of the window balance, and the spool is consistent: its total covers the pending files and
  its numbers are fresh.
\<close>

section \<open>Well-formed states\<close>

definition balanced :: "window_counters \<Rightarrow> bool" where
  "balanced w \<longleftrightarrow> wc_events_in w = wc_events_sampled_out w + wc_events_exported w"

definition spool_wf :: "u64 \<Rightarrow> spool_state \<Rightarrow> bool" where
  "spool_wf max_bytes s \<longleftrightarrow>
     unat max_bytes < 2 ^ 63 \<and> weight (ss_pending s) \<le> unat (ss_total_bytes s) \<and> unat (ss_total_bytes s) < 2 ^ 63 \<and>
     (\<forall>seq \<in> dom (RBT.lookup (ss_pending s)). seq < ss_next_seq s)"

definition state_wf :: "('rx, 'rs) regex_lib \<Rightarrow> 'h hasher \<Rightarrow> ('rx, 'rs) app_state \<Rightarrow> bool" where
  "state_wf lib hx st \<longleftrightarrow>
     in_service lib hx (as_pipeline st) \<and> balanced (me_counters (as_metrics st)) \<and> 0 < as_channel_capacity st \<and>
     (case as_spool st of None \<Rightarrow> True | Some (max_bytes, s) \<Rightarrow> as_forward_endpoint st \<noteq> None \<and> spool_wf max_bytes s)"

section \<open>The parts\<close>

lemma balanced_default: "balanced counters_default"
  by (simp add: balanced_def counters_default_def)

lemma balanced_record:
  assumes "balanced w" "ps_kept st + ps_dropped st = ps_records_in st"
  shows "balanced (counters_record (sample_of st) w)"
proof -
  have r: "read_counter c (counters_record (sample_of st) w) = read_counter c w + sample_count c (sample_of st)" for c
    by (rule counters_record_read)
  have "(of_nat (ps_records_in st) :: u64) = of_nat (ps_dropped st) + of_nat (ps_kept st)"
    using assms(2) by (metis add.commute of_nat_add)
  with assms(1) r[of EventsIn] r[of SampledOut] r[of Exported] show ?thesis
    by (simp add: balanced_def sample_of_def algebra_simps)
qed

lemma balanced_flush: "balanced (me_counters (fst (metrics_flush t0 t1 m)))"
proof -
  obtain m' a where f: "metrics_flush t0 t1 m = (m', a)" by fastforce
  from metrics_flush_eq(1)[OF f] balanced_default show ?thesis by (simp add: f)
qed

lemma spool_wf_push:
  assumes "spool_wf max_bytes s" "length p < 2 ^ 63" "ss_next_seq s < - 1" "spool_push max_bytes publish_file p s = (r, s')"
  shows "spool_wf max_bytes s'"
proof (cases "push_reserve max_bytes (len64 p) s")
  case (Inl e)
  with assms(1,4) show ?thesis by (simp add: spool_push_def)
next
  case (Inr x)
  obtain seq s1 where x: "x = (seq, s1)" by (cases x)
  have t: "unat (ss_total_bytes s) < 2 ^ 63" using assms(1) by (simp add: spool_wf_def)
  have l: "unat (len64 p) = length p" using assms(2) by (rule unat_len64)
  note R = push_reserve_Inr[OF Inr[unfolded x] t] 
  have s1: "seq = ss_next_seq s" "s1 = s\<lparr>ss_next_seq := ss_next_seq s + 1, ss_total_bytes := ss_total_bytes s + len64 p\<rparr>"
    "unat (ss_total_bytes s1) = unat (ss_total_bytes s) + length p" "unat (ss_total_bytes s1) \<le> unat max_bytes"
    using R l assms(2) by simp_all
  have fresh: "RBT.lookup (ss_pending s) seq = None" using assms(1) s1(1) by (auto simp: spool_wf_def)
  have next1: "k < ss_next_seq s + 1" if "k \<le> ss_next_seq s" for k using less_next[OF assms(3) that] .
  show ?thesis
  proof (cases "publish_file seq p")
    case (Inl e)
    with assms(4) Inr x have "s' = push_rollback (len64 p) s1" by (simp add: spool_push_def)
    with assms(1) s1 l next1 show ?thesis
      by (auto simp: spool_wf_def push_rollback_total less_imp_le)
  next
    case (Inr u)
    with assms(4) \<open>push_reserve max_bytes (len64 p) s = Inr x\<close> x have "s' = push_publish seq (len64 p) s1"
      by (simp add: spool_push_def)
    with assms(1) s1 l next1 fresh show ?thesis
      by (auto simp: spool_wf_def weight_insert less_imp_le)
  qed
qed

lemma spool_wf_drain:
  assumes "spool_wf max_bytes s"
  shows "spool_wf max_bytes (snd (drain_once client endpoint read s))"
proof -
  have "spool_wf max_bytes (drain_remove seq len s)" if p: "drain_pick s = Some (seq, len)" for seq len
  proof -
    have k: "RBT.lookup (ss_pending s) seq = Some len"
      using pending.first_Some[OF p[unfolded drain_pick_def]] by blast
    from drain_remove_fields[OF k] weight_delete[OF k] assms show ?thesis
      by (auto simp: spool_wf_def)
  qed
  with assms show ?thesis by (auto simp: drain_once_def split: option.splits result.splits)
qed

lemma spool_wf_open:
  assumes "spool_open (disk_len disk) names = Inr s" "distinct names" "set names = dom disk"
    and "\<forall>x. disk (otlp_name x) \<noteq> None \<longrightarrow> x < - 1" "weight (ss_pending s) < 2 ^ 63" "unat max_bytes < 2 ^ 63"
  shows "spool_wf max_bytes s"
proof -
  note O = spool_open_result[OF assms(1-3)]
  have "unat (ss_total_bytes s) = weight (ss_pending s)"
    using O(2) assms(5) by (simp add: unat_of_nat take_bit_nat_eq_self)
  moreover have "seq < ss_next_seq s" if "seq \<in> dom (RBT.lookup (ss_pending s))" for seq
    using that O(1)[of seq] O(3)[OF assms(4), of seq] by (cases "disk (otlp_name seq)") auto
  ultimately show ?thesis using assms(5,6) by (simp add: spool_wf_def)
qed

lemma forward_or_spool_wf:
  assumes "forward_or_spool client publish_file out st = (st', v)" "state_wf lib hx st"
    and "length (contiguous out) < 2 ^ 63" "\<forall>m s. as_spool st = Some (m, s) \<longrightarrow> ss_next_seq s < - 1"
  shows "state_wf lib hx st'"
proof (cases "as_spool st' = as_spool st")
  case True
  with assms(1) have "st' = st" by (auto simp: forward_or_spool_def split: option.splits result.splits prod.splits sum.splits)
  with assms(2) show ?thesis by simp
next
  case False
  with assms(1) obtain endpoint m s r s' where e: "as_forward_endpoint st = Some endpoint" "as_spool st = Some (m, s)"
    "spool_push m publish_file (contiguous out) s = (r, s')" "st' = st\<lparr>as_spool := Some (m, s')\<rparr>"
    by (auto simp: forward_or_spool_def split: option.splits result.splits prod.splits sum.splits)
  from assms(2,4) e have "spool_wf m s" "ss_next_seq s < - 1" by (auto simp: state_wf_def)
  from spool_wf_push[OF this(1) assms(3) this(2) e(3)] assms(2) e show ?thesis by (simp add: state_wf_def)
qed

section \<open>Reachable states\<close>

text \<open>
  A directory as the file system lists it: every file once, with its length, with room in the numbers
  and less than \<open>2 ^ 63\<close> bytes in all.
\<close>

definition listing_ok :: "u8 list list \<times> (u8 list \<Rightarrow> unit + u64) \<Rightarrow> bool" where
  "listing_ok l \<longleftrightarrow>
     (case l of (names, metadata) \<Rightarrow>
        \<exists>disk. metadata = disk_len disk \<and> distinct names \<and> set names = dom disk \<and>
          (\<forall>x. disk (otlp_name x) \<noteq> None \<longrightarrow> x < - 1) \<and>
          (\<forall>s. spool_open metadata names = Inr s \<longrightarrow> weight (ss_pending s) < 2 ^ 63))"

text \<open>
  Start-up, the run of a payload, a flush and a pass of the drain, in any order.  The bounds are those
  of the spool: outputs and the limit below \<open>2 ^ 63\<close>, and a sequence that has not reached its end.
\<close>

inductive app_reach :: "('rx, 'rs) regex_lib \<Rightarrow> 'h hasher \<Rightarrow> 'a host \<Rightarrow> ('rx, 'rs) app_state \<Rightarrow> bool"
  for lib hx host where
  ap_start: "startup lib hx now host = Ok st \<Longrightarrow> \<forall>dir l. ho_read_dir host dir = Inr l \<longrightarrow> listing_ok l \<Longrightarrow>
    \<forall>m s. as_spool st = Some (m, s) \<longrightarrow> unat m < 2 ^ 63 \<Longrightarrow> app_reach lib hx host st"
| ap_run: "app_reach lib hx host st \<Longrightarrow> length raw < 2 ^ 64 \<Longrightarrow> run lib hx t now client publish_file st raw = Some (st', v) \<Longrightarrow>
    \<forall>pl out. process lib hx t now (as_pipeline st) raw = Some (pl, out) \<longrightarrow> length (contiguous (pr_output out)) < 2 ^ 63 \<Longrightarrow>
    \<forall>m s. as_spool st = Some (m, s) \<longrightarrow> ss_next_seq s < - 1 \<Longrightarrow> app_reach lib hx host st'"
| ap_flush: "app_reach lib hx host st \<Longrightarrow> app_reach lib hx host (st\<lparr>as_metrics := fst (metrics_flush t0 t1 (as_metrics st))\<rparr>)"
| ap_drain: "app_reach lib hx host st \<Longrightarrow> as_spool st = Some (m, s) \<Longrightarrow>
    app_reach lib hx host (st\<lparr>as_spool := Some (m, snd (drain_once client endpoint read s))\<rparr>)"

lemma open_spool_wf:
  assumes "open_spool host ex = Some (m, s)" "\<forall>dir l. ho_read_dir host dir = Inr l \<longrightarrow> listing_ok l" "unat m < 2 ^ 63"
  shows "ec_otlp_endpoint ex \<noteq> None \<and> spool_wf m s"
proof -
  from assms(1) obtain names metadata where d: "ho_read_dir host (ec_spool_dir ex) = Inr (names, metadata)"
    and o: "spool_open metadata names = Inr s" and e: "ec_otlp_endpoint ex \<noteq> None"
    by (auto simp: open_spool_def split: if_splits sum.splits)
  from assms(2) d have "listing_ok (names, metadata)" by blast
  then obtain disk where "metadata = disk_len disk" "distinct names" "set names = dom disk"
    "\<forall>x. disk (otlp_name x) \<noteq> None \<longrightarrow> x < - 1" "weight (ss_pending s) < 2 ^ 63"
    using o by (auto simp: listing_ok_def)
  with spool_wf_open[of disk names s m] o assms(3) e show ?thesis by simp
qed

lemma start_wf:
  assumes "startup lib hx now host = Ok st" "\<forall>dir l. ho_read_dir host dir = Inr l \<longrightarrow> listing_ok l"
    and "\<forall>m s. as_spool st = Some (m, s) \<longrightarrow> unat m < 2 ^ 63"
  shows "state_wf lib hx st"
proof -
  from startup_Ok[OF assms(1)] obtain cfg where c: "read_config host = Ok cfg"
    and f: "(from_config lib now cfg :: ((unit, unit) build_error, ('a, 'b) pipeline) result) = Ok (as_pipeline st)"
    and s: "as_forward_endpoint st = ec_otlp_endpoint (ac_export cfg)" "as_metrics st = metrics_new (policy_fingerprint hx cfg)"
      "as_spool st = open_spool host (ac_export cfg)" "as_channel_capacity st = ic_channel_capacity (ac_ingest cfg)"
    by blast
  have "0 < as_channel_capacity st" using read_config_Ok(1)[OF c] s(4) by (simp add: config_valid_def)
  moreover have "as_forward_endpoint st \<noteq> None \<and> spool_wf m x" if "as_spool st = Some (m, x)" for m x
    using open_spool_wf[of host "ac_export cfg" m x] that s assms(2,3) by simp
  ultimately show ?thesis
    using built[OF f, of hx] by (auto simp: state_wf_def s(2) metrics_new_def balanced_default split: option.split)
qed

lemma run_wf:
  assumes "state_wf lib hx st" "matches_inside lib" "length raw < 2 ^ 64" "run lib hx t now client publish_file st raw = Some (st', v)"
    and "\<forall>pl out. process lib hx t now (as_pipeline st) raw = Some (pl, out) \<longrightarrow> length (contiguous (pr_output out)) < 2 ^ 63"
    and "\<forall>m s. as_spool st = Some (m, s) \<longrightarrow> ss_next_seq s < - 1"
  shows "state_wf lib hx st'"
proof -
  from run_Some[OF assms(3,4)] obtain pl' out where P: "process lib hx t now (as_pipeline st) raw = Some (pl', out)"
    and R: "if is_Ok (parse_export_logs_request raw [])
     then forward_or_spool client publish_file (pr_output out)
         (st\<lparr>as_pipeline := pl', as_metrics := metrics_record (sample_of (pr_stats out)) (as_metrics st)\<rparr>) = (st', v)
     else st' = st\<lparr>as_pipeline := pl'\<rparr> \<and> v = Malformed" .
  have s: "in_service lib hx pl'" using assms(1,3) P by (auto simp: state_wf_def intro: served)
  show ?thesis
  proof (cases "is_Ok (parse_export_logs_request raw [])")
    case True
    let ?st = "st\<lparr>as_pipeline := pl', as_metrics := metrics_record (sample_of (pr_stats out)) (as_metrics st)\<rparr>"
    have "balanced (counters_record (sample_of (pr_stats out)) (me_counters (as_metrics st)))"
      by (rule balanced_record) (use assms(1) stats_add_up[OF assms(3,2) P] in \<open>simp_all add: state_wf_def\<close>)
    then have "state_wf lib hx ?st" using assms(1) s by (auto simp: state_wf_def metrics_record_def split: option.splits)
    moreover have "length (contiguous (pr_output out)) < 2 ^ 63" using assms(5) P by blast
    moreover have "\<forall>m s. as_spool ?st = Some (m, s) \<longrightarrow> ss_next_seq s < - 1" using assms(6) by simp
    ultimately show ?thesis using forward_or_spool_wf R True by (metis (no_types, lifting))
  next
    case False
    with R assms(1) s show ?thesis by (auto simp: state_wf_def split: option.splits)
  qed
qed

lemma reach_wf: "app_reach lib hx host st \<Longrightarrow> matches_inside lib \<Longrightarrow> state_wf lib hx st"
proof (induction rule: app_reach.induct)
  case (ap_start now st)
  show ?case by (rule start_wf[OF ap_start(1-3)])
next
  case (ap_run st raw t now client publish_file st' v)
  show ?case by (rule run_wf[OF ap_run.IH[OF ap_run.prems] ap_run.prems ap_run.hyps(2-5)])
next
  case (ap_flush st t0 t1)
  then show ?case using balanced_flush[of t0 t1 "as_metrics st"] by (auto simp: state_wf_def split: option.splits)
next
  case (ap_drain st m s client endpoint read)
  then show ?case using spool_wf_drain[of m s client endpoint read] by (simp add: state_wf_def)
qed

section \<open>Properties\<close>

text \<open>
  C8: Type soundness of the application state: every state that start-up, payloads, flushes and drains
  can reach is well-formed, that is, its pipeline is in service, the window counts every event as
  exported or sampled out, it has a spool only for a destination, and the spool's total covers the
  pending files and its next number is fresh; and in every such state the run of a payload does not
  get stuck: it yields a verdict whatever clock, destination and disk do.
\<close>

theorem state_sound:
  assumes "app_reach lib hx host st" "matches_inside lib"
  shows "state_wf lib hx st \<and>
    (\<forall>raw t now client publish_file. length raw < 2 ^ 64 \<longrightarrow> (\<exists>st' v. run lib hx t now client publish_file st raw = Some (st', v)))"
  using reach_wf[OF assms] run_total[OF _ assms(2)] by blast

theorem state_sound_witness:
  "\<exists>st st' v. app_reach byte_lib poly_hasher bare_host st \<and> state_wf byte_lib poly_hasher st \<and>
     run byte_lib poly_hasher 0 0 down (\<lambda>seq p. Inr ()) st at_request = Some (st', v)"
proof -
  obtain st where s: "startup byte_lib poly_hasher 0 bare_host = Ok st" using bare_startup by blast
  have "as_spool st = None"
    using s by (elim startup_Ok) (auto simp: read_config_def bare_host_def bare_trim open_spool_def agent_default_def export_default_def)
  then have "app_reach byte_lib poly_hasher bare_host st" using s by (intro ap_start[of _ _ 0]) (simp_all add: bare_host_def)
  from this state_sound[OF this byte_lib_inside] request_lengths(1) show ?thesis by blast
qed

end
