(* ===== verification/Serve.thy ===== *)
theory Serve
  imports Pool Grpc
begin

text \<open>
  The receivers as they run: \<^verbatim>\<open>serve\<close> of \<^verbatim>\<open>src/server.rs\<close> and of \<^verbatim>\<open>src/grpc.rs\<close>, with the connections they
  accept, the requests in progress on them, the worker pool behind them and the graceful shutdown, as
  a step relation over every interleaving.

  hyper and tokio are modelled by what \<^verbatim>\<open>serve\<close> relies on.  A connection serves any number of requests,
  overlapping or not, before and after the shutdown; it ends when the client hangs up, which drops the
  handlers of its requests, or, once the loop has ended, when it is idle.  \<^verbatim>\<open>GracefulShutdown\<close> waits for
  every accepted connection.  The queue closes with its last sender: one belongs to \<^verbatim>\<open>serve\<close>, one to
  each connection and one to each of its requests.  A request comes with the body that reading it
  yields.
\<close>

section \<open>Handlers\<close>

text \<open>
  A handler submits at most once.  What it submits and what it answers are read off \<^verbatim>\<open>handle\<close> and
  \<^verbatim>\<open>handle_grpc\<close> by running them on a submission that notes the payload and returns a given verdict.
\<close>

type_synonym 'r handler =
  "nat \<Rightarrow> (u8 list option \<Rightarrow> u8 list \<Rightarrow> u8 list option \<times> verdict) \<Rightarrow> u8 list option \<Rightarrow> http_call \<Rightarrow> u8 list option \<times> 'r"

definition handler_run :: "'r handler \<Rightarrow> nat \<Rightarrow> http_call \<Rightarrow> verdict \<Rightarrow> u8 list option \<times> 'r" where
  "handler_run h limit call v = h limit (\<lambda>s raw. (Some raw, v)) None call"

section \<open>State\<close>

text \<open>A request whose handler waits to submit, waits for the verdict, or has its answer.\<close>

datatype 'r stage = Sending "u8 list" | Awaiting nat | Replying 'r

record 'r request =
  rq_call :: http_call
  rq_limit :: nat
  rq_stage :: "'r stage"

text \<open>Connections are \<open>None\<close> once they have ended.  \<open>sv_answers\<close> are the answers written to clients.\<close>

record ('rx, 'rs, 'r) service =
  sv_pool :: "('rx, 'rs) pool"
  sv_accepting :: bool
  sv_conns :: "'r request list option list"
  sv_returned :: bool
  sv_answers :: "(http_call \<times> nat \<times> 'r) list"

definition serve_start :: "('rx, 'rs) app_state \<Rightarrow> nat \<Rightarrow> ('rx, 'rs, 'r) service" where
  "serve_start app workers =
     \<lparr>sv_pool = spawn_pool app workers, sv_accepting = True, sv_conns = [], sv_returned = False, sv_answers = []\<rparr>"

definition conn_requests :: "'r request list option \<Rightarrow> 'r request list" where
  "conn_requests c = (case c of Some rs \<Rightarrow> rs | None \<Rightarrow> [])"

definition open_requests :: "('rx, 'rs, 'r) service \<Rightarrow> 'r request list" where
  "open_requests s = concat (map conn_requests (sv_conns s))"

definition conn_senders :: "'r request list option \<Rightarrow> nat" where
  "conn_senders c = (case c of Some rs \<Rightarrow> 1 + length rs | None \<Rightarrow> 0)"

definition ingress_count :: "('rx, 'rs, 'r) service \<Rightarrow> nat" where
  "ingress_count s = of_bool (\<not> sv_returned s) + sum_list (map conn_senders (sv_conns s))"

definition new_request :: "'r handler \<Rightarrow> ('rx, 'rs) pool \<Rightarrow> http_call \<Rightarrow> 'r request" where
  "new_request h p call =
     (let limit = pl_max_body_bytes (as_pipeline (pq_app p)) in
      \<lparr>rq_call = call, rq_limit = limit,
       rq_stage = (case handler_run h limit call ForwardFailed of
          (Some raw, _) \<Rightarrow> Sending raw
        | (None, answer) \<Rightarrow> Replying answer)\<rparr>)"

section \<open>Steps\<close>

text \<open>
  What comes from outside: the branches of the accept loop (a failed accept changes nothing), requests
  and hang-ups on open connections, and the other tasks that share the state of the application.
\<close>

inductive arrival_step :: "'r handler \<Rightarrow> ('rx, 'rs, 'r) service \<Rightarrow> ('rx, 'rs, 'r) service \<Rightarrow> bool"
  for h where
  av_accept: "sv_accepting s \<Longrightarrow> arrival_step h s (s\<lparr>sv_conns := sv_conns s @ [Some []]\<rparr>)"
| av_failed: "sv_accepting s \<Longrightarrow> arrival_step h s s"
| av_shutdown: "sv_accepting s \<Longrightarrow> arrival_step h s (s\<lparr>sv_accepting := False\<rparr>)"
| av_request: "sv_conns s = cs @ Some rs # cs' \<Longrightarrow> \<forall>b. hc_body call = Some b \<longrightarrow> length b < 2 ^ 64 \<Longrightarrow>
    arrival_step h s (s\<lparr>sv_conns := cs @ Some (rs @ [new_request h (sv_pool s) call]) # cs'\<rparr>)"
| av_hangup: "sv_conns s = cs @ Some rs # cs' \<Longrightarrow> arrival_step h s (s\<lparr>sv_conns := cs @ None # cs'\<rparr>)"
| av_shared: "as_channel_capacity app = as_channel_capacity (pq_app (sv_pool s)) \<Longrightarrow>
    arrival_step h s (s\<lparr>sv_pool := (sv_pool s)\<lparr>pq_app := app\<rparr>\<rparr>)"

text \<open>What the agent does of itself.\<close>

inductive progress_step ::
  "('rx, 'rs) regex_lib \<Rightarrow> 'h hasher \<Rightarrow> 'r handler \<Rightarrow> ('rx, 'rs, 'r) service \<Rightarrow> ('rx, 'rs, 'r) service \<Rightarrow> bool"
  for lib hx h where
  pg_work: "work_step lib hx (sv_pool s) p \<Longrightarrow> progress_step lib hx h s (s\<lparr>sv_pool := p\<rparr>)"
| pg_send: "sv_conns s = cs @ Some (rs @ r # rs') # cs' \<Longrightarrow> rq_stage r = Sending raw \<Longrightarrow> submit_step (sv_pool s) p \<Longrightarrow>
    pq_sent p = pq_sent (sv_pool s) @ [(length (pq_sent (sv_pool s)), raw)] \<Longrightarrow>
    progress_step lib hx h s (s\<lparr>sv_pool := p,
      sv_conns := cs @ Some (rs @ r\<lparr>rq_stage := Awaiting (length (pq_sent (sv_pool s)))\<rparr> # rs') # cs'\<rparr>)"
| pg_verdict: "sv_conns s = cs @ Some (rs @ r # rs') # cs' \<Longrightarrow> rq_stage r = Awaiting n \<Longrightarrow>
    ((n, raw), v) \<in> set (pq_replies (sv_pool s)) \<Longrightarrow>
    progress_step lib hx h s (s\<lparr>sv_conns :=
      cs @ Some (rs @ r\<lparr>rq_stage := Replying (snd (handler_run h (rq_limit r) (rq_call r) v))\<rparr> # rs') # cs'\<rparr>)"
| pg_write: "sv_conns s = cs @ Some (rs @ r # rs') # cs' \<Longrightarrow> rq_stage r = Replying answer \<Longrightarrow>
    progress_step lib hx h s (s\<lparr>sv_conns := cs @ Some (rs @ rs') # cs',
      sv_answers := sv_answers s @ [(rq_call r, rq_limit r, answer)]\<rparr>)"
| pg_finish: "\<not> sv_accepting s \<Longrightarrow> sv_conns s = cs @ Some [] # cs' \<Longrightarrow>
    progress_step lib hx h s (s\<lparr>sv_conns := cs @ None # cs'\<rparr>)"
| pg_return: "\<not> sv_accepting s \<Longrightarrow> list_all (\<lambda>c. c = None) (sv_conns s) \<Longrightarrow> \<not> sv_returned s \<Longrightarrow>
    progress_step lib hx h s (s\<lparr>sv_returned := True\<rparr>)"
| pg_exit: "ingress_count s = 0 \<Longrightarrow> pq_queue (sv_pool s) = [] \<Longrightarrow> pq_workers (sv_pool s) = ws @ Waiting # ws' \<Longrightarrow>
    progress_step lib hx h s (s\<lparr>sv_pool := (sv_pool s)\<lparr>pq_workers := ws @ Gone # ws'\<rparr>\<rparr>)"

inductive serve_reach ::
  "('rx, 'rs) regex_lib \<Rightarrow> 'h hasher \<Rightarrow> 'r handler \<Rightarrow> ('rx, 'rs, 'r) service \<Rightarrow> bool"
  for lib hx h where
  sr_start: "serve_reach lib hx h (serve_start app workers)"
| sr_arrival: "serve_reach lib hx h s \<Longrightarrow> arrival_step h s s' \<Longrightarrow> serve_reach lib hx h s'"
| sr_progress: "serve_reach lib hx h s \<Longrightarrow> progress_step lib hx h s s' \<Longrightarrow> serve_reach lib hx h s'"

text \<open>The two receivers.\<close>

definition http_serve :: "('rx, 'rs) regex_lib \<Rightarrow> 'h hasher \<Rightarrow> ('rx, 'rs, http_response) service \<Rightarrow> bool" where
  "http_serve lib hx = serve_reach lib hx handle"

definition grpc_serve :: "('rx, 'rs) regex_lib \<Rightarrow> 'h hasher \<Rightarrow> ('rx, 'rs, grpc_reply) service \<Rightarrow> bool" where
  "grpc_serve lib hx = serve_reach lib hx handle_grpc"

section \<open>The interface of a handler\<close>

text \<open>
  What the receivers rely on: the payload depends on the request alone, an answer given without a
  submission does not depend on a verdict, a payload is not longer than the body, and the answer tells
  success exactly when the verdict of a submission was \<open>Accepted\<close>.
\<close>

locale receiver =
  fixes h :: "'r handler" and tells_success :: "'r \<Rightarrow> bool"
  assumes payload_fixed: "fst (handler_run h limit call v) = fst (handler_run h limit call w)"
    and answer_fixed: "fst (handler_run h limit call v) = None \<Longrightarrow> snd (handler_run h limit call v) = snd (handler_run h limit call w)"
    and payload_length: "fst (handler_run h limit call v) = Some raw \<Longrightarrow> \<exists>b. hc_body call = Some b \<and> length raw \<le> length b"
    and success: "tells_success (snd (handler_run h limit call v)) \<longleftrightarrow> fst (handler_run h limit call v) \<noteq> None \<and> v = Accepted"

section \<open>Invariants\<close>

definition verdict_of_run :: "('rx, 'rs) regex_lib \<Rightarrow> 'h hasher \<Rightarrow> u8 list \<Rightarrow> verdict \<Rightarrow> bool" where
  "verdict_of_run lib hx raw v \<longleftrightarrow>
     (\<exists>t now client publish_file app app'. run lib hx t now client publish_file app raw = Some (app', v))"

text \<open>An answer is the one that the handler gives to the verdict of a run on the payload of the request.\<close>

definition answer_ok :: "('rx, 'rs) regex_lib \<Rightarrow> 'h hasher \<Rightarrow> 'r handler \<Rightarrow> http_call \<times> nat \<times> 'r \<Rightarrow> bool" where
  "answer_ok lib hx h a \<longleftrightarrow>
     (case a of (call, limit, answer) \<Rightarrow>
        \<exists>v. answer = snd (handler_run h limit call v) \<and>
          (\<forall>raw. fst (handler_run h limit call v) = Some raw \<longrightarrow> verdict_of_run lib hx raw v))"

definition request_ok :: "('rx, 'rs) regex_lib \<Rightarrow> 'h hasher \<Rightarrow> 'r handler \<Rightarrow> job list \<Rightarrow> 'r request \<Rightarrow> bool" where
  "request_ok lib hx h sent r \<longleftrightarrow>
     (case rq_stage r of
        Sending raw \<Rightarrow> fst (handler_run h (rq_limit r) (rq_call r) ForwardFailed) = Some raw \<and> length raw < 2 ^ 64
      | Awaiting n \<Rightarrow> \<exists>raw. fst (handler_run h (rq_limit r) (rq_call r) ForwardFailed) = Some raw \<and> (n, raw) \<in> set sent
      | Replying answer \<Rightarrow> answer_ok lib hx h (rq_call r, rq_limit r, answer))"

definition serve_inv :: "('rx, 'rs) regex_lib \<Rightarrow> 'h hasher \<Rightarrow> 'r handler \<Rightarrow> ('rx, 'rs, 'r) service \<Rightarrow> bool" where
  "serve_inv lib hx h s \<longleftrightarrow>
     pool_inv lib hx (sv_pool s) \<and>
     (sv_returned s \<longrightarrow> \<not> sv_accepting s \<and> list_all (\<lambda>c. c = None) (sv_conns s)) \<and>
     (alive (sv_pool s) \<or> sv_returned s \<and> pq_queue (sv_pool s) = []) \<and>
     (\<forall>(j, v) \<in> set (pq_replies (sv_pool s)). verdict_of_run lib hx (snd j) v) \<and>
     list_all (request_ok lib hx h (pq_sent (sv_pool s))) (open_requests s) \<and>
     list_all (answer_ok lib hx h) (sv_answers s)"

lemma request_ok_mono: "request_ok lib hx h sent r \<Longrightarrow> set sent \<subseteq> set sent' \<Longrightarrow> request_ok lib hx h sent' r"
  by (auto simp: request_ok_def split: stage.splits)

lemma requests_ok_mono: "list_all (request_ok lib hx h sent) rs \<Longrightarrow> set sent \<subseteq> set sent' \<Longrightarrow> list_all (request_ok lib hx h sent') rs"
  by (auto simp: list_all_iff intro: request_ok_mono)

lemma open_requests_split [simp]:
  "sv_conns s = cs @ c # cs' \<Longrightarrow> open_requests s = concat (map conn_requests cs) @ conn_requests c @ concat (map conn_requests cs')"
  by (simp add: open_requests_def)

lemma conn_requests_simps [simp]: "conn_requests (Some rs) = rs" "conn_requests None = []"
  by (simp_all add: conn_requests_def)

lemma open_requests_more [simp]:
  "open_requests (s\<lparr>sv_pool := p\<rparr>) = open_requests s" "open_requests (s\<lparr>sv_accepting := b\<rparr>) = open_requests s"
  "open_requests (s\<lparr>sv_returned := b\<rparr>) = open_requests s"
  by (simp_all add: open_requests_def)

lemma pool_inv_shared:
  "as_channel_capacity app = as_channel_capacity (pq_app p) \<Longrightarrow> pool_inv lib hx (p\<lparr>pq_app := app\<rparr>) = pool_inv lib hx p"
  by (simp add: pool_inv_def queue_bound_def)

lemma in_work_append [simp]: "in_work (ws @ w # ws') = in_work ws + jobs_of w + in_work ws'"
  by (simp add: in_work_def)

lemma pool_inv_exit:
  "pq_workers p = ws @ Waiting # ws' \<Longrightarrow> pool_inv lib hx (p\<lparr>pq_workers := ws @ Gone # ws'\<rparr>) = pool_inv lib hx p"
  by (simp add: pool_inv_def queue_bound_def)

text \<open>The queue closes exactly when \<^verbatim>\<open>serve\<close> has returned.\<close>

lemma ingress_closed:
  assumes "serve_inv lib hx h s"
  shows "ingress_count s = 0 \<longleftrightarrow> sv_returned s"
proof -
  have "list_all (\<lambda>c. c = None) (sv_conns s) \<Longrightarrow> sum_list (map conn_senders (sv_conns s)) = 0"
    by (auto simp: list_all_iff conn_senders_def sum_list_eq_0_iff)
  with assms show ?thesis by (auto simp: ingress_count_def serve_inv_def)
qed

text \<open>The number of a job determines its payload.\<close>

lemma pool_inv_jobs:
  assumes "pool_inv lib hx p" "(n, raw) \<in> set (pq_sent p)" "((n, raw'), v) \<in> set (pq_replies p)"
  shows "raw' = raw"
proof -
  have m: "mset (pq_sent p) = mset (pq_queue p) + in_work (pq_workers p) + mset (map fst (pq_replies p))"
    and d: "map fst (pq_sent p) = [0..<length (pq_sent p)]" using assms(1) by (simp_all add: pool_inv_def)
  have "(n, raw') \<in># mset (map fst (pq_replies p))" using assms(3) by force
  with m have "(n, raw') \<in> set (pq_sent p)" by (metis set_mset_mset union_iff)
  moreover have "distinct (map fst (pq_sent p))" unfolding d by simp
  ultimately show ?thesis using assms(2) by (metis eq_key_imp_eq_value)
qed

text \<open>No run panics, so every reply of a worker is the verdict of a run.\<close>

lemma work_step_effect:
  assumes "work_step lib hx p p'" "matches_inside lib" "pool_inv lib hx p"
  shows "pq_sent p' = pq_sent p \<and> (pq_queue p = [] \<longrightarrow> pq_queue p' = []) \<and>
    ((\<forall>(j, v) \<in> set (pq_replies p). verdict_of_run lib hx (snd j) v) \<longrightarrow> (\<forall>(j, v) \<in> set (pq_replies p'). verdict_of_run lib hx (snd j) v))"
  using assms(1)
proof cases
  case (wk_panic i j t now client publish_file)
  have "length (snd j) < 2 ^ 64" by (rule busy_sent[OF assms(3) wk_panic(2,3)])
  from run_total[OF this assms(2)] wk_panic(4) show ?thesis by (metis option.distinct(1))
next
  case (wk_respond i j t now client publish_file app' v)
  from wk_respond(4) have "verdict_of_run lib hx (snd j) v" unfolding verdict_of_run_def by blast
  with wk_respond(1) show ?thesis by simp
qed auto

lemma submit_step_alive:
  assumes "submit_step p p'" "alive p" "pool_inv lib hx p"
  shows "pq_replies p' = pq_replies p \<and> pq_workers p' = pq_workers p \<and> (\<exists>j. pq_sent p' = pq_sent p @ [j])"
  using assms(1)
proof cases
  case (su_closed raw)
  with assms(2,3) have False by (cases "pq_workers p") (auto simp: alive_def pool_inv_def)
  then show ?thesis ..
qed simp

context receiver
begin

lemma new_request_ok:
  assumes "\<forall>b. hc_body call = Some b \<longrightarrow> length b < 2 ^ 64"
  shows "request_ok lib hx h sent (new_request h p call)"
proof -
  let ?limit = "pl_max_body_bytes (as_pipeline (pq_app p))"
  obtain sub answer where e: "handler_run h ?limit call ForwardFailed = (sub, answer)" by fastforce
  show ?thesis
  proof (cases sub)
    case None
    with e have "answer_ok lib hx h (call, ?limit, answer)"
      by (auto simp: answer_ok_def intro!: exI[of _ ForwardFailed])
    with None e show ?thesis by (simp add: new_request_def request_ok_def Let_def)
  next
    case (Some raw)
    with e payload_length[of ?limit call ForwardFailed raw] assms have "length raw < 2 ^ 64" by fastforce
    with Some e show ?thesis by (simp add: new_request_def request_ok_def Let_def)
  qed
qed

lemma arrival_inv:
  assumes "arrival_step h s s'" "serve_inv lib hx h s"
  shows "serve_inv lib hx h s'"
  using assms(1)
proof cases
  case av_accept
  with assms(2) show ?thesis by (auto simp: serve_inv_def open_requests_def)
next
  case (av_request cs rs cs' call)
  with assms(2) new_request_ok[OF av_request(3)] show ?thesis by (auto simp: serve_inv_def)
next
  case (av_hangup cs rs cs')
  with assms(2) show ?thesis by (auto simp: serve_inv_def)
next
  case (av_shared app)
  with assms(2) show ?thesis by (simp add: serve_inv_def pool_inv_shared alive_def)
qed (use assms(2) in \<open>auto simp: serve_inv_def\<close>)

lemma progress_inv:
  assumes "progress_step lib hx h s s'" "serve_inv lib hx h s" "matches_inside lib"
  shows "serve_inv lib hx h s'"
  using assms(1)
proof cases
  case (pg_work p)
  from assms(2) have I: "pool_inv lib hx (sv_pool s)" by (simp add: serve_inv_def)
  note E = work_step_effect[OF pg_work(2) assms(3) I]
  from work_step_inv[OF pg_work(2) I] work_step_alive[OF pg_work(2) assms(3) I] E assms(2)
  show ?thesis unfolding pg_work(1) serve_inv_def by auto
next
  case (pg_send cs rs r rs' cs' raw p)
  from assms(2) pg_send(2) have a: "alive (sv_pool s)" and I: "pool_inv lib hx (sv_pool s)" by (auto simp: serve_inv_def)
  note E = submit_step_alive[OF pg_send(4) a I]
  from assms(2) pg_send(2,3,5) have "request_ok lib hx h (pq_sent p) (r\<lparr>rq_stage := Awaiting (length (pq_sent (sv_pool s)))\<rparr>)"
    by (auto simp: serve_inv_def request_ok_def)
  with submit_step_inv[OF pg_send(4) I] E a assms(2) pg_send(2,5) requests_ok_mono[of lib hx h "pq_sent (sv_pool s)" _ "pq_sent p"]
  show ?thesis unfolding pg_send(1) by (auto simp: serve_inv_def alive_def)
next
  case (pg_verdict cs rs r rs' cs' n raw v)
  let ?r = "r\<lparr>rq_stage := Replying (snd (handler_run h (rq_limit r) (rq_call r) v))\<rparr>"
  from assms(2) pg_verdict(2) have I: "pool_inv lib hx (sv_pool s)" and "request_ok lib hx h (pq_sent (sv_pool s)) r"
    and V: "verdict_of_run lib hx raw v" using pg_verdict(4) by (auto simp: serve_inv_def)
  with pg_verdict(3) obtain raw' where "fst (handler_run h (rq_limit r) (rq_call r) ForwardFailed) = Some raw'" "(n, raw') \<in> set (pq_sent (sv_pool s))"
    by (auto simp: request_ok_def)
  with pool_inv_jobs[OF I this(2) pg_verdict(4)] have "fst (handler_run h (rq_limit r) (rq_call r) v) = Some raw"
    using payload_fixed[of "rq_limit r" "rq_call r" v ForwardFailed] by simp
  with V have "request_ok lib hx h (pq_sent (sv_pool s)) ?r"
    by (auto simp: request_ok_def answer_ok_def intro!: exI[of _ v])
  with assms(2) pg_verdict(2) show ?thesis unfolding pg_verdict(1) by (auto simp: serve_inv_def)
next
  case (pg_write cs rs r rs' cs' answer)
  with assms(2) show ?thesis by (auto simp: serve_inv_def request_ok_def)
next
  case (pg_finish cs cs')
  with assms(2) show ?thesis by (auto simp: serve_inv_def)
next
  case pg_return
  with assms(2) show ?thesis by (auto simp: serve_inv_def)
next
  case (pg_exit ws ws')
  with assms(2) ingress_closed[OF assms(2)] show ?thesis
    by (auto simp: serve_inv_def pool_inv_exit)
qed

lemma serve_start_inv: "serve_inv lib hx h (serve_start app workers)"
  using reach_inv[OF pr_spawn] by (simp add: serve_inv_def serve_start_def open_requests_def alive_def spawn_pool_def)

lemma serve_reach_inv:
  assumes "serve_reach lib hx h s" "matches_inside lib"
  shows "serve_inv lib hx h s"
  using assms by induction (auto intro: serve_start_inv arrival_inv progress_inv)

end

section \<open>The two handlers\<close>

lemma handle_run:
  "handler_run handle limit call v =
     (if hc_method call = bytes ''POST'' \<and> hc_path call = bytes ''/v1/logs''
      then case collect_limited limit (hc_body call) of
          None \<Rightarrow> (None, response 413 (bytes ''too large'' @ [10]))
        | Some raw \<Rightarrow> (Some raw, verdict_response v)
      else (None, response 404 (bytes ''not found'' @ [10])))"
  by (simp add: handler_run_def handle_def split: option.split)

lemma handle_grpc_run:
  "handler_run handle_grpc limit call v =
     (if hc_method call = bytes ''POST'' \<and> hc_path call = LOGS_EXPORT_PATH
      then if content_type_ok (hc_content_type call)
        then case collect_limited ((limit + 5) mod 2 ^ 64) (hc_body call) of
            None \<Rightarrow> (None, grpc_response 8 False)
          | Some framed \<Rightarrow> (case unframe framed of
              Inl code \<Rightarrow> (None, grpc_response code False)
            | Inr message \<Rightarrow> (Some message, grpc_verdict v))
        else (None, grpc_response 3 False)
      else (None, grpc_response 12 False))"
  by (simp add: handler_run_def handle_grpc_def split: option.split sum.split)

lemma verdict_success [simp]: "hs_status (verdict_response v) = 200 \<longleftrightarrow> v = Accepted"
  by (cases v) (simp_all add: verdict_response_def otlp_ok_def response_def)

lemma grpc_verdict_success [simp]: "grpc_status (grpc_verdict v) = bytes ''0'' \<longleftrightarrow> v = Accepted"
  by (cases v) (simp_all add: grpc_verdict_def grpc_status_response status_value_def)

lemma unframe_fails: "unframe framed = Inl code \<Longrightarrow> grpc_status (grpc_response code b) \<noteq> bytes ''0''"
  by (auto simp: unframe_def Let_def grpc_status_response status_value_def split: if_splits)

lemma grpc_refusals: "grpc_status (grpc_response 3 b) \<noteq> bytes ''0''" "grpc_status (grpc_response 8 b) \<noteq> bytes ''0''"
  "grpc_status (grpc_response 12 b) \<noteq> bytes ''0''"
  by (simp_all add: grpc_status_response status_value_def)

lemma unframe_length: "unframe framed = Inr message \<Longrightarrow> length message \<le> length framed"
  by (auto simp: unframe_def Let_def split: if_splits)

lemma collect_limited_Some: "collect_limited limit body = Some b \<longleftrightarrow> body = Some b \<and> length b \<le> limit"
  by (auto simp: collect_limited_def split: option.splits)

interpretation http: receiver handle "\<lambda>r. hs_status r = 200"
  by unfold_locales
    (auto simp: handle_run collect_limited_def response_def split: option.splits if_splits)

interpretation grpc: receiver handle_grpc "\<lambda>r. grpc_status r = bytes ''0''"
proof
  fix limit call v raw
  show "fst (handler_run handle_grpc limit call v) = Some raw \<Longrightarrow> \<exists>b. hc_body call = Some b \<and> length raw \<le> length b"
    by (auto simp: handle_grpc_run collect_limited_Some dest: unframe_length split: option.splits sum.splits if_splits)
  show "(grpc_status (snd (handler_run handle_grpc limit call v)) = bytes ''0'') =
      (fst (handler_run handle_grpc limit call v) \<noteq> None \<and> v = Accepted)"
    by (simp add: handle_grpc_run grpc_refusals unframe_fails del: bytes_simps split: option.split sum.split)
qed (auto simp: handle_grpc_run split: option.splits sum.splits if_splits)

section \<open>Progress\<close>

primrec stage_left :: "'r stage \<Rightarrow> nat" where
  "stage_left (Sending raw) = 5"
| "stage_left (Awaiting n) = 2"
| "stage_left (Replying answer) = 1"

definition conn_left :: "'r request list option \<Rightarrow> nat" where
  "conn_left c = (case c of Some rs \<Rightarrow> 1 + sum_list (map (stage_left \<circ> rq_stage) rs) | None \<Rightarrow> 0)"

definition running :: "worker list \<Rightarrow> nat" where
  "running ws = length (filter (\<lambda>w. w \<noteq> Gone) ws)"

text \<open>What is left to do until \<^verbatim>\<open>serve\<close> has returned and its workers have ended, if nothing arrives.\<close>

definition serve_left :: "('rx, 'rs, 'r) service \<Rightarrow> nat" where
  "serve_left s = work_left (sv_pool s) + sum_list (map conn_left (sv_conns s)) + of_bool (\<not> sv_returned s) +
     running (pq_workers (sv_pool s))"

definition serve_over :: "('rx, 'rs, 'r) service \<Rightarrow> bool" where
  "serve_over s \<longleftrightarrow> sv_returned s \<and> pq_queue (sv_pool s) = [] \<and> list_all (\<lambda>w. w = Gone) (pq_workers (sv_pool s))"

lemma running_append [simp]: "running (ws @ w # ws') = running ws + of_bool (w \<noteq> Gone) + running ws'"
  by (simp add: running_def)

lemma running_update:
  assumes "i < length ws" "ws ! i \<noteq> Gone"
  shows "running (ws[i := w]) \<le> running ws"
  using assms by (subst (2) id_take_nth_drop[OF assms(1)]) (simp add: upd_conv_take_nth_drop)

lemma work_step_running: "work_step lib hx p p' \<Longrightarrow> running (pq_workers p') \<le> running (pq_workers p)"
  by (induction rule: work_step.induct) (auto intro!: running_update)

lemma work_left_more [simp]:
  "work_left (p\<lparr>pq_app := app\<rparr>) = work_left p"
  by (simp add: work_left_def)

lemma progress_measure:
  assumes "progress_step lib hx h s s'"
  shows "serve_left s' < serve_left s"
  using assms
proof cases
  case (pg_work p)
  with work_step_measure[OF pg_work(2)] work_step_running[OF pg_work(2)] show ?thesis by (simp add: serve_left_def)
next
  case (pg_send cs rs r rs' cs' raw p)
  from pg_send(4) have "work_left p \<le> work_left (sv_pool s) + 2" "pq_workers p = pq_workers (sv_pool s)"
    by (cases; simp add: work_left_def)+
  with pg_send show ?thesis by (simp add: serve_left_def conn_left_def)
next
  case (pg_exit ws ws')
  then show ?thesis by (simp add: serve_left_def work_left_def)
qed (simp_all add: serve_left_def conn_left_def)

text \<open>No step drops a request: it goes on until its answer is written.\<close>

definition answered :: "('rx, 'rs, 'r) service \<Rightarrow> (http_call \<times> nat) multiset" where
  "answered s = mset (map (\<lambda>(call, limit, answer). (call, limit)) (sv_answers s))"

definition in_progress :: "('rx, 'rs, 'r) service \<Rightarrow> (http_call \<times> nat) multiset" where
  "in_progress s = mset (map (\<lambda>r. (rq_call r, rq_limit r)) (open_requests s))"

definition requests_of :: "('rx, 'rs, 'r) service \<Rightarrow> (http_call \<times> nat) multiset" where
  "requests_of s = answered s + in_progress s"

lemma progress_keeps:
  assumes "progress_step lib hx h s s'"
  shows "requests_of s' = requests_of s \<and> sv_accepting s' = sv_accepting s"
  using assms by cases (auto simp: requests_of_def answered_def in_progress_def)

context receiver
begin

lemma request_progress:
  assumes "serve_inv lib hx h s" "sv_conns s = cs @ Some (rs @ r # rs') # cs'"
  shows "\<exists>s'. progress_step lib hx h s s'"
proof -
  let ?p = "sv_pool s"
  from assms have I: "pool_inv lib hx ?p" and a: "alive ?p" and r: "request_ok lib hx h (pq_sent ?p) r"
    by (auto simp: serve_inv_def)
  have W: "\<exists>s'. progress_step lib hx h s s'" if "pq_queue ?p \<noteq> [] \<or> in_work (pq_workers ?p) \<noteq> {#}"
    using work_step_enabled[OF I a that] pg_work by blast
  show ?thesis
  proof (cases "rq_stage r")
    case (Sending raw)
    show ?thesis
    proof (cases "length (pq_queue ?p) < queue_bound ?p")
      case True
      have "\<exists>w \<in> set (pq_workers ?p). w \<noteq> Gone" using I a by (cases "pq_workers ?p") (auto simp: pool_inv_def alive_def)
      moreover have "length raw < 2 ^ 64" using r Sending by (simp add: request_ok_def)
      ultimately show ?thesis using pg_send[OF assms(2) Sending su_send[OF True]] by fastforce
    next
      case False
      then have "pq_queue ?p \<noteq> []" by (auto simp: queue_bound_def)
      with W show ?thesis by blast
    qed
  next
    case (Awaiting n)
    with r obtain raw where "(n, raw) \<in> set (pq_sent ?p)" by (auto simp: request_ok_def)
    then have "(n, raw) \<in># mset (pq_queue ?p) + in_work (pq_workers ?p) + mset (map fst (pq_replies ?p))"
      using I by (metis pool_inv_def set_mset_mset)
    then consider "pq_queue ?p \<noteq> [] \<or> in_work (pq_workers ?p) \<noteq> {#}" | v where "((n, raw), v) \<in> set (pq_replies ?p)"
      by force
    then show ?thesis
    proof cases
      case 2
      from pg_verdict[OF assms(2) Awaiting this] show ?thesis by blast
    qed (rule W)
  next
    case (Replying answer)
    from pg_write[OF assms(2) this] show ?thesis by blast
  qed
qed

lemma progress_enabled:
  assumes "serve_inv lib hx h s" "\<not> sv_accepting s" "\<not> serve_over s" "matches_inside lib"
  shows "\<exists>s'. progress_step lib hx h s s'"
proof (cases "list_all (\<lambda>c. c = None) (sv_conns s)")
  case False
  then obtain cs rs cs' where c: "sv_conns s = cs @ Some rs # cs'"
    by (auto simp: list_all_iff dest: split_list)
  show ?thesis
  proof (cases rs)
    case Nil
    with c pg_finish[OF assms(2)] show ?thesis by blast
  next
    case (Cons r rs')
    with c request_progress[OF assms(1), of cs "[]" r rs' cs'] show ?thesis by simp
  qed
next
  case True
  show ?thesis
  proof (cases "sv_returned s")
    case False
    with pg_return[OF assms(2) True] show ?thesis by blast
  next
    case ret: True
    let ?p = "sv_pool s"
    from assms(1) have I: "pool_inv lib hx ?p" by (simp add: serve_inv_def)
    show ?thesis
    proof (cases "pq_queue ?p = [] \<and> in_work (pq_workers ?p) = {#}")
      case idle: True
      with assms(3) ret obtain w where w: "w \<in> set (pq_workers ?p)" "w \<noteq> Gone" by (auto simp: serve_over_def list_all_iff)
      then obtain ws ws' where ws: "pq_workers ?p = ws @ w # ws'" by (meson split_list)
      with idle w(2) have "w = Waiting" by (cases w) auto
      moreover have "ingress_count s = 0" using ingress_closed[OF assms(1)] ret by simp
      ultimately show ?thesis using pg_exit[of s ws ws'] idle ws by blast
    next
      case False
      show ?thesis
      proof (cases "alive ?p")
        case True
        from work_step_enabled[OF I True] False pg_work show ?thesis by blast
      next
        case dead: False
        with assms(1) have q: "pq_queue ?p = []" by (simp add: serve_inv_def)
        with False busy_or_not obtain i j where i: "i < length (pq_workers ?p)" "pq_workers ?p ! i = Busy j" by blast
        have "length (snd j) < 2 ^ 64" by (rule busy_sent[OF I i])
        then obtain app' v where "run lib hx 0 0 (\<lambda>r. SendFailed []) (\<lambda>seq p. Inr ()) (pq_app ?p) (snd j) = Some (app', v)"
          using run_total[OF _ assms(4)] by blast
        from pg_work[OF wk_respond[OF i this]] show ?thesis by blast
      qed
    qed
  qed
qed

lemma serve_drained:
  assumes "serve_inv lib hx h s" "\<not> sv_accepting s" "matches_inside lib"
  shows "\<exists>s'. (progress_step lib hx h)\<^sup>*\<^sup>* s s' \<and> serve_inv lib hx h s' \<and> serve_over s' \<and> requests_of s' = requests_of s"
  using assms(1,2)
proof (induction "serve_left s" arbitrary: s rule: less_induct)
  case less
  show ?case
  proof (cases "serve_over s")
    case True
    with less.prems show ?thesis by blast
  next
    case False
    from progress_enabled[OF less.prems False assms(3)] obtain s1 where s1: "progress_step lib hx h s s1" by blast
    note K = progress_keeps[OF s1]
    from less.hyps[OF progress_measure[OF s1] progress_inv[OF s1 less.prems(1) assms(3)]] K less.prems(2)
    obtain s' where "(progress_step lib hx h)\<^sup>*\<^sup>* s1 s'" "serve_inv lib hx h s'" "serve_over s'" "requests_of s' = requests_of s1"
      by auto
    with s1 K show ?thesis by (metis converse_rtranclp_into_rtranclp)
  qed
qed

lemma over_idle: "serve_inv lib hx h s \<Longrightarrow> sv_returned s \<Longrightarrow> open_requests s = []"
  by (auto simp: serve_inv_def open_requests_def list_all_iff)

end

section \<open>Properties\<close>


text \<open>
  C22: Graceful shutdown: once the accept loop has ended, in every reachable state in which something is
  left to do a step of the agent's own is possible, each such step leaves less to do, and there is a
  run to the end: \<^verbatim>\<open>serve\<close> has returned, the queue has been closed and emptied, every worker has ended,
  and every request that was in progress has had its answer written, exactly once.
\<close>

theorem shutdown_drains:
  assumes "http_serve lib hx s" "matches_inside lib" "\<not> sv_accepting s"
  shows "(\<forall>s'. progress_step lib hx handle s s' \<longrightarrow> serve_left s' < serve_left s) \<and>
    (\<not> serve_over s \<longrightarrow> (\<exists>s'. progress_step lib hx handle s s')) \<and>
    (\<exists>s'. (progress_step lib hx handle)\<^sup>*\<^sup>* s s' \<and> sv_returned s' \<and> pq_queue (sv_pool s') = [] \<and>
       list_all (\<lambda>w. w = Gone) (pq_workers (sv_pool s')) \<and> open_requests s' = [] \<and>
       answered s' = answered s + in_progress s)"
proof -
  have I: "serve_inv lib hx handle s" using http.serve_reach_inv assms(1,2) unfolding http_serve_def by blast
  obtain s' where s': "(progress_step lib hx handle)\<^sup>*\<^sup>* s s'" "serve_inv lib hx handle s'" "serve_over s'" "requests_of s' = requests_of s"
    using http.serve_drained[OF I assms(3,2)] by blast
  from s'(3) have o: "sv_returned s'" by (simp add: serve_over_def)
  from http.over_idle[OF s'(2) o] have f: "open_requests s' = []" .
  with s'(4) have "answered s' = answered s + in_progress s"
    by (simp add: requests_of_def in_progress_def)
  with s' o f progress_measure http.progress_enabled[OF I assms(3) _ assms(2)] show ?thesis
    unfolding serve_over_def by blast
qed

text \<open>A service that was shut down while one request was in progress.\<close>

definition posted :: http_call where
  "posted = \<lparr>hc_method = bytes ''POST'', hc_path = bytes ''/v1/logs'', hc_content_type = None, hc_body = Some at_request\<rparr>"

definition closing :: "(u8, u8 list, http_response) service" where
  "closing = \<lparr>sv_pool = spawn_pool spooling_state 2, sv_accepting = False,
     sv_conns = [Some [\<lparr>rq_call = posted, rq_limit = pl_max_body_bytes body_pipeline, rq_stage = Sending at_request\<rparr>]],
     sv_returned = False, sv_answers = []\<rparr>"

lemma body_limit: "length at_request \<le> pl_max_body_bytes body_pipeline"
  by (simp add: body_pipeline_def at_request_def)

lemma closing_reach: "http_serve byte_lib hx closing"
proof -
  define s0 :: "(u8, u8 list, http_response) service" where "s0 = serve_start spooling_state 2"
  define s1 where "s1 = s0\<lparr>sv_conns := [Some []]\<rparr>"
  define s2 where "s2 = s1\<lparr>sv_conns := [Some [new_request handle (sv_pool s1) posted]]\<rparr>"
  have "arrival_step handle s0 s1" using av_accept[of s0 handle] by (simp add: s1_def s0_def serve_start_def)
  moreover have "arrival_step handle s1 s2"
    using av_request[of s1 "[]" "[]" "[]" posted handle] request_lengths(1) by (simp add: s2_def s1_def posted_def)
  moreover have "arrival_step handle s2 (s2\<lparr>sv_accepting := False\<rparr>)"
    by (rule av_shutdown) (simp add: s2_def s1_def s0_def serve_start_def)
  moreover have "s2\<lparr>sv_accepting := False\<rparr> = closing"
    using body_limit by (simp add: s2_def s1_def s0_def serve_start_def closing_def new_request_def handle_run posted_def
        collect_limited_def spawn_pool_def spooling_state_def Let_def)
  ultimately show ?thesis unfolding http_serve_def s0_def by (metis sr_start sr_arrival)
qed

lemma progress_reach: "(progress_step lib hx h)\<^sup>*\<^sup>* s s' \<Longrightarrow> serve_reach lib hx h s \<Longrightarrow> serve_reach lib hx h s'"
  by (induction rule: rtranclp_induct) (auto intro: sr_progress)

lemma closing_done:
  "\<exists>s r. http_serve byte_lib hx s \<and> sv_answers s = [(posted, pl_max_body_bytes body_pipeline, r)]"
proof -
  have R: "serve_reach byte_lib hx handle closing" using closing_reach unfolding http_serve_def .
  obtain s where s: "(progress_step byte_lib hx handle)\<^sup>*\<^sup>* closing s" "serve_inv byte_lib hx handle s" "serve_over s"
    "requests_of s = requests_of closing"
    using http.serve_drained[OF http.serve_reach_inv[OF R byte_lib_inside] _ byte_lib_inside] by (auto simp: closing_def)
  from s(3) http.over_idle[OF s(2)] have "open_requests s = []" by (simp add: serve_over_def)
  then have "requests_of s = answered s" by (simp add: requests_of_def in_progress_def)
  moreover have "requests_of closing = {#(posted, pl_max_body_bytes body_pipeline)#}"
    by (simp add: requests_of_def answered_def in_progress_def open_requests_def closing_def)
  ultimately have "answered s = {#(posted, pl_max_body_bytes body_pipeline)#}" using s(4) by simp
  then obtain r where "sv_answers s = [(posted, pl_max_body_bytes body_pipeline, r)]"
    unfolding answered_def mset_single_iff by auto
  with progress_reach[OF s(1) R] show ?thesis unfolding http_serve_def by blast
qed


theorem shutdown_drains_witness:
  "\<exists>s'. (progress_step byte_lib poly_hasher handle)\<^sup>*\<^sup>* closing s' \<and> sv_returned s' \<and>
     answered s' = {#(posted, pl_max_body_bytes body_pipeline)#}"
proof -
  have "\<not> sv_accepting closing" "answered closing + in_progress closing = {#(posted, pl_max_body_bytes body_pipeline)#}"
    by (simp_all add: closing_def answered_def in_progress_def open_requests_def)
  with shutdown_drains[OF closing_reach byte_lib_inside, of poly_hasher] show ?thesis by metis
qed

end
