(* ===== verification/Lifecycle.thy ===== *)
theory Lifecycle
  imports Agent Serve
begin

text \<open>
  The running binary, the second half of \<^verbatim>\<open>src/main.rs\<close>: the two receivers, the flush loop and the drain
  loop on one shared state, the shutdown signal that fans out to all four, and the join that decides the
  exit code.

  The receivers take the steps of \<^verbatim>\<open>Serve.thy\<close>; their accept loops leave only once \<^verbatim>\<open>wait_for_shutdown\<close> has
  resolved.  What the two loops do while they run is in \<^verbatim>\<open>Metrics.thy\<close>, \<^verbatim>\<open>SpoolRun.thy\<close> and \<^verbatim>\<open>DrainLoop.thy\<close>; here
  they may change the shared metrics and the shared spool in any way.
\<close>

section \<open>State and steps\<close>

text \<open>
  The two signals of the operating system.  Registering a handler can fail: \<^verbatim>\<open>ctrl_c().await\<close> then returns
  at once and its result is ignored, while the branch of SIGTERM stays pending forever.
\<close>

datatype os_signal = SigInt | SigTerm

record os_signals =
  sg_ctrl_c_registered :: bool
  sg_terminate_registered :: bool
  sg_received :: "os_signal list"

definition shutdown_signal :: "os_signals \<Rightarrow> bool" where
  "shutdown_signal sg =
     (let ctrl_c = (\<not> sg_ctrl_c_registered sg \<or> SigInt \<in> set (sg_received sg));
          terminate = (sg_terminate_registered sg \<and> SigTerm \<in> set (sg_received sg))
      in ctrl_c \<or> terminate)"

text \<open>The watch channel holds a flag that is set when \<^verbatim>\<open>shutdown_signal\<close> returns; waiting resolves when it is set.\<close>

record ('rx, 'rs) agent_run =
  ar_signals :: os_signals
  ar_flagged :: bool
  ar_http :: "('rx, 'rs, http_response) service"
  ar_grpc :: "('rx, 'rs, grpc_reply) service"
  ar_flushed :: bool
  ar_drained :: bool

definition main_spawn :: "os_signals \<Rightarrow> ('rx, 'rs) app_state \<Rightarrow> nat \<Rightarrow> ('rx, 'rs) agent_run" where
  "main_spawn signals state workers =
     \<lparr>ar_signals = signals, ar_flagged = False, ar_http = serve_start state workers, ar_grpc = serve_start state workers,
      ar_flushed = False, ar_drained = False\<rparr>"

definition wait_for_shutdown :: "('rx, 'rs) agent_run \<Rightarrow> bool" where
  "wait_for_shutdown a = ar_flagged a"

text \<open>The state of the application is behind one \<^verbatim>\<open>Arc\<close>: a change by one task is seen by the others.\<close>

definition share :: "('rx, 'rs) app_state \<Rightarrow> ('rx, 'rs, 'r) service \<Rightarrow> ('rx, 'rs, 'r) service" where
  "share app s = s\<lparr>sv_pool := (sv_pool s)\<lparr>pq_app := app\<rparr>\<rparr>"

abbreviation app_of :: "('rx, 'rs, 'r) service \<Rightarrow> ('rx, 'rs) app_state" where
  "app_of s \<equiv> pq_app (sv_pool s)"

definition serve_step ::
  "('rx, 'rs) regex_lib \<Rightarrow> 'h hasher \<Rightarrow> 'r handler \<Rightarrow> bool \<Rightarrow> ('rx, 'rs, 'r) service \<Rightarrow> ('rx, 'rs, 'r) service \<Rightarrow> bool" where
  "serve_step lib hx h shutdown s s' \<longleftrightarrow>
     (arrival_step h s s' \<or> progress_step lib hx h s s') \<and> (sv_accepting s \<and> \<not> sv_accepting s' \<longrightarrow> shutdown)"

inductive main_step :: "('rx, 'rs) regex_lib \<Rightarrow> 'h hasher \<Rightarrow> ('rx, 'rs) agent_run \<Rightarrow> ('rx, 'rs) agent_run \<Rightarrow> bool"
  for lib hx where
  mn_os: "main_step lib hx a (a\<lparr>ar_signals := (ar_signals a)\<lparr>sg_received := sg_received (ar_signals a) @ [sig]\<rparr>\<rparr>)"
| mn_signal: "shutdown_signal (ar_signals a) \<Longrightarrow> main_step lib hx a (a\<lparr>ar_flagged := True\<rparr>)"
| mn_http: "serve_step lib hx handle (wait_for_shutdown a) (ar_http a) s \<Longrightarrow>
    main_step lib hx a (a\<lparr>ar_http := s, ar_grpc := share (app_of s) (ar_grpc a)\<rparr>)"
| mn_grpc: "serve_step lib hx handle_grpc (wait_for_shutdown a) (ar_grpc a) s \<Longrightarrow>
    main_step lib hx a (a\<lparr>ar_grpc := s, ar_http := share (app_of s) (ar_http a)\<rparr>)"
| mn_loops: "\<not> ar_flushed a \<or> \<not> ar_drained a \<Longrightarrow> app = (app_of (ar_http a))\<lparr>as_metrics := m, as_spool := sp\<rparr> \<Longrightarrow>
    main_step lib hx a (a\<lparr>ar_http := share app (ar_http a), ar_grpc := share app (ar_grpc a)\<rparr>)"
| mn_flushed: "wait_for_shutdown a \<Longrightarrow> main_step lib hx a (a\<lparr>ar_flushed := True\<rparr>)"
| mn_drained: "wait_for_shutdown a \<Longrightarrow> main_step lib hx a (a\<lparr>ar_drained := True\<rparr>)"

text \<open>\<^verbatim>\<open>join!\<close> waits for all four; neither \<^verbatim>\<open>serve\<close> returns anything but \<^verbatim>\<open>Ok(())\<close>.\<close>

definition joined :: "('rx, 'rs) agent_run \<Rightarrow> (bool \<times> bool) option" where
  "joined a =
     (if sv_returned (ar_http a) \<and> sv_returned (ar_grpc a) \<and> ar_flushed a \<and> ar_drained a then Some (True, True) else None)"

definition main_result :: "('rx, 'rs) agent_run \<Rightarrow> nat option" where
  "main_result a = map_option (\<lambda>(http_ok, grpc_ok). exit_code http_ok grpc_ok) (joined a)"

definition main_run ::
  "('rx, 'rs) regex_lib \<Rightarrow> 'h hasher \<Rightarrow> instant \<Rightarrow> 'a host \<Rightarrow> nat option \<Rightarrow> os_signals \<Rightarrow> ('rx, 'rs) agent_run \<Rightarrow> bool" where
  "main_run lib hx now host parallelism signals a \<longleftrightarrow>
     (\<exists>state. startup lib hx now host = Ok state \<and> (main_step lib hx)\<^sup>*\<^sup>* (main_spawn signals state (worker_count parallelism)) a)"

section \<open>Invariants\<close>

text \<open>Each receiver sees the other tasks as changes of the shared state.\<close>

definition main_inv :: "('rx, 'rs) regex_lib \<Rightarrow> 'h hasher \<Rightarrow> ('rx, 'rs) agent_run \<Rightarrow> bool" where
  "main_inv lib hx a \<longleftrightarrow>
     http_serve lib hx (ar_http a) \<and> grpc_serve lib hx (ar_grpc a) \<and> app_of (ar_http a) = app_of (ar_grpc a) \<and>
     (\<not> sv_accepting (ar_http a) \<or> \<not> sv_accepting (ar_grpc a) \<or> ar_flushed a \<or> ar_drained a \<longrightarrow> ar_flagged a) \<and>
     (ar_flagged a \<longrightarrow> shutdown_signal (ar_signals a))"

lemma work_step_capacity: "work_step lib hx p p' \<Longrightarrow> as_channel_capacity (pq_app p') = as_channel_capacity (pq_app p)"
  by (induction rule: work_step.induct) (auto dest: run_capacity)

lemma submit_step_app: "submit_step p p' \<Longrightarrow> pq_app p' = pq_app p"
  by (induction rule: submit_step.induct) simp_all

lemma serve_step_capacity:
  assumes "serve_step lib hx h b s s'"
  shows "as_channel_capacity (app_of s') = as_channel_capacity (app_of s)"
proof -
  have "as_channel_capacity (app_of s') = as_channel_capacity (app_of s)" if "arrival_step h s s'"
    using that by cases simp_all
  moreover have "as_channel_capacity (app_of s') = as_channel_capacity (app_of s)" if "progress_step lib hx h s s'"
    using that by cases (auto dest: work_step_capacity submit_step_app)
  ultimately show ?thesis using assms by (auto simp: serve_step_def)
qed

lemma share_simps [simp]:
  "app_of (share app s) = app" "sv_accepting (share app s) = sv_accepting s" "sv_returned (share app s) = sv_returned s"
  "sv_conns (share app s) = sv_conns s" "sv_answers (share app s) = sv_answers s" "share (app_of s) s = s"
  "answered (share app s) = answered s" "in_progress (share app s) = in_progress s" "open_requests (share app s) = open_requests s"
  by (simp_all add: share_def answered_def in_progress_def open_requests_def)

lemma share_share [simp]: "share app (share app' s) = share app s"
  by (simp add: share_def)

lemma share_over: "serve_over (share app s) = serve_over s"
  by (simp add: serve_over_def share_def)

lemma serve_share:
  assumes "serve_reach lib hx h s" "as_channel_capacity app = as_channel_capacity (app_of s)"
  shows "serve_reach lib hx h (share app s)"
  using sr_arrival[OF assms(1) av_shared[OF assms(2)]] by (simp add: share_def)

lemma serve_step_reach: "serve_reach lib hx h s \<Longrightarrow> serve_step lib hx h b s s' \<Longrightarrow> serve_reach lib hx h s'"
  by (auto simp: serve_step_def intro: sr_arrival sr_progress)

lemma main_step_inv:
  assumes "main_step lib hx a a'" "main_inv lib hx a"
  shows "main_inv lib hx a'"
  using assms(1)
proof cases
  case (mn_http s)
  with assms(2) serve_step_capacity[OF mn_http(2)] serve_step_reach[OF _ mn_http(2)] serve_share[of lib hx handle_grpc "ar_grpc a" "app_of s"]
  show ?thesis by (auto simp: main_inv_def http_serve_def grpc_serve_def serve_step_def wait_for_shutdown_def)
next
  case (mn_grpc s)
  with assms(2) serve_step_capacity[OF mn_grpc(2)] serve_step_reach[OF _ mn_grpc(2)] serve_share[of lib hx handle "ar_http a" "app_of s"]
  show ?thesis by (auto simp: main_inv_def http_serve_def grpc_serve_def serve_step_def wait_for_shutdown_def)
next
  case (mn_loops app m sp)
  then have "as_channel_capacity app = as_channel_capacity (app_of (ar_http a))" by simp
  with assms(2) mn_loops(1) serve_share[of lib hx handle "ar_http a" app] serve_share[of lib hx handle_grpc "ar_grpc a" app]
  show ?thesis by (auto simp: main_inv_def http_serve_def grpc_serve_def)
qed (use assms(2) in \<open>auto simp: main_inv_def wait_for_shutdown_def shutdown_signal_def\<close>)

lemma main_spawn_inv: "main_inv lib hx (main_spawn signals state workers)"
  unfolding main_inv_def http_serve_def grpc_serve_def
  by (simp add: main_spawn_def sr_start) (simp add: serve_start_def)

lemma main_steps_inv: "(main_step lib hx)\<^sup>*\<^sup>* a a' \<Longrightarrow> main_inv lib hx a \<Longrightarrow> main_inv lib hx a'"
  by (induction rule: rtranclp_induct) (auto intro: main_step_inv)

section \<open>The way to the exit\<close>

text \<open>A run of one receiver is a run of the agent.\<close>

lemma progress_accepting: "progress_step lib hx h s s' \<Longrightarrow> serve_step lib hx h b s s'"
  using progress_keeps[of lib hx h s s'] by (auto simp: serve_step_def)

lemma lift_http:
  assumes "(progress_step lib hx handle)\<^sup>*\<^sup>* (ar_http a) s" "app_of (ar_http a) = app_of (ar_grpc a)"
  shows "(main_step lib hx)\<^sup>*\<^sup>* a (a\<lparr>ar_http := s, ar_grpc := share (app_of s) (ar_grpc a)\<rparr>)"
  using assms(1)
proof (induction rule: rtranclp_induct)
  case base
  then show ?case using assms(2) by simp
next
  case (step s s')
  let ?a = "a\<lparr>ar_http := s, ar_grpc := share (app_of s) (ar_grpc a)\<rparr>"
  have "serve_step lib hx handle (wait_for_shutdown ?a) (ar_http ?a) s'" using step(2) progress_accepting by fastforce
  from mn_http[OF this] step(3) show ?case by simp
qed

lemma lift_grpc:
  assumes "(progress_step lib hx handle_grpc)\<^sup>*\<^sup>* (ar_grpc a) s" "app_of (ar_http a) = app_of (ar_grpc a)"
  shows "(main_step lib hx)\<^sup>*\<^sup>* a (a\<lparr>ar_grpc := s, ar_http := share (app_of s) (ar_http a)\<rparr>)"
  using assms(1)
proof (induction rule: rtranclp_induct)
  case base
  then show ?case by (simp flip: assms(2))
next
  case (step s s')
  let ?a = "a\<lparr>ar_grpc := s, ar_http := share (app_of s) (ar_http a)\<rparr>"
  have "serve_step lib hx handle_grpc (wait_for_shutdown ?a) (ar_grpc ?a) s'" using step(2) progress_accepting by fastforce
  from mn_grpc[OF this] step(3) show ?case by simp
qed

text \<open>Leaving the accept loop, and the rest of the way to the return of a receiver.\<close>

definition closed :: "('rx, 'rs, 'r) service \<Rightarrow> ('rx, 'rs, 'r) service" where
  "closed s = s\<lparr>sv_accepting := False\<rparr>"

lemma closed_simps [simp]:
  "sv_accepting (closed s) = False" "sv_pool (closed s) = sv_pool s" "requests_of (closed s) = requests_of s"
  "\<not> sv_accepting s \<Longrightarrow> closed s = s"
  by (simp_all add: closed_def requests_of_def answered_def in_progress_def)

lemma close_step: "sv_accepting s \<Longrightarrow> serve_step lib hx h True s (closed s)"
  by (simp add: serve_step_def closed_def av_shutdown)

lemma requests_share [simp]: "requests_of (share app s) = requests_of s"
  by (simp add: requests_of_def)

context receiver
begin

lemma returns_after_close:
  assumes "serve_reach lib hx h s" "matches_inside lib"
  shows "\<exists>s'. (progress_step lib hx h)\<^sup>*\<^sup>* (closed s) s' \<and> sv_returned s' \<and> open_requests s' = [] \<and> requests_of s' = requests_of s"
proof -
  have "serve_reach lib hx h (closed s)"
    using sr_arrival[OF assms(1) av_shutdown] assms(1) by (cases "sv_accepting s") (simp_all flip: closed_def)
  then have I: "serve_inv lib hx h (closed s)" using serve_reach_inv assms(2) by blast
  obtain s' where s': "(progress_step lib hx h)\<^sup>*\<^sup>* (closed s) s'" "serve_inv lib hx h s'" "serve_over s'"
      "requests_of s' = requests_of (closed s)" using serve_drained[OF I _ assms(2)] by auto
  moreover from s'(3) have "sv_returned s'" by (simp add: serve_over_def)
  ultimately show ?thesis using over_idle[OF s'(2)] by auto
qed

lemma returned_idle: "serve_reach lib hx h s \<Longrightarrow> matches_inside lib \<Longrightarrow> sv_returned s \<Longrightarrow> open_requests s = []"
  by (rule over_idle[OF serve_reach_inv])

end

definition same_requests :: "('rx, 'rs) agent_run \<Rightarrow> ('rx, 'rs) agent_run \<Rightarrow> bool" where
  "same_requests a a' \<longleftrightarrow> requests_of (ar_http a') = requests_of (ar_http a) \<and> requests_of (ar_grpc a') = requests_of (ar_grpc a)"

lemma http_returns:
  assumes "main_inv lib hx a" "ar_flagged a" "matches_inside lib"
  shows "\<exists>a'. (main_step lib hx)\<^sup>*\<^sup>* a a' \<and> ar_flagged a' \<and> sv_returned (ar_http a') \<and>
    sv_returned (ar_grpc a') = sv_returned (ar_grpc a) \<and> same_requests a a'"
proof -
  let ?a = "a\<lparr>ar_http := closed (ar_http a)\<rparr>"
  have e: "app_of (ar_http a) = app_of (ar_grpc a)" using assms(1) by (simp add: main_inv_def)
  have "(main_step lib hx)\<^sup>*\<^sup>* a ?a"
  proof (cases "sv_accepting (ar_http a)")
    case True
    from mn_http[of lib hx a, OF _] close_step[OF True, of lib hx handle] assms(2) e show ?thesis
      by (fastforce simp: wait_for_shutdown_def)
  qed simp
  moreover from assms(1,3) obtain s where s: "(progress_step lib hx handle)\<^sup>*\<^sup>* (ar_http ?a) s" "sv_returned s"
      "requests_of s = requests_of (ar_http a)"
    using http.returns_after_close[of lib hx "ar_http a"] by (auto simp: main_inv_def http_serve_def)
  moreover have "(main_step lib hx)\<^sup>*\<^sup>* ?a (?a\<lparr>ar_http := s, ar_grpc := share (app_of s) (ar_grpc ?a)\<rparr>)"
    by (rule lift_http[OF s(1)]) (simp add: e)
  ultimately show ?thesis using assms(2)
    by (intro exI[of _ "?a\<lparr>ar_http := s, ar_grpc := share (app_of s) (ar_grpc ?a)\<rparr>"])
      (simp add: same_requests_def)
qed

lemma grpc_returns:
  assumes "main_inv lib hx a" "ar_flagged a" "matches_inside lib"
  shows "\<exists>a'. (main_step lib hx)\<^sup>*\<^sup>* a a' \<and> ar_flagged a' \<and> sv_returned (ar_grpc a') \<and>
    sv_returned (ar_http a') = sv_returned (ar_http a) \<and> same_requests a a'"
proof -
  let ?a = "a\<lparr>ar_grpc := closed (ar_grpc a)\<rparr>"
  have e: "app_of (ar_http a) = app_of (ar_grpc a)" using assms(1) by (simp add: main_inv_def)
  have "(main_step lib hx)\<^sup>*\<^sup>* a ?a"
  proof (cases "sv_accepting (ar_grpc a)")
    case True
    from mn_grpc[of lib hx a, OF _] close_step[OF True, of lib hx handle_grpc] assms(2) e[symmetric] show ?thesis
      by (fastforce simp: wait_for_shutdown_def)
  qed simp
  moreover from assms(1,3) obtain s where s: "(progress_step lib hx handle_grpc)\<^sup>*\<^sup>* (ar_grpc ?a) s" "sv_returned s"
      "requests_of s = requests_of (ar_grpc a)"
    using grpc.returns_after_close[of lib hx "ar_grpc a"] by (auto simp: main_inv_def grpc_serve_def)
  moreover have "(main_step lib hx)\<^sup>*\<^sup>* ?a (?a\<lparr>ar_grpc := s, ar_http := share (app_of s) (ar_http ?a)\<rparr>)"
    by (rule lift_grpc[OF s(1)]) (simp add: e)
  ultimately show ?thesis using assms(2)
    by (intro exI[of _ "?a\<lparr>ar_grpc := s, ar_http := share (app_of s) (ar_http ?a)\<rparr>"])
      (simp add: same_requests_def)
qed

lemma agent_exits:
  assumes "main_inv lib hx a" "ar_flagged a" "matches_inside lib"
  shows "\<exists>a'. (main_step lib hx)\<^sup>*\<^sup>* a a' \<and> joined a' \<noteq> None \<and> same_requests a a'"
proof -
  obtain a1 where a1: "(main_step lib hx)\<^sup>*\<^sup>* a a1" "ar_flagged a1" "sv_returned (ar_http a1)" "same_requests a a1"
    using http_returns[OF assms] by blast
  obtain a2 where a2: "(main_step lib hx)\<^sup>*\<^sup>* a1 a2" "ar_flagged a2" "sv_returned (ar_grpc a2)" "sv_returned (ar_http a2)"
    "same_requests a1 a2" using grpc_returns[OF main_steps_inv[OF a1(1) assms(1)] a1(2) assms(3)] a1(3) by blast
  have "main_step lib hx a2 (a2\<lparr>ar_flushed := True\<rparr>)" using a2(2) by (intro mn_flushed) (simp add: wait_for_shutdown_def)
  moreover have "main_step lib hx (a2\<lparr>ar_flushed := True\<rparr>) (a2\<lparr>ar_flushed := True, ar_drained := True\<rparr>)"
    using mn_drained[of "a2\<lparr>ar_flushed := True\<rparr>" lib hx] a2(2) by (simp add: wait_for_shutdown_def)
  ultimately have "(main_step lib hx)\<^sup>*\<^sup>* a (a2\<lparr>ar_flushed := True, ar_drained := True\<rparr>)"
    using a1(1) a2(1) by (meson rtranclp.rtrancl_into_rtrancl rtranclp_trans)
  with a1(4) a2 show ?thesis
    by (intro exI[of _ "a2\<lparr>ar_flushed := True, ar_drained := True\<rparr>"]) (simp add: joined_def same_requests_def)
qed

section \<open>Properties\<close>

text \<open>
  C23: How the process ends: it exits only when \<^verbatim>\<open>shutdown_signal\<close> has returned (an interrupt or a
  termination has arrived, or no handler for the interrupt could be registered), with both receivers
  returned and no request of either in progress, and then with \<^verbatim>\<open>ExitCode::SUCCESS\<close>.  Once the signal
  has come there is always a run to the exit, in which every request that was in progress on either
  transport is answered, exactly once.
\<close>

theorem agent_shutdown:
  assumes "main_run lib hx now host parallelism signals a" "matches_inside lib"
  shows "(\<forall>code. main_result a = Some code \<longrightarrow>
      code = 0 \<and> shutdown_signal (ar_signals a) \<and> open_requests (ar_http a) = [] \<and> open_requests (ar_grpc a) = []) \<and>
    (shutdown_signal (ar_signals a) \<longrightarrow> (\<exists>a'. (main_step lib hx)\<^sup>*\<^sup>* a a' \<and> main_result a' = Some 0 \<and>
      answered (ar_http a') = answered (ar_http a) + in_progress (ar_http a) \<and>
      answered (ar_grpc a') = answered (ar_grpc a) + in_progress (ar_grpc a)))"
proof -
  have idle: "open_requests (ar_http b) = [] \<and> open_requests (ar_grpc b) = [] \<and> main_result b = Some 0"
    if "main_inv lib hx b" "joined b \<noteq> None" for b :: "('a, 'b) agent_run"
    using that http.returned_idle[OF _ assms(2)] grpc.returned_idle[OF _ assms(2)]
    by (auto simp: main_inv_def http_serve_def grpc_serve_def joined_def main_result_def exit_code_def split: if_splits)
  have I: "main_inv lib hx a"
    using assms(1) main_spawn_inv main_steps_inv unfolding main_run_def by blast
  have "code = 0 \<and> shutdown_signal (ar_signals a) \<and> open_requests (ar_http a) = [] \<and> open_requests (ar_grpc a) = []" if "main_result a = Some code" for code
  proof -
    from that have j: "joined a \<noteq> None" by (auto simp: main_result_def)
    then have "shutdown_signal (ar_signals a)" using I by (auto simp: joined_def main_inv_def split: if_splits)
    with idle[OF I j] that show ?thesis by simp
  qed
  moreover have "\<exists>a'. (main_step lib hx)\<^sup>*\<^sup>* a a' \<and> main_result a' = Some 0 \<and>
      answered (ar_http a') = answered (ar_http a) + in_progress (ar_http a) \<and>
      answered (ar_grpc a') = answered (ar_grpc a) + in_progress (ar_grpc a)" if f: "shutdown_signal (ar_signals a)"
  proof -
    let ?a = "a\<lparr>ar_flagged := True\<rparr>"
    have flag: "main_step lib hx a ?a" by (rule mn_signal[OF f])
    obtain a' where "(main_step lib hx)\<^sup>*\<^sup>* ?a a'" and a'': "joined a' \<noteq> None" "same_requests ?a a'"
      using agent_exits[OF main_step_inv[OF flag I] _ assms(2)] by auto
    with flag have a': "(main_step lib hx)\<^sup>*\<^sup>* a a'" "joined a' \<noteq> None" "same_requests a a'"
      by (auto simp: same_requests_def)
    from idle[OF main_steps_inv[OF a'(1) I] a'(2)] a' show ?thesis
      by (intro exI[of _ a']) (simp add: same_requests_def requests_of_def in_progress_def)
  qed
  ultimately show ?thesis by blast
qed

theorem agent_shutdown_witness:
  "\<exists>(a :: (u8, u8 list) agent_run) a'.
     main_run byte_lib poly_hasher 0 bare_host None \<lparr>sg_ctrl_c_registered = True, sg_terminate_registered = True, sg_received = []\<rparr> a \<and>
     sg_received (ar_signals a) = [SigTerm] \<and> (main_step byte_lib poly_hasher)\<^sup>*\<^sup>* a a' \<and> main_result a' = Some 0"
proof -
  let ?sg = "\<lparr>sg_ctrl_c_registered = True, sg_terminate_registered = True, sg_received = []\<rparr>"
  obtain state where s: "startup byte_lib poly_hasher 0 bare_host = Ok state" using bare_startup by blast
  let ?a = "main_spawn ?sg state (worker_count None)"
  have "main_run byte_lib poly_hasher 0 bare_host None ?sg (?a\<lparr>ar_signals := ?sg\<lparr>sg_received := [SigTerm]\<rparr>\<rparr>)"
    unfolding main_run_def using s mn_os[of byte_lib poly_hasher ?a SigTerm] by (fastforce simp: main_spawn_def)
  with agent_shutdown[OF this byte_lib_inside] show ?thesis by (fastforce simp: shutdown_signal_def)
qed

end
