(* ===== verification/Workers.thy ===== *)
theory Workers
  imports Pool
begin

text \<open>
  The workers at the grain of their effects.  \<^verbatim>\<open>Pool.thy\<close> takes the \<^verbatim>\<open>run\<close> of a job as one step; here every
  worker of \<^verbatim>\<open>src/server.rs\<close> goes through it in the steps between its awaits: the pipeline, the outcome
  of the forward, the reservation in the spool, the file, the publication.  The steps of all workers, the
  drain, the flush and crashes of the process interleave on one shared state.

  The destination and the limit of the spool, both optional, are those of the configuration, which a
  restart reads again.  Within a step the pipeline and the metrics are taken as a whole: calls of the
  pipeline that overlap are as good as one after the other by \<^verbatim>\<open>Concurrent.thy\<close>, and the counters of the
  metrics interleave in \<^verbatim>\<open>Metrics.thy\<close>.  The directory is part of the state also when there is no spool;
  nothing touches it then.
\<close>

section \<open>Tasks\<close>

text \<open>\<open>Ended\<close> is a task that has panicked.\<close>

datatype task =
    Free
  | Started job
  | Forwarding job assembled_payload
  | Spooling job assembled_payload u64
  | Ended

text \<open>
  What the tasks share.  The last four fields record what happened: the jobs taken, the jobs lost in a
  crash, the outputs that the destination answered with success, and the replies.
\<close>

record ('rx, 'rs) node =
  nd_pipeline :: "('rx, 'rs) pipeline"
  nd_metrics :: metrics
  nd_world :: world
  nd_taken :: "job list"
  nd_lost :: "job list"
  nd_posted :: "(job \<times> assembled_payload) list"
  nd_replies :: "(job \<times> verdict) list"

primrec task_jobs :: "task \<Rightarrow> job list" where
  "task_jobs Free = []"
| "task_jobs (Started j) = [j]"
| "task_jobs (Forwarding j out) = [j]"
| "task_jobs (Spooling j out seq) = [j]"
| "task_jobs Ended = []"

primrec task_pushes :: "task \<Rightarrow> (u64 \<times> u8 list) list" where
  "task_pushes Free = []"
| "task_pushes (Started j) = []"
| "task_pushes (Forwarding j out) = []"
| "task_pushes (Spooling j out seq) = [(seq, contiguous out)]"
| "task_pushes Ended = []"

abbreviation reply :: "job \<Rightarrow> verdict \<Rightarrow> ('rx, 'rs) node \<Rightarrow> ('rx, 'rs) node" where
  "reply j v s \<equiv> s\<lparr>nd_replies := nd_replies s @ [(j, v)]\<rparr>"

section \<open>Steps\<close>

inductive task_step ::
  "('rx, 'rs) regex_lib \<Rightarrow> 'h hasher \<Rightarrow> u8 list option \<Rightarrow> u64 option \<Rightarrow>
   task \<times> ('rx, 'rs) node \<Rightarrow> task \<times> ('rx, 'rs) node \<Rightarrow> bool"
  for lib hx dest limit where
  tk_take: "length raw < 2 ^ 64 \<Longrightarrow> j = (length (nd_taken s), raw) \<Longrightarrow>
    task_step lib hx dest limit (Free, s) (Started j, s\<lparr>nd_taken := nd_taken s @ [j]\<rparr>)"
| tk_panic: "process lib hx t now (nd_pipeline s) (snd j) = None \<Longrightarrow>
    task_step lib hx dest limit (Started j, s) (Ended, reply j ForwardFailed s)"
| tk_malformed: "process lib hx t now (nd_pipeline s) (snd j) = Some (pl', res) \<Longrightarrow> ps_parse_bypassed (pr_stats res) \<Longrightarrow>
    task_step lib hx dest limit (Started j, s) (Free, reply j Malformed (s\<lparr>nd_pipeline := pl'\<rparr>))"
| tk_process: "process lib hx t now (nd_pipeline s) (snd j) = Some (pl', res) \<Longrightarrow> \<not> ps_parse_bypassed (pr_stats res) \<Longrightarrow>
    task_step lib hx dest limit (Started j, s) (Forwarding j (pr_output res),
      s\<lparr>nd_pipeline := pl', nd_metrics := metrics_record (sample_of (pr_stats res)) (nd_metrics s)\<rparr>)"
| tk_validate_only: "dest = None \<Longrightarrow>
    task_step lib hx dest limit (Forwarding j out, s) (Free, reply j Accepted s)"
| tk_forwarded: "dest = Some endpoint \<Longrightarrow> forward client endpoint out = Ok () \<Longrightarrow>
    task_step lib hx dest limit (Forwarding j out, s)
      (Free, reply j Accepted (s\<lparr>nd_posted := nd_posted s @ [(j, out)]\<rparr>))"
| tk_no_spool: "dest = Some endpoint \<Longrightarrow> forward client endpoint out \<noteq> Ok () \<Longrightarrow> limit = None \<Longrightarrow>
    task_step lib hx dest limit (Forwarding j out, s) (Free, reply j ForwardFailed s)"
| tk_full: "dest = Some endpoint \<Longrightarrow> forward client endpoint out \<noteq> Ok () \<Longrightarrow> limit = Some max_bytes \<Longrightarrow>
    push_reserve max_bytes (len64 (contiguous out)) (wd_state (nd_world s)) = Inl err \<Longrightarrow>
    task_step lib hx dest limit (Forwarding j out, s) (Free, reply j ForwardFailed s)"
| tk_reserve: "dest = Some endpoint \<Longrightarrow> forward client endpoint out \<noteq> Ok () \<Longrightarrow> limit = Some max_bytes \<Longrightarrow>
    push_reserve max_bytes (len64 (contiguous out)) (wd_state (nd_world s)) = Inr (seq, st) \<Longrightarrow>
    length (contiguous out) < 2 ^ 63 \<Longrightarrow> ss_next_seq (wd_state (nd_world s)) < - 1 \<Longrightarrow>
    task_step lib hx dest limit (Forwarding j out, s) (Spooling j out seq,
      s\<lparr>nd_world := (nd_world s)\<lparr>wd_state := st, wd_pushes := wd_pushes (nd_world s) @ [Writing seq (contiguous out)]\<rparr>\<rparr>)"
| tk_published: "i < length (wd_pushes (nd_world s)) \<Longrightarrow> wd_pushes (nd_world s) ! i = Renamed seq (contiguous out) \<Longrightarrow>
    task_step lib hx dest limit (Spooling j out seq, s) (Free, reply j Accepted
      (s\<lparr>nd_world := (nd_world s)\<lparr>wd_state := push_publish seq (len64 (contiguous out)) (wd_state (nd_world s)),
         wd_pushes := without (wd_pushes (nd_world s)) i,
         wd_accepted := wd_accepted (nd_world s) @ [(seq, contiguous out)]\<rparr>\<rparr>))"
| tk_failed: "i < length (wd_pushes (nd_world s)) \<Longrightarrow> wd_pushes (nd_world s) ! i = Writing seq (contiguous out) \<Longrightarrow>
    task_step lib hx dest limit (Spooling j out seq, s) (Free, reply j ForwardFailed
      (s\<lparr>nd_world := (nd_world s)\<lparr>wd_state := push_rollback (len64 (contiguous out)) (wd_state (nd_world s)),
         wd_pushes := without (wd_pushes (nd_world s)) i\<rparr>\<rparr>))"

text \<open>
  All tasks together.  The files of the pushes in progress and the drain move on their own; a crash takes
  all tasks, and the process that follows builds its pipeline and opens the directory.
\<close>

inductive node_step ::
  "('rx, 'rs) regex_lib \<Rightarrow> 'h hasher \<Rightarrow> u8 list option \<Rightarrow> u64 option \<Rightarrow>
   task list \<times> ('rx, 'rs) node \<Rightarrow> task list \<times> ('rx, 'rs) node \<Rightarrow> bool"
  for lib hx dest limit where
  ns_task: "i < length ts \<Longrightarrow> task_step lib hx dest limit (ts ! i, s) (t', s') \<Longrightarrow>
    node_step lib hx dest limit (ts, s) (ts[i := t'], s')"
| ns_file: "dest = Some endpoint \<Longrightarrow> limit \<noteq> None \<Longrightarrow> file_step client endpoint (nd_world s) w \<Longrightarrow>
    node_step lib hx dest limit (ts, s) (ts, s\<lparr>nd_world := w\<rparr>)"
| ns_flush: "metrics_flush window_start window_end (nd_metrics s) = (m, agg) \<Longrightarrow>
    node_step lib hx dest limit (ts, s) (ts, s\<lparr>nd_metrics := m\<rparr>)"
| ns_crash: "in_service lib hx pl \<Longrightarrow> reopened (nd_world s) w \<Longrightarrow>
    node_step lib hx dest limit (ts, s) (replicate workers Free,
      s\<lparr>nd_pipeline := pl, nd_metrics := metrics_new policy_version, nd_world := w,
        nd_lost := nd_lost s @ concat (map task_jobs ts)\<rparr>)"

definition fresh_world :: "(u8 list \<Rightarrow> u8 list option) \<Rightarrow> world" where
  "fresh_world disk = \<lparr>wd_state = \<lparr>ss_next_seq = 0, ss_total_bytes = 0, ss_pending = RBT.empty\<rparr>, wd_disk = disk,
     wd_pushes = [], wd_draining = None, wd_accepted = [], wd_delivered = []\<rparr>"

inductive node_reach ::
  "('rx, 'rs) regex_lib \<Rightarrow> 'h hasher \<Rightarrow> u8 list option \<Rightarrow> u64 option \<Rightarrow> task list \<times> ('rx, 'rs) node \<Rightarrow> bool"
  for lib hx dest limit where
  nr_start: "in_service lib hx pl \<Longrightarrow> reopened (fresh_world disk) w \<Longrightarrow> \<forall>x. disk (otlp_name x) \<noteq> None \<longrightarrow> x < - 1 \<Longrightarrow>
    node_reach lib hx dest limit (replicate workers Free,
      \<lparr>nd_pipeline = pl, nd_metrics = metrics_new policy_version, nd_world = w, nd_taken = [], nd_lost = [],
       nd_posted = [], nd_replies = []\<rparr>)"
| nr_step: "node_reach lib hx dest limit n \<Longrightarrow> node_step lib hx dest limit n n' \<Longrightarrow> node_reach lib hx dest limit n'"

section \<open>Invariants\<close>

text \<open>The output of a job, by a pipeline in service; where an accepted output is; and what a reply says.\<close>

definition produced :: "('rx, 'rs) regex_lib \<Rightarrow> 'h hasher \<Rightarrow> job \<Rightarrow> assembled_payload \<Rightarrow> bool" where
  "produced lib hx j out \<longleftrightarrow> length (snd j) < 2 ^ 64 \<and>
     (\<exists>t now pl pl' res. in_service lib hx pl \<and> process lib hx t now pl (snd j) = Some (pl', res) \<and>
        \<not> ps_parse_bypassed (pr_stats res) \<and> pr_output res = out)"

definition kept_by :: "u8 list option \<Rightarrow> ('rx, 'rs) node \<Rightarrow> job \<Rightarrow> assembled_payload \<Rightarrow> bool" where
  "kept_by dest s j out \<longleftrightarrow> dest = None \<or> (j, out) \<in> set (nd_posted s) \<or>
     (\<exists>seq. (seq, contiguous out) \<in> set (wd_accepted (nd_world s)))"

definition reply_ok ::
  "('rx, 'rs) regex_lib \<Rightarrow> 'h hasher \<Rightarrow> u8 list option \<Rightarrow> u64 option \<Rightarrow> ('rx, 'rs) node \<Rightarrow> job \<Rightarrow> verdict \<Rightarrow> bool" where
  "reply_ok lib hx dest limit s j v \<longleftrightarrow>
     (\<exists>t now client publish_file app app' pl' res. in_service lib hx (as_pipeline app) \<and> as_forward_endpoint app = dest \<and>
        map_option fst (as_spool app) = limit \<and> run lib hx t now client publish_file app (snd j) = Some (app', v) \<and>
        process lib hx t now (as_pipeline app) (snd j) = Some (pl', res) \<and> (v = Accepted \<longrightarrow> kept_by dest s j (pr_output res)))"

primrec task_ok :: "('rx, 'rs) regex_lib \<Rightarrow> 'h hasher \<Rightarrow> u8 list option \<Rightarrow> u64 option \<Rightarrow> task \<Rightarrow> bool" where
  "task_ok lib hx dest limit Free = True"
| "task_ok lib hx dest limit (Started j) = (length (snd j) < 2 ^ 64)"
| "task_ok lib hx dest limit (Forwarding j out) = produced lib hx j out"
| "task_ok lib hx dest limit (Spooling j out seq) =
     (produced lib hx j out \<and> (\<exists>client endpoint max_bytes st r. dest = Some endpoint \<and> limit = Some max_bytes \<and>
        forward client endpoint out \<noteq> Ok () \<and> push_reserve max_bytes (len64 (contiguous out)) st = Inr r))"
| "task_ok lib hx dest limit Ended = False"

definition push_id :: "push \<Rightarrow> u64 \<times> u8 list" where
  "push_id p = (push_seq p, push_payload p)"

definition answered_by :: "u8 list option \<Rightarrow> assembled_payload \<Rightarrow> bool" where
  "answered_by dest out \<longleftrightarrow> (\<exists>client endpoint. dest = Some endpoint \<and> forward client endpoint out = Ok ())"

definition node_inv ::
  "('rx, 'rs) regex_lib \<Rightarrow> 'h hasher \<Rightarrow> u8 list option \<Rightarrow> u64 option \<Rightarrow> task list \<Rightarrow> ('rx, 'rs) node \<Rightarrow> bool" where
  "node_inv lib hx dest limit ts s \<longleftrightarrow>
     in_service lib hx (nd_pipeline s) \<and> world_ok (nd_world s) \<and> list_all (task_ok lib hx dest limit) ts \<and>
     mset (map push_id (wd_pushes (nd_world s))) = mset (concat (map task_pushes ts)) \<and>
     mset (nd_taken s) = mset (concat (map task_jobs ts)) + mset (nd_lost s) + mset (map fst (nd_replies s)) \<and>
     map fst (nd_taken s) = [0..<length (nd_taken s)] \<and>
     (\<forall>(j, v) \<in> set (nd_replies s). reply_ok lib hx dest limit s j v) \<and>
     (\<forall>(j, out) \<in> set (nd_posted s). answered_by dest out) \<and>
     (\<forall>(seq, b) \<in> set (wd_delivered (nd_world s)). answered_by dest (passthrough b))"

text \<open>Taken as a whole: the state of the application that the run of a job sees.\<close>

definition node_app :: "u8 list option \<Rightarrow> u64 option \<Rightarrow> ('rx, 'rs) pipeline \<Rightarrow> spool_state \<Rightarrow> ('rx, 'rs) app_state" where
  "node_app dest limit pl st =
     \<lparr>as_pipeline = pl, as_forward_endpoint = dest, as_metrics = metrics_new 0, as_spool = map_option (\<lambda>m. (m, st)) limit,
      as_channel_capacity = 1\<rparr>"

lemma produced_reply:
  fixes lib :: "('rx, 'rs) regex_lib"
  assumes "produced lib hx j out"
    and "\<And>(pl :: ('rx, 'rs) pipeline) m. snd (forward_or_spool client publish_file out (node_app dest limit pl st\<lparr>as_metrics := m\<rparr>)) = v"
    and "v = Accepted \<Longrightarrow> kept_by dest s j out"
  shows "reply_ok lib hx dest limit s j v"
proof -
  obtain t now pl pl' res where p: "in_service lib hx pl" "process lib hx t now pl (snd j) = Some (pl', res)"
    "\<not> ps_parse_bypassed (pr_stats res)" "pr_output res = out" using assms(1) unfolding produced_def by blast
  let ?app = "node_app dest limit pl st"
  let ?m = "metrics_record (sample_of (pr_stats res)) (metrics_new 0)"
  have "run lib hx t now client publish_file ?app (snd j) =
      Some (fst (forward_or_spool client publish_file out (node_app dest limit pl' st\<lparr>as_metrics := ?m\<rparr>)), v)"
    using p assms(2)[of ?m pl'] by (simp add: run_def node_app_def Let_def prod_eq_iff)
  moreover have "map_option fst (as_spool ?app) = limit" by (cases limit) (simp_all add: node_app_def)
  ultimately show ?thesis
    unfolding reply_ok_def using p assms(3) by (intro exI[of _ ?app] exI conjI) (auto simp: node_app_def)
qed

lemma reply_ok_mono:
  "reply_ok lib hx dest limit s j v \<Longrightarrow> set (nd_posted s) \<subseteq> set (nd_posted s') \<Longrightarrow>
     set (wd_accepted (nd_world s)) \<subseteq> set (wd_accepted (nd_world s')) \<Longrightarrow> reply_ok lib hx dest limit s' j v"
  unfolding reply_ok_def kept_by_def by (elim exE conjE, intro exI conjI; (assumption | blast))

section \<open>The steps of a task\<close>

lemma task_spool_step:
  assumes "task_step lib hx dest limit (t, s) (t', s')"
  shows "nd_world s' = nd_world s \<or>
    (\<exists>max_bytes client endpoint. (limit = Some max_bytes \<or> max_bytes = 0) \<and> spool_step max_bytes client endpoint (nd_world s) (nd_world s'))"
  using assms
proof cases
  case (tk_reserve endpoint client out max_bytes seq st j)
  from st_reserve[OF tk_reserve(7-9)] tk_reserve(3,6) show ?thesis by auto
qed (auto intro: st_publish st_fail)

lemma mset_without: "i < length xs \<Longrightarrow> image_mset f (mset xs) = add_mset (f (xs ! i)) (image_mset f (mset (without xs i)))"
  by (subst id_take_nth_drop[of i xs]) (simp_all add: without_def)

text \<open>A task's pushes and jobs are its share of the state.\<close>

lemma task_step_pushes:
  assumes "task_step lib hx dest limit (t, s) (t', s')"
  shows "mset (map push_id (wd_pushes (nd_world s'))) + mset (task_pushes t) =
    mset (map push_id (wd_pushes (nd_world s))) + mset (task_pushes t')"
  using assms by cases (auto simp: push_id_def dest!: mset_without[of _ _ push_id])

lemma task_step_jobs:
  assumes "task_step lib hx dest limit (t, s) (t', s')"
  shows "mset (nd_taken s') + mset (task_jobs t) + mset (map fst (nd_replies s)) =
    mset (nd_taken s) + mset (task_jobs t') + mset (map fst (nd_replies s')) \<and> nd_lost s' = nd_lost s \<and>
    (map fst (nd_taken s) = [0..<length (nd_taken s)] \<longrightarrow> map fst (nd_taken s') = [0..<length (nd_taken s')])"
  using assms by cases auto

lemma task_step_mono:
  assumes "task_step lib hx dest limit (t, s) (t', s')"
  shows "set (nd_posted s) \<subseteq> set (nd_posted s') \<and> set (wd_accepted (nd_world s)) \<subseteq> set (wd_accepted (nd_world s')) \<and>
    wd_delivered (nd_world s') = wd_delivered (nd_world s) \<and>
    (\<forall>(j, out) \<in> set (nd_posted s'). (j, out) \<in> set (nd_posted s) \<or> answered_by dest out)"
  using assms by cases (auto simp: answered_by_def)

lemma no_panic: "length raw < 2 ^ 64 \<Longrightarrow> matches_inside lib \<Longrightarrow> process lib hx t now pl raw \<noteq> None"
  by (rule process_total[of raw lib hx t now pl]) simp_all

lemma task_step_ok:
  assumes "task_step lib hx dest limit (t, s) (t', s')" "matches_inside lib" "in_service lib hx (nd_pipeline s)"
    and "task_ok lib hx dest limit t"
  shows "task_ok lib hx dest limit t' \<and> in_service lib hx (nd_pipeline s')"
  using assms(1)
proof cases
  case (tk_panic t0 now j)
  have "length (snd j) < 2 ^ 64" using assms(4) tk_panic(1) by simp
  with no_panic[OF _ assms(2)] tk_panic(4) show ?thesis by blast
next
  case (tk_malformed t0 now j pl' res)
  with assms(3,4) show ?thesis by (auto intro: served)
next
  case (tk_process t0 now j pl' res)
  moreover have "length (snd j) < 2 ^ 64" using assms(4) tk_process(1) by simp
  ultimately have "produced lib hx j (pr_output res)" using assms(3) unfolding produced_def by blast
  with tk_process assms(3,4) show ?thesis by (auto intro: served)
qed (use assms(3,4) in auto)

text \<open>What a task replies is the verdict of a run.\<close>

lemma malformed_reply:
  assumes "in_service lib hx (nd_pipeline s)" "process lib hx t now (nd_pipeline s) (snd j) = Some (pl', res)" "ps_parse_bypassed (pr_stats res)"
  shows "reply_ok lib hx dest limit s' j Malformed"
proof -
  let ?app = "node_app dest limit (nd_pipeline s) (wd_state (nd_world s'))"
  have "run lib hx t now undefined undefined ?app (snd j) = Some (?app\<lparr>as_pipeline := pl'\<rparr>, Malformed)"
    using assms(2,3) by (simp add: run_def node_app_def Let_def)
  moreover have "map_option fst (as_spool ?app) = limit" by (cases limit) (simp_all add: node_app_def)
  ultimately show ?thesis
    unfolding reply_ok_def using assms(1,2) by (intro exI[of _ ?app] exI conjI) (auto simp: node_app_def)
qed

lemma task_step_replies:
  assumes "task_step lib hx dest limit (t, s) (t', s')" "matches_inside lib" "in_service lib hx (nd_pipeline s)"
    and "task_ok lib hx dest limit t"
  shows "\<forall>(j, v) \<in> set (nd_replies s'). (j, v) \<in> set (nd_replies s) \<or> reply_ok lib hx dest limit s' j v"
  using assms(1)
proof cases
  case (tk_panic t0 now j)
  have "length (snd j) < 2 ^ 64" using assms(4) tk_panic(1) by simp
  with no_panic[OF _ assms(2)] tk_panic(4) show ?thesis by blast
next
  case (tk_malformed t0 now j pl' res)
  with malformed_reply[OF assms(3)] show ?thesis by auto
next
  case (tk_validate_only j out)
  then have "reply_ok lib hx dest limit s' j Accepted"
    using assms(4) by (intro produced_reply[where out = out]) (auto simp: forward_or_spool_def node_app_def kept_by_def)
  with tk_validate_only show ?thesis by auto
next
  case (tk_forwarded endpoint client out j)
  then have "reply_ok lib hx dest limit s' j Accepted"
    using assms(4) by (intro produced_reply[where out = out and client = client]) (auto simp: forward_or_spool_def node_app_def kept_by_def)
  with tk_forwarded show ?thesis by auto
next
  case (tk_no_spool endpoint client out j)
  then have "reply_ok lib hx dest limit s' j ForwardFailed"
    using assms(4) by (intro produced_reply[where out = out and client = client])
      (auto simp: forward_or_spool_def node_app_def split: result.splits)
  with tk_no_spool show ?thesis by auto
next
  case (tk_full endpoint client out max_bytes err j)
  then have "reply_ok lib hx dest limit s' j ForwardFailed"
    using assms(4) by (intro produced_reply[where out = out and client = client and st = "wd_state (nd_world s)"])
      (auto simp: forward_or_spool_def node_app_def spool_push_def split: result.splits)
  with tk_full show ?thesis by auto
next
  case (tk_published i seq out j)
  then obtain client endpoint max_bytes st r where "produced lib hx j out" "dest = Some endpoint" "limit = Some max_bytes"
      "forward client endpoint out \<noteq> Ok ()" "push_reserve max_bytes (len64 (contiguous out)) st = Inr r"
    using assms(4) by auto
  then have "reply_ok lib hx dest limit s' j Accepted"
    using tk_published by (intro produced_reply[where out = out and client = client and st = st and publish_file = "\<lambda>_ _. Inr ()"])
      (auto simp: forward_or_spool_def node_app_def spool_push_def kept_by_def split: result.splits prod.splits)
  with tk_published show ?thesis by auto
next
  case (tk_failed i seq out j)
  then obtain client endpoint max_bytes st r where "produced lib hx j out" "dest = Some endpoint" "limit = Some max_bytes"
      "forward client endpoint out \<noteq> Ok ()" "push_reserve max_bytes (len64 (contiguous out)) st = Inr r"
    using assms(4) by auto
  then have "reply_ok lib hx dest limit s' j ForwardFailed"
    using tk_failed by (intro produced_reply[where out = out and client = client and st = st and publish_file = "\<lambda>_ _. Inl []"])
      (auto simp: forward_or_spool_def node_app_def spool_push_def split: result.splits prod.splits)
  with tk_failed show ?thesis by auto
qed auto

section \<open>All tasks\<close>

lemma concat_update:
  "i < length ts \<Longrightarrow> mset (concat (map f (ts[i := t]))) + mset (f (ts ! i)) = mset (concat (map f ts)) + mset (f t)"
  by (subst (3) id_take_nth_drop[of i ts]) (simp_all add: upd_conv_take_nth_drop)

lemma balance:
  assumes "(a :: 'a multiset) + x + r = b + y + r'" "c + x = d + y" "b = d + l + r"
  shows "a = c + l + r'"
proof (rule multiset_eqI)
  fix z
  have "count (a + x + r) z = count (b + y + r') z" "count (c + x) z = count (d + y) z" "count b z = count (d + l + r) z"
    by (simp_all only: assms)
  then show "count a z = count (c + l + r') z" by simp
qed

lemma task_step_inv:
  assumes "task_step lib hx dest limit (ts ! i, s) (t', s')" "i < length ts" "node_inv lib hx dest limit ts s"
    and "matches_inside lib" "\<forall>m. limit = Some m \<longrightarrow> unat m < 2 ^ 63"
  shows "node_inv lib hx dest limit (ts[i := t']) s'"
proof -
  have I: "in_service lib hx (nd_pipeline s)" "world_ok (nd_world s)" "list_all (task_ok lib hx dest limit) ts"
    and r: "\<forall>(j, v) \<in> set (nd_replies s). reply_ok lib hx dest limit s j v"
    using assms(3) by (simp_all add: node_inv_def)
  from I(3) assms(2) have t: "task_ok lib hx dest limit (ts ! i)" by (simp add: list_all_length)
  note ok = task_step_ok[OF assms(1,4) I(1) t]
  have "world_ok (nd_world s')"
    using task_spool_step[OF assms(1)] I(2) assms(5) step_ok[OF _ I(2)] by (metis unat_0 zero_less_numeral zero_less_power)
  moreover have "list_all (task_ok lib hx dest limit) (ts[i := t'])"
    using I(3) ok assms(2) set_update_subset_insert[of ts i t'] by (auto simp: list_all_iff)
  moreover have "reply_ok lib hx dest limit s' j v" if "(j, v) \<in> set (nd_replies s')" for j v
    using that task_step_replies[OF assms(1,4) I(1) t] r task_step_mono[OF assms(1)] reply_ok_mono[of lib hx dest limit s j v s'] by blast
  moreover have "mset (map push_id (wd_pushes (nd_world s'))) = mset (concat (map task_pushes (ts[i := t'])))"
    using task_step_pushes[OF assms(1)] concat_update[OF assms(2), of task_pushes t'] assms(3)
    by (simp add: node_inv_def) (metis (no_types, lifting) add_right_cancel union_commute)
  moreover have "mset (nd_taken s') = mset (concat (map task_jobs (ts[i := t']))) + mset (nd_lost s') + mset (map fst (nd_replies s'))"
  proof (rule balance)
    show "mset (nd_taken s') + mset (task_jobs (ts ! i)) + mset (map fst (nd_replies s)) =
      mset (nd_taken s) + mset (task_jobs t') + mset (map fst (nd_replies s'))"
      using task_step_jobs[OF assms(1)] by blast
    show "mset (nd_taken s) = mset (concat (map task_jobs ts)) + mset (nd_lost s') + mset (map fst (nd_replies s))"
      using task_step_jobs[OF assms(1)] assms(3) by (simp add: node_inv_def)
  qed (rule concat_update[OF assms(2)])
  moreover have "map fst (nd_taken s') = [0..<length (nd_taken s')]"
    using task_step_jobs[OF assms(1)] assms(3) by (simp add: node_inv_def)
  moreover have "\<forall>(j, out) \<in> set (nd_posted s'). answered_by dest out"
    "\<forall>(seq, b) \<in> set (wd_delivered (nd_world s')). answered_by dest (passthrough b)"
    using task_step_mono[OF assms(1)] assms(3) by (auto simp: node_inv_def)
  ultimately show ?thesis using ok unfolding node_inv_def by blast
qed

text \<open>The other steps.\<close>

lemma file_step_frame:
  assumes "file_step client endpoint w w'"
  shows "map push_id (wd_pushes w') = map push_id (wd_pushes w) \<and> wd_accepted w' = wd_accepted w"
  using assms by cases (auto simp: push_id_def map_update list_update_same_conv)

lemma node_inv_world:
  assumes "node_inv lib hx dest limit ts s" "world_ok w" "mset (map push_id (wd_pushes w)) = mset (map push_id (wd_pushes (nd_world s)))"
    and "set (wd_accepted (nd_world s)) \<subseteq> set (wd_accepted w)" "\<forall>(seq, b) \<in> set (wd_delivered w). answered_by dest (passthrough b)"
  shows "node_inv lib hx dest limit ts (s\<lparr>nd_world := w\<rparr>)"
proof -
  have "reply_ok lib hx dest limit (s\<lparr>nd_world := w\<rparr>) j v" if "reply_ok lib hx dest limit s j v" for j v
    using reply_ok_mono[OF that, of "s\<lparr>nd_world := w\<rparr>"] assms(4) by simp
  with assms show ?thesis unfolding node_inv_def by auto
qed

lemma reply_ok_frame:
  "nd_posted s' = nd_posted s \<Longrightarrow> wd_accepted (nd_world s') = wd_accepted (nd_world s) \<Longrightarrow>
     reply_ok lib hx dest limit s' j v = reply_ok lib hx dest limit s j v"
  by (simp add: reply_ok_def kept_by_def)

lemma free_tasks [simp]:
  "concat (map task_jobs (replicate n Free)) = []" "concat (map task_pushes (replicate n Free)) = []"
  "list_all (task_ok lib hx dest limit) (replicate n Free)"
  by (simp_all add: list_all_length)

lemma crash_inv:
  assumes "node_inv lib hx dest limit ts s" "in_service lib hx pl" "reopened (nd_world s) w"
  shows "node_inv lib hx dest limit (replicate workers Free)
    (s\<lparr>nd_pipeline := pl, nd_metrics := m, nd_world := w, nd_lost := nd_lost s @ concat (map task_jobs ts)\<rparr>)"
proof -
  have w: "wd_pushes w = []" "wd_accepted w = wd_accepted (nd_world s)" "wd_delivered w = wd_delivered (nd_world s)"
    using assms(3) by (auto simp: reopened_def)
  have "world_ok w" using ok_reopened[OF assms(3)] assms(1) by (simp add: node_inv_def)
  with assms w show ?thesis
    using reply_ok_frame[of "s\<lparr>nd_pipeline := pl, nd_metrics := m, nd_world := w, nd_lost := nd_lost s @ concat (map task_jobs ts)\<rparr>" s lib hx dest limit]
    unfolding node_inv_def by auto
qed

lemma node_step_inv:
  assumes "node_step lib hx dest limit (ts, s) (ts', s')" "node_inv lib hx dest limit ts s"
    and "matches_inside lib" "\<forall>m. limit = Some m \<longrightarrow> unat m < 2 ^ 63"
  shows "node_inv lib hx dest limit ts' s'"
  using assms(1)
proof cases
  case (ns_task i t')
  with task_step_inv[OF ns_task(3,2) assms(2-4)] show ?thesis by simp
next
  case (ns_file endpoint client w)
  have w: "world_ok (nd_world s)" and d: "\<forall>(seq, b) \<in> set (wd_delivered (nd_world s)). answered_by dest (passthrough b)"
    using assms(2) by (auto simp: node_inv_def)
  have "\<forall>(seq, b) \<in> set (wd_delivered w). answered_by dest (passthrough b)"
    using file_step_delivered[OF ns_file(5)] d ns_file(3) by (fastforce simp: answered_by_def)
  with node_inv_world[OF assms(2) ok_file_step[OF ns_file(5) w]] file_step_frame[OF ns_file(5)] ns_file(1,2)
  show ?thesis by simp
next
  case (ns_flush window_start window_end m agg)
  with assms(2) show ?thesis using reply_ok_frame[of "s\<lparr>nd_metrics := m\<rparr>" s lib hx dest limit] by (simp add: node_inv_def)
next
  case (ns_crash pl w workers policy_version)
  with crash_inv[OF assms(2) ns_crash(3,4)] show ?thesis by simp
qed

lemma node_reach_inv:
  assumes "node_reach lib hx dest limit n" "matches_inside lib" "\<forall>m. limit = Some m \<longrightarrow> unat m < 2 ^ 63"
  shows "node_inv lib hx dest limit (fst n) (snd n)"
  using assms(1)
proof induction
  case (nr_start pl disk w workers policy_version)
  from nr_start(2) obtain names st removed where O: "distinct names" "set names = dom disk" "spool_open (disk_len disk) names = Inr st"
    "removed \<subseteq> set (swept names)" "weight (ss_pending st) < 2 ^ 63"
    and w: "w = (fresh_world disk)\<lparr>wd_state := st, wd_disk := disk |` (- removed), wd_pushes := [], wd_draining := None\<rparr>"
    by (auto simp: reopened_def fresh_world_def)
  have "world_ok w"
    by (rule ok_opened[OF O(3,1,2) nr_start(3) O(5,4)]) (simp_all add: w fresh_world_def)
  with nr_start(1) show ?case by (simp add: node_inv_def w fresh_world_def)
next
  case (nr_step n n')
  with node_step_inv[OF _ _ assms(2,3), of hx dest "fst n" "snd n" "fst n'" "snd n'"] show ?case by simp
qed

section \<open>Every job is answered\<close>

lemma spooling_in_progress:
  assumes "node_inv lib hx dest limit ts s" "i < length ts" "ts ! i = Spooling j out seq"
  obtains k where "k < length (wd_pushes (nd_world s))" "push_id (wd_pushes (nd_world s) ! k) = (seq, contiguous out)"
proof -
  have "ts ! i \<in> set ts" using assms(2) by simp
  then have "(seq, contiguous out) \<in> set (concat (map task_pushes ts))" using assms(3) by force
  then have "(seq, contiguous out) \<in> set (map push_id (wd_pushes (nd_world s)))"
    using assms(1) unfolding node_inv_def by (metis mset_eq_setD)
  with that show thesis by (auto simp: in_set_conv_nth)
qed

lemma finish_renamed:
  assumes "i < length ts" "ts ! i = Spooling j out seq" "k < length (wd_pushes (nd_world s))"
    and "wd_pushes (nd_world s) ! k = Renamed seq (contiguous out)"
  shows "\<exists>s'. node_step lib hx dest limit (ts, s) (ts[i := Free], s') \<and> nd_taken s' = nd_taken s \<and> nd_lost s' = nd_lost s \<and>
    nd_replies s' = nd_replies s @ [(j, Accepted)]"
  using ns_task[OF assms(1) tk_published[OF assms(3,4), of lib hx dest limit j, folded assms(2)]] by fastforce

lemma finish_spooling:
  assumes I: "node_inv lib hx dest limit ts s" and i: "i < length ts" "ts ! i = Spooling j out seq"
  shows "\<exists>s'. (node_step lib hx dest limit)\<^sup>*\<^sup>* (ts, s) (ts[i := Free], s') \<and> nd_taken s' = nd_taken s \<and> nd_lost s' = nd_lost s \<and>
    nd_replies s' = nd_replies s @ [(j, Accepted)]"
proof -
  obtain k where k: "k < length (wd_pushes (nd_world s))" "push_id (wd_pushes (nd_world s) ! k) = (seq, contiguous out)"
    by (rule spooling_in_progress[OF I i])
  have "task_ok lib hx dest limit (ts ! i)" using I i(1) by (simp add: node_inv_def list_all_length)
  then obtain endpoint where d: "dest = Some endpoint" "limit \<noteq> None" using i(2) by auto
  show ?thesis
  proof (cases "wd_pushes (nd_world s) ! k")
    case (Renamed q b)
    with k have "wd_pushes (nd_world s) ! k = Renamed seq (contiguous out)" by (simp add: push_id_def)
    from finish_renamed[OF i k(1) this] show ?thesis by blast
  next
    case (Writing q b)
    with k have p: "wd_pushes (nd_world s) ! k = Writing seq (contiguous out)" by (simp add: push_id_def)
    let ?w1 = "(nd_world s)\<lparr>wd_disk := (wd_disk (nd_world s))(tmp_name seq \<mapsto> contiguous out)\<rparr>"
    let ?w2 = "?w1\<lparr>wd_disk := (wd_disk ?w1)(tmp_name seq := None, otlp_name seq \<mapsto> contiguous out),
      wd_pushes := (wd_pushes ?w1)[k := Renamed seq (contiguous out)]\<rparr>"
    have m: "Writing seq (contiguous out) \<in> set (wd_pushes (nd_world s))" using k(1) p nth_mem by metis
    have 1: "node_step lib hx dest limit (ts, s) (ts, s\<lparr>nd_world := ?w1\<rparr>)" by (rule ns_file[OF d fl_write[OF m]])
    have "file_step client endpoint ?w1 ?w2" for client by (rule fl_rename) (use k(1) p in simp_all)
    with ns_file[OF d, of _ "s\<lparr>nd_world := ?w1\<rparr>" ?w2 lib hx ts]
    have 2: "node_step lib hx dest limit (ts, s\<lparr>nd_world := ?w1\<rparr>) (ts, s\<lparr>nd_world := ?w2\<rparr>)" by simp
    from finish_renamed[OF i, of k "s\<lparr>nd_world := ?w2\<rparr>" lib hx dest limit] k(1) obtain s' where
      "node_step lib hx dest limit (ts, s\<lparr>nd_world := ?w2\<rparr>) (ts[i := Free], s')" "nd_taken s' = nd_taken s" "nd_lost s' = nd_lost s"
      "nd_replies s' = nd_replies s @ [(j, Accepted)]" by auto
    with 1 2 show ?thesis by (meson converse_rtranclp_into_rtranclp r_into_rtranclp)
  qed
qed

text \<open>A destination that answers with success, or none.\<close>

definition reachable_dest :: "u8 list option \<Rightarrow> bool" where
  "reachable_dest dest \<longleftrightarrow> (\<forall>endpoint out. dest = Some endpoint \<longrightarrow> (\<exists>client. forward client endpoint out = Ok ()))"

lemma finish_forwarding:
  assumes "reachable_dest dest" "i < length ts" "ts ! i = Forwarding j out"
  shows "\<exists>s'. node_step lib hx dest limit (ts, s) (ts[i := Free], s') \<and> nd_taken s' = nd_taken s \<and> nd_lost s' = nd_lost s \<and>
    nd_replies s' = nd_replies s @ [(j, Accepted)]"
proof (cases dest)
  case None
  from ns_task[OF assms(2) tk_validate_only[OF this, of lib hx limit j out s, folded assms(3)]] show ?thesis by fastforce
next
  case (Some endpoint)
  with assms(1) obtain client where f: "forward client endpoint out = Ok ()" by (auto simp: reachable_dest_def)
  from ns_task[OF assms(2) tk_forwarded[OF Some f, of lib hx limit j s, folded assms(3)]] show ?thesis by fastforce
qed

lemma finish_started:
  assumes "reachable_dest dest" "matches_inside lib" "length (snd j) < 2 ^ 64" "i < length ts" "ts ! i = Started j"
  shows "\<exists>s' v. (node_step lib hx dest limit)\<^sup>*\<^sup>* (ts, s) (ts[i := Free], s') \<and> nd_taken s' = nd_taken s \<and> nd_lost s' = nd_lost s \<and>
    nd_replies s' = nd_replies s @ [(j, v)] \<and> v \<noteq> ForwardFailed"
proof -
  obtain pl' res where p: "process lib hx 0 0 (nd_pipeline s) (snd j) = Some (pl', res)" by (rule process_total[OF assms(3,2)])
  show ?thesis
  proof (cases "ps_parse_bypassed (pr_stats res)")
    case True
    from ns_task[OF assms(4) tk_malformed[OF p True, of dest limit, folded assms(5)]] show ?thesis
      by (intro exI[of _ "reply j Malformed (s\<lparr>nd_pipeline := pl'\<rparr>)"] exI[of _ Malformed]) auto
  next
    case False
    let ?s = "s\<lparr>nd_pipeline := pl', nd_metrics := metrics_record (sample_of (pr_stats res)) (nd_metrics s)\<rparr>"
    let ?ts = "ts[i := Forwarding j (pr_output res)]"
    have 1: "node_step lib hx dest limit (ts, s) (?ts, ?s)"
      by (rule ns_task[OF assms(4) tk_process[OF p False, of dest limit, folded assms(5)]])
    from finish_forwarding[OF assms(1), of i ?ts j "pr_output res" lib hx limit ?s] assms(4) obtain s' where
      "node_step lib hx dest limit (?ts, ?s) (ts[i := Free], s')" "nd_taken s' = nd_taken s" "nd_lost s' = nd_lost s"
      "nd_replies s' = nd_replies s @ [(j, Accepted)]" by auto
    with 1 show ?thesis by (intro exI[of _ s'] exI[of _ Accepted]) (auto intro: converse_rtranclp_into_rtranclp)
  qed
qed

lemma finish_task:
  assumes "node_inv lib hx dest limit ts s" "matches_inside lib" "reachable_dest dest" "i < length ts" "ts ! i \<noteq> Free"
  shows "\<exists>s' j v. (node_step lib hx dest limit)\<^sup>*\<^sup>* (ts, s) (ts[i := Free], s') \<and> nd_taken s' = nd_taken s \<and> nd_lost s' = nd_lost s \<and>
    nd_replies s' = nd_replies s @ [(j, v)] \<and> v \<noteq> ForwardFailed"
proof -
  have "task_ok lib hx dest limit (ts ! i)" using assms(1,4) by (simp add: node_inv_def list_all_length)
  then show ?thesis
  proof (cases "ts ! i")
    case (Started j)
    with finish_started[OF assms(3,2) _ assms(4) Started, of hx limit s] \<open>task_ok lib hx dest limit (ts ! i)\<close> show ?thesis by auto
  next
    case (Forwarding j out)
    with finish_forwarding[OF assms(3,4) Forwarding, of lib hx limit s] show ?thesis by (blast intro: r_into_rtranclp)
  next
    case (Spooling j out seq)
    with finish_spooling[OF assms(1,4) Spooling] show ?thesis by blast
  qed (use assms(5) in auto)
qed

lemma node_steps_inv:
  "(node_step lib hx dest limit)\<^sup>*\<^sup>* n n' \<Longrightarrow> node_inv lib hx dest limit (fst n) (snd n) \<Longrightarrow> matches_inside lib \<Longrightarrow>
     \<forall>m. limit = Some m \<longrightarrow> unat m < 2 ^ 63 \<Longrightarrow> node_inv lib hx dest limit (fst n') (snd n')"
proof (induction rule: rtranclp_induct)
  case (step n1 n2)
  then show ?case using node_step_inv[of lib hx dest limit "fst n1" "snd n1" "fst n2" "snd n2"] by simp
qed simp

lemma finish_all:
  assumes "node_inv lib hx dest limit ts s" "matches_inside lib" "\<forall>m. limit = Some m \<longrightarrow> unat m < 2 ^ 63" "reachable_dest dest"
  shows "\<exists>s' new. (node_step lib hx dest limit)\<^sup>*\<^sup>* (ts, s) (replicate (length ts) Free, s') \<and> nd_taken s' = nd_taken s \<and>
    nd_lost s' = nd_lost s \<and> nd_replies s' = nd_replies s @ new \<and> (\<forall>(j, v) \<in> set new. v \<noteq> ForwardFailed)"
  using assms(1)
proof (induction "length (filter (\<lambda>t. t \<noteq> Free) ts)" arbitrary: ts s rule: less_induct)
  case less
  show ?case
  proof (cases "\<exists>i < length ts. ts ! i \<noteq> Free")
    case False
    then have "ts = replicate (length ts) Free" by (simp add: list_eq_iff_nth_eq)
    then show ?thesis by (intro exI[of _ s] exI[of _ "[]"]) simp
  next
    case True
    then obtain i where i: "i < length ts" "ts ! i \<noteq> Free" by blast
    from finish_task[OF less.prems assms(2,4) i] obtain s1 j v where s1: "(node_step lib hx dest limit)\<^sup>*\<^sup>* (ts, s) (ts[i := Free], s1)"
      "nd_taken s1 = nd_taken s" "nd_lost s1 = nd_lost s" "nd_replies s1 = nd_replies s @ [(j, v)]" "v \<noteq> ForwardFailed" by blast
    have "length (filter (\<lambda>t. t \<noteq> Free) (ts[i := Free])) < length (filter (\<lambda>t. t \<noteq> Free) ts)"
      using i by (subst (2) id_take_nth_drop[of i ts]) (simp_all add: upd_conv_take_nth_drop)
    moreover have "node_inv lib hx dest limit (ts[i := Free]) s1"
      using node_steps_inv[OF s1(1) _ assms(2,3)] less.prems by simp
    ultimately obtain s' new where "(node_step lib hx dest limit)\<^sup>*\<^sup>* (ts[i := Free], s1) (replicate (length (ts[i := Free])) Free, s')"
      "nd_taken s' = nd_taken s1" "nd_lost s' = nd_lost s1" "nd_replies s' = nd_replies s1 @ new" "\<forall>(j, v) \<in> set new. v \<noteq> ForwardFailed"
      using less.hyps by blast
    with s1 show ?thesis by (intro exI[of _ s'] exI[of _ "(j, v) # new"]) (auto intro: rtranclp_trans)
  qed
qed

section \<open>Properties\<close>

text \<open>Where an accepted output is, now and for ever.\<close>

definition still_safe :: "u8 list option \<Rightarrow> ('rx, 'rs) node \<Rightarrow> assembled_payload \<Rightarrow> bool" where
  "still_safe dest s out \<longleftrightarrow>
     dest = None \<or> answered_by dest out \<or>
     (\<exists>seq. (seq, contiguous out) \<in> set (wd_delivered (nd_world s)) \<and> answered_by dest (passthrough (contiguous out))) \<or>
     (\<exists>seq. wd_disk (nd_world s) (otlp_name seq) = Some (contiguous out) \<and>
        RBT.lookup (ss_pending (wd_state (nd_world s))) seq = Some (len64 (contiguous out)))"

lemma kept_safe:
  assumes "node_inv lib hx dest limit ts s" "kept_by dest s j out"
  shows "still_safe dest s out"
proof -
  consider "dest = None" | "(j, out) \<in> set (nd_posted s)" | seq where "(seq, contiguous out) \<in> set (wd_accepted (nd_world s))"
    using assms(2) by (auto simp: kept_by_def)
  then show ?thesis
  proof cases
    case 2
    with assms(1) show ?thesis by (auto simp: node_inv_def still_safe_def)
  next
    case 3
    then have "(seq, contiguous out) \<in> set (wd_delivered (nd_world s)) \<or>
        wd_disk (nd_world s) (otlp_name seq) = Some (contiguous out) \<and> RBT.lookup (ss_pending (wd_state (nd_world s))) seq \<noteq> None"
      using assms(1) by (auto simp: node_inv_def world_ok_def promises_ok_def)
    with assms(1) show ?thesis by (fastforce simp: node_inv_def world_ok_def files_ok_def still_safe_def)
  qed (simp add: still_safe_def)
qed

lemma replies_once:
  assumes "node_inv lib hx dest limit ts s"
  shows "distinct (map (fst \<circ> fst) (nd_replies s))"
proof -
  obtain others where "mset others = mset (concat (map task_jobs ts)) + mset (nd_lost s)" using ex_mset by blast
  with assms have "mset (nd_taken s) = mset (others @ map fst (nd_replies s))" by (simp add: node_inv_def)
  then have "mset (map fst (nd_taken s)) = mset (map fst (others @ map fst (nd_replies s)))" by (simp only: mset_map)
  moreover have "distinct (map fst (nd_taken s))" using assms unfolding node_inv_def by (metis distinct_upt)
  ultimately have "distinct (map fst (others @ map fst (nd_replies s)))" by (metis mset_eq_imp_distinct_iff)
  then show ?thesis by simp
qed


text \<open>
  C7: The workers come to an end with what they have: from every moment of every run, if the destination
  answers with success or there is none, a continuation without a crash leads to a moment at which every
  worker is free, each job that was in work has been answered, and none of them with "retry"; a payload
  on its way into the spool is written and published.
\<close>

theorem workers_finish:
  assumes "node_reach lib hx dest limit (ts, s)" "matches_inside lib" "\<forall>m. limit = Some m \<longrightarrow> unat m < 2 ^ 63"
    and "reachable_dest dest"
  shows "\<exists>s' new. (node_step lib hx dest limit)\<^sup>*\<^sup>* (ts, s) (replicate (length ts) Free, s') \<and> nd_lost s' = nd_lost s \<and>
    nd_replies s' = nd_replies s @ new \<and> mset (map fst new) = mset (concat (map task_jobs ts)) \<and>
    (\<forall>(j, v) \<in> set new. v \<noteq> ForwardFailed)"
proof -
  from node_reach_inv[OF assms(1-3)] have I: "node_inv lib hx dest limit ts s" by simp
  from finish_all[OF I assms(2-4)] obtain s' new where s': "(node_step lib hx dest limit)\<^sup>*\<^sup>* (ts, s) (replicate (length ts) Free, s')"
    "nd_taken s' = nd_taken s" "nd_lost s' = nd_lost s" "nd_replies s' = nd_replies s @ new" "\<forall>(j, v) \<in> set new. v \<noteq> ForwardFailed"
    by blast
  have "node_inv lib hx dest limit (replicate (length ts) Free) s'" using node_steps_inv[OF s'(1) _ assms(2,3)] I by simp
  then have "mset (nd_taken s') = mset (nd_lost s') + mset (map fst (nd_replies s'))" by (simp add: node_inv_def)
  moreover have "mset (nd_taken s) = mset (concat (map task_jobs ts)) + mset (nd_lost s) + mset (map fst (nd_replies s))"
    using I by (simp add: node_inv_def)
  ultimately have "mset (map fst new) = mset (concat (map task_jobs ts))" using s'(2-4) by (simp add: add_ac)
  with s' show ?thesis by blast
qed

section \<open>An example\<close>

text \<open>One worker, a destination that is down at first, and a payload on its way into the spool.\<close>

definition leak_job :: job where
  "leak_job = (0, leak_request)"

definition leak_task :: task where
  "leak_task = Spooling leak_job (passthrough leak_request) 0"

lemma leak_spooling:
  obtains s where "node_reach byte_lib poly_hasher (Some (bytes ''http://d'')) (Some 100) ([leak_task], s)"
    "nd_replies s = []" "nd_lost s = []"
proof -
  let ?d = "Some (bytes ''http://d'')" and ?p = "passthrough leak_request"
  let ?step = "node_step byte_lib poly_hasher ?d (Some 100)"
  obtain pl' where P: "process byte_lib poly_hasher 0 0 body_pipeline leak_request = Some (pl', leak_out)"
    using leak_process by blast
  have o: "pr_output leak_out = ?p" "\<not> ps_parse_bypassed (pr_stats leak_out)" "contiguous ?p = leak_request" "length leak_request = 12"
    by (simp_all add: leak_out_def run_stats_def leak_request_def)
  have f: "forward down (bytes ''http://d'') ?p \<noteq> Ok ()" by (simp add: forward_def starts_with_def bytes_def down_def)
  have r: "push_reserve 100 (len64 (contiguous ?p)) (wd_state open_world) = Inr (0, \<lparr>ss_next_seq = 1, ss_total_bytes = 12, ss_pending = RBT.empty\<rparr>)"
    by (simp add: push_reserve_def open_world_def empty_spool_def o word_less_nat_alt)
  have w: "reopened (fresh_world Map.empty) open_world"
    unfolding reopened_def
    by (rule exI[of _ "[]"], rule exI[of _ empty_spool], rule exI[of _ "{}"])
      (simp add: fresh_world_def open_world_def spool_open_def empty_spool_def weight_def swept_def)
  let ?s0 = "\<lparr>nd_pipeline = body_pipeline, nd_metrics = metrics_new 0, nd_world = open_world, nd_taken = [], nd_lost = [],
    nd_posted = [], nd_replies = []\<rparr>"
  have "node_reach byte_lib poly_hasher ?d (Some 100) (replicate 1 Free, ?s0)"
    by (rule nr_start[OF body_in_service w]) simp
  then have 0: "node_reach byte_lib poly_hasher ?d (Some 100) ([Free], ?s0)" by simp
  let ?s1 = "?s0\<lparr>nd_taken := nd_taken ?s0 @ [leak_job]\<rparr>"
  have "task_step byte_lib poly_hasher ?d (Some 100) (Free, ?s0) (Started leak_job, ?s1)"
    by (rule tk_take[of leak_request]) (simp_all add: leak_job_def o)
  with ns_task[of 0 "[Free]" byte_lib poly_hasher ?d "Some 100" ?s0 "Started leak_job" ?s1]
  have "?step ([Free], ?s0) ([Started leak_job], ?s1)" by simp
  with nr_step[OF 0] have 1: "node_reach byte_lib poly_hasher ?d (Some 100) ([Started leak_job], ?s1)" .
  let ?s2 = "?s1\<lparr>nd_pipeline := pl', nd_metrics := metrics_record (sample_of (pr_stats leak_out)) (nd_metrics ?s1)\<rparr>"
  have "task_step byte_lib poly_hasher ?d (Some 100) (Started leak_job, ?s1) (Forwarding leak_job (pr_output leak_out), ?s2)"
    by (rule tk_process) (use P o(2) in \<open>simp_all add: leak_job_def\<close>)
  with ns_task[of 0 "[Started leak_job]" byte_lib poly_hasher ?d "Some 100" ?s1 _ ?s2]
  have "?step ([Started leak_job], ?s1) ([Forwarding leak_job ?p], ?s2)" by (simp add: o)
  with nr_step[OF 1] have 2: "node_reach byte_lib poly_hasher ?d (Some 100) ([Forwarding leak_job ?p], ?s2)" .
  let ?s3 = "?s2\<lparr>nd_world := (nd_world ?s2)\<lparr>wd_state := \<lparr>ss_next_seq = 1, ss_total_bytes = 12, ss_pending = RBT.empty\<rparr>,
    wd_pushes := wd_pushes (nd_world ?s2) @ [Writing 0 (contiguous ?p)]\<rparr>\<rparr>"
  have "task_step byte_lib poly_hasher ?d (Some 100) (Forwarding leak_job ?p, ?s2) (leak_task, ?s3)"
    unfolding leak_task_def
    by (rule tk_reserve[OF refl f refl]) (use r o in \<open>simp_all add: open_world_def empty_spool_def word_gt_0\<close>)
  with ns_task[of 0 "[Forwarding leak_job ?p]" byte_lib poly_hasher ?d "Some 100" ?s2 leak_task ?s3]
  have "?step ([Forwarding leak_job ?p], ?s2) ([leak_task], ?s3)" by simp
  with nr_step[OF 2] have "node_reach byte_lib poly_hasher ?d (Some 100) ([leak_task], ?s3)" .
  with that show thesis by simp
qed

lemma nodes_reach:
  "(node_step lib hx dest limit)\<^sup>*\<^sup>* n n' \<Longrightarrow> node_reach lib hx dest limit n \<Longrightarrow> node_reach lib hx dest limit n'"
  by (induction rule: rtranclp_induct) (auto intro: nr_step)


theorem workers_finish_witness:
  "\<exists>(s :: (u8, u8 list) node) s' v. node_reach byte_lib poly_hasher (Some (bytes ''http://d'')) (Some 100) ([leak_task], s) \<and>
     (node_step byte_lib poly_hasher (Some (bytes ''http://d'')) (Some 100))\<^sup>*\<^sup>* ([leak_task], s) ([Free], s') \<and>
     nd_replies s' = [(leak_job, v)] \<and> v \<noteq> ForwardFailed"
proof -
  let ?d = "Some (bytes ''http://d'')"
  obtain s where s: "node_reach byte_lib poly_hasher ?d (Some 100) ([leak_task], s)" "nd_replies s = []" by (rule leak_spooling)
  have l: "\<forall>m. Some (100 :: u64) = Some m \<longrightarrow> unat m < 2 ^ 63" by simp
  have "reachable_dest ?d"
    unfolding reachable_dest_def
    by (auto simp: forward_def starts_with_def bytes_def up_def is_success_def word_le_nat_alt word_less_nat_alt intro!: exI[of _ up])
  from workers_finish[OF s(1) byte_lib_inside l this] obtain s' new where
    s': "(node_step byte_lib poly_hasher ?d (Some 100))\<^sup>*\<^sup>* ([leak_task], s) ([Free], s')" "nd_replies s' = new"
    "mset (map fst new) = {#leak_job#}" "\<forall>(j, v) \<in> set new. v \<noteq> ForwardFailed"
    using s(2) by (auto simp: leak_task_def)
  from s'(3) obtain v where "new = [(leak_job, v)]" by (cases new) auto
  with s s' show ?thesis by auto
qed

end
