(* ===== verification/Concurrent.thy ===== *)
theory Concurrent
  imports Pipeline
begin

text \<open>
  Calls of \<^verbatim>\<open>Pipeline::process\<close> that overlap.  The workers share one pipeline behind an \<^verbatim>\<open>Arc\<close>, and a call
  touches its state in three places: the critical sections of \<^verbatim>\<open>allow_at\<close> and \<^verbatim>\<open>record_fault_at\<close>, and one
  \<^verbatim>\<open>fetch_add\<close> per match.  A call is cut at exactly these atomic operations; what lies between them reads
  only the call's own envelope and the parts of the pipeline that never change.

  The counters are only added to, so that the additions a call is going to make are known when it
  enters the stage: \<open>stage_log\<close> is their sequence.  A schedule is the list of the calls that move, one
  atomic operation each.
\<close>

section \<open>The additions of one run of the stage\<close>

text \<open>The rules whose counters are incremented, in order, and whether the run gets to its end.\<close>

fun log_then :: "nat list \<times> bool \<Rightarrow> nat list \<times> bool \<Rightarrow> nat list \<times> bool" where
  "log_then (a, ok) (b, ok') = (if ok then (a @ b, ok') else (a, False))"

definition matches_log :: "nat \<Rightarrow> nat \<Rightarrow> (nat \<times> nat) list \<Rightarrow> nat list \<times> bool" where
  "matches_log n rule_idx ms =
     (if ms = [] then ([], True) else if rule_idx < n then (replicate (length ms) rule_idx, True) else ([], False))"

fun rules_log :: "('rx, 'rs) regex_lib \<Rightarrow> nat \<Rightarrow> 'rx compiled_rule list \<Rightarrow> u8 list \<Rightarrow> u8 list option \<Rightarrow> nat list \<Rightarrow> nat list \<times> bool" where
  "rules_log lib n rules field key [] = ([], True)"
| "rules_log lib n rules field key (rule_idx # idxs) =
     (if rule_idx < length rules then
        if \<not> rule_applies (rules ! rule_idx) key then rules_log lib n rules field key idxs
        else log_then (matches_log n rule_idx (rx_find_iter lib (cr_regex (rules ! rule_idx)) field))
               (rules_log lib n rules field key idxs)
      else ([], False))"

definition field_log :: "('rx, 'rs) regex_lib \<Rightarrow> nat \<Rightarrow> ('rx, 'rs) redact_engine \<Rightarrow> u8 list \<Rightarrow> u8 list option \<Rightarrow> nat list \<times> bool" where
  "field_log lib n engine field key =
     (if field = [] then ([], True)
      else rules_log lib n (re_rules engine) field key (rx_set_matches lib (re_prefilter engine) field))"

fun attrs_log :: "('rx, 'rs) regex_lib \<Rightarrow> nat \<Rightarrow> ('rx, 'rs) redact_engine \<Rightarrow> u8 list \<Rightarrow> attr_view list \<Rightarrow> nat list \<times> bool" where
  "attrs_log lib n engine raw [] = ([], True)"
| "attrs_log lib n engine raw (attr # attrs) =
     (case buf_get raw (rstart (av_key attr)) (rend (av_key attr)) of
        None \<Rightarrow> attrs_log lib n engine raw attrs
      | Some key \<Rightarrow>
          (case buf_get raw (rstart (av_value attr)) (rend (av_value attr)) of
             None \<Rightarrow> attrs_log lib n engine raw attrs
           | Some val \<Rightarrow> log_then (field_log lib n engine val (Some key)) (attrs_log lib n engine raw attrs)))"

definition body_log :: "('rx, 'rs) regex_lib \<Rightarrow> nat \<Rightarrow> ('rx, 'rs) redact_engine \<Rightarrow> u8 list \<Rightarrow> record_view \<Rightarrow> nat list \<times> bool" where
  "body_log lib n engine raw rec =
     (case buf_get raw (rstart (rv_body rec)) (rend (rv_body rec)) of
        Some body \<Rightarrow> field_log lib n engine body None
      | None \<Rightarrow> ([], True))"

fun records_log :: "('rx, 'rs) regex_lib \<Rightarrow> nat \<Rightarrow> ('rx, 'rs) redact_engine \<Rightarrow> u8 list \<Rightarrow> record_view list \<Rightarrow> nat list \<times> bool" where
  "records_log lib n engine raw [] = ([], True)"
| "records_log lib n engine raw (rec # recs) =
     log_then (body_log lib n engine raw rec)
       (log_then (attrs_log lib n engine raw (rv_attrs rec)) (records_log lib n engine raw recs))"

definition stage_log :: "('rx, 'rs) regex_lib \<Rightarrow> ('rx, 'rs) redact_stage \<Rightarrow> envelope \<Rightarrow> nat list" where
  "stage_log lib self env = fst (records_log lib (length (rs_counts self)) (rs_engine self) (ev_raw env) (ev_records env))"

definition bump :: "nat \<Rightarrow> u64 list \<Rightarrow> u64 list" where
  "bump i counts = counts[i := counts ! i + 1]"

lemma length_bump [simp]: "length (bump i counts) = length counts"
  by (simp add: bump_def)

lemma length_bumps [simp]: "length (fold bump is counts) = length counts"
  by (induction "is" arbitrary: counts) simp_all

lemma bump_nth: "i < length counts \<Longrightarrow> bump j counts ! i = counts ! i + of_bool (i = j)"
  by (auto simp: bump_def nth_list_update)

lemma bumps_nth: "i < length counts \<Longrightarrow> fold bump is counts ! i = counts ! i + of_nat (count_list is i)"
  by (induction "is" arbitrary: counts) (auto simp: bump_nth)

text \<open>
  A part of the stage is \<open>logged\<close> when its additions are those of its log, it panics exactly where the
  log ends early, and neither depends on what the counters hold.
\<close>

definition logged ::
  "nat \<Rightarrow> nat list \<times> bool \<Rightarrow> (redact_state \<Rightarrow> redact_state \<times> (stage_error, unit) result) \<Rightarrow> bool" where
  "logged n lg f \<longleftrightarrow> (\<forall>d. \<exists>d'. \<forall>counts. length counts = n \<longrightarrow>
     f (counts, d) = ((fold bump (fst lg) counts, d'), if snd lg then Ok () else Panic))"

lemma logged_nothing: "logged n ([], True) (\<lambda>st. (st, Ok ()))" "logged n ([], False) (\<lambda>st. (st, Panic))"
  by (simp_all add: logged_def)

lemma logged_seqr:
  assumes "logged n a f" "logged n b g"
  shows "logged n (log_then a b) (\<lambda>st. seqr (f st) g)"
  unfolding logged_def
proof
  fix d
  from assms(1) obtain d1 where f: "\<And>counts. length counts = n \<Longrightarrow>
      f (counts, d) = ((fold bump (fst a) counts, d1), if snd a then Ok () else Panic)" by (auto simp: logged_def)
  from assms(2) obtain d2 where g: "\<And>counts. length counts = n \<Longrightarrow>
      g (counts, d1) = ((fold bump (fst b) counts, d2), if snd b then Ok () else Panic)" by (auto simp: logged_def)
  show "\<exists>d'. \<forall>counts. length counts = n \<longrightarrow> seqr (f (counts, d)) g =
      ((fold bump (fst (log_then a b)) counts, d'), if snd (log_then a b) then Ok () else Panic)"
    by (intro exI[of _ "if snd a then d2 else d1"]) (cases a; cases b; auto simp: f g)
qed

lemma logged_matches: "logged n (matches_log n i ms) (push_matches base rec i mid ms)"
proof (cases "i < n")
  case True
  have "\<exists>d'. \<forall>counts. length counts = n \<longrightarrow>
      push_matches base rec i mid ms (counts, d) = ((fold bump (replicate (length ms) i) counts, d'), Ok ())" for d
  proof (induction ms arbitrary: d)
    case (Cons m ms)
    obtain s e where m: "m = (s, e)" by fastforce
    from Cons[of "push_redaction STAGE_REDACT_REGEX rec \<lparr>rd_target = rng (base + s) (base + e), rd_mask = mid\<rparr> d"] True show ?case
      by (fastforce simp: m Let_def bump_def)
  qed simp
  then show ?thesis using True by (auto simp: logged_def matches_log_def)
next
  case False
  then show ?thesis by (cases ms) (auto simp: logged_def matches_log_def Let_def)
qed

lemma logged_rules: "logged n (rules_log lib n rules field key idxs) (redact_rules lib rules field base rec key idxs)"
proof (induction idxs)
  case Nil
  then show ?case by (simp add: logged_nothing)
next
  case (Cons i idxs)
  from logged_seqr[OF logged_matches Cons] Cons show ?case
    by (simp add: logged_nothing)
qed

lemma logged_field: "logged n (field_log lib n engine field key) (redact_field lib engine field base rec key)"
  unfolding field_log_def redact_field_def[abs_def] by (simp add: logged_nothing logged_rules)

lemma logged_attrs: "logged n (attrs_log lib n engine raw attrs) (redact_attrs lib engine raw idx attrs)"
proof (induction attrs)
  case Nil
  then show ?case by (simp add: logged_nothing)
next
  case (Cons a attrs)
  then show ?case by (auto split: option.split intro: logged_seqr logged_field)
qed

lemma logged_body: "logged n (body_log lib n engine raw rec) (redact_body lib engine raw idx rec)"
  unfolding body_log_def redact_body_def[abs_def] by (simp add: logged_nothing logged_field split: option.split)

lemma logged_records: "logged n (records_log lib n engine raw recs) (redact_records lib engine raw idx recs)"
proof (induction recs arbitrary: idx)
  case Nil
  then show ?case by (simp add: logged_nothing)
next
  case (Cons rec recs)
  show ?case by (simp add: logged_seqr[OF logged_body logged_seqr[OF logged_attrs Cons]])
qed

text \<open>The guarded stage adds its log to whatever the counters hold; what it makes of the envelope does not depend on them.\<close>

lemma guarded_logged:
  "\<exists>env' out. \<forall>counts. length counts = length (rs_counts self) \<longrightarrow>
    guarded (redact_as_stage lib) (self\<lparr>rs_counts := counts\<rparr>) env =
      ((self\<lparr>rs_counts := fold bump (stage_log lib self env) counts\<rparr>, env'), out)"
proof -
  let ?lg = "records_log lib (length (rs_counts self)) (rs_engine self) (ev_raw env) (ev_records env)"
  from logged_records[of "length (rs_counts self)" lib "rs_engine self" "ev_raw env" "ev_records env" 0]
  obtain d where d: "\<And>counts. length counts = length (rs_counts self) \<Longrightarrow>
      redact_records lib (rs_engine self) (ev_raw env) 0 (ev_records env) (counts, ev_decisions env) =
        ((fold bump (fst ?lg) counts, d), if snd ?lg then Ok () else Panic)"
    by (auto simp: logged_def)
  show ?thesis
    by (intro exI[of _ "if snd ?lg then env\<lparr>ev_decisions := d\<rparr> else env\<lparr>ev_decisions := clear_stage STAGE_REDACT_REGEX d\<rparr>"]
          exI[of _ "if snd ?lg then Applied else Bypassed BypassPanic"])
      (simp add: guarded_def redact_as_stage_def redact_apply_def stage_log_def d)
qed

section \<open>One call, cut at its atomic operations\<close>

text \<open>What a call computes before it comes to the breaker, and after it has left the stage.\<close>

definition prepare :: "'h hasher \<Rightarrow> sampling_policy \<Rightarrow> nat \<Rightarrow> u8 list \<Rightarrow> envelope \<times> stats" where
  "prepare hx policy received_at raw =
     (let stats = stats_default\<lparr>ps_bytes_in := length raw\<rparr>;
          env = envelope_new received_at raw;
          ((_, env), parsed) = guarded parse_stage () env;
          stats = stats\<lparr>ps_parse_bypassed := bypassed parsed, ps_records_in := length (ev_records env)\<rparr>;
          verdicts = map (\<lambda>rec. sample_verdict hx policy rec (ev_raw env)) (ev_records env);
          stats = stats\<lparr>ps_kept := length (filter (\<lambda>v. v = Keep) verdicts),
            ps_dropped := length (filter (\<lambda>v. v = Drop) verdicts)\<rparr>
      in (env\<lparr>ev_decisions := set_sampling verdicts (ev_decisions env)\<rparr>, stats))"

definition conclude :: "mask_table \<Rightarrow> envelope \<Rightarrow> stats \<Rightarrow> bool \<Rightarrow> processed option" where
  "conclude masks env stats skipped =
     (let stats = stats\<lparr>ps_redact_bypassed := skipped, ps_redactions := redaction_total (ev_decisions env)\<rparr>
      in case assemble env masks of
           Ok out \<Rightarrow> Some \<lparr>pr_output = out, pr_stats = stats\<lparr>ps_bytes_out := ap_len out\<rparr>\<rparr>
         | Err _ \<Rightarrow>
             (let out = passthrough (ev_raw env)
              in Some \<lparr>pr_output = out, pr_stats = stats\<lparr>ps_assemble_bypassed := True, ps_bytes_out := ap_len out\<rparr>\<rparr>)
         | Panic \<Rightarrow> None)"

lemma process_parts:
  "process lib hx t now self raw =
     (case prepare hx (pl_policy self) t raw of (env, stats) \<Rightarrow>
      case redact_step lib now self env of (self', env', skipped) \<Rightarrow>
        map_option (Pair self') (conclude (pl_masks self') env' stats skipped))"
  by (simp add: process_def prepare_def conclude_def Let_def split: prod.split result.split)

text \<open>A call: what it was given, and where it is.  \<open>Answered None\<close> is a panic that reaches the caller.\<close>

record call_input =
  ci_received_at :: nat
  ci_now :: instant
  ci_raw :: "u8 list"

datatype call =
    Entered
  | Prepared envelope stats
  | InStage "nat list" envelope stats stage_outcome
  | Leaving envelope stats bool
  | Answered "processed option"

text \<open>The next atomic operation of a call, with what it computes up to the following one.\<close>

definition advance ::
  "('rx, 'rs) regex_lib \<Rightarrow> 'h hasher \<Rightarrow> call_input \<Rightarrow> ('rx, 'rs) pipeline \<Rightarrow> call \<Rightarrow> ('rx, 'rs) pipeline \<times> call" where
  "advance lib hx input self c =
     (case c of
        Entered \<Rightarrow> (case prepare hx (pl_policy self) (ci_received_at input) (ci_raw input) of (env, stats) \<Rightarrow> (self, Prepared env stats))
      | Prepared env stats \<Rightarrow>
          (case allow_at (ci_now input) (pl_redact_breaker self) of
             (b, True) \<Rightarrow>
               (case guarded (redact_as_stage lib) (pl_redact self) env of
                  ((_, env'), out) \<Rightarrow> (self\<lparr>pl_redact_breaker := b\<rparr>, InStage (stage_log lib (pl_redact self) env) env' stats out))
           | (b, False) \<Rightarrow> (self\<lparr>pl_redact_breaker := b\<rparr>, Leaving env stats True))
      | InStage (i # is) env stats out \<Rightarrow>
          (self\<lparr>pl_redact := (pl_redact self)\<lparr>rs_counts := bump i (rs_counts (pl_redact self))\<rparr>\<rparr>, InStage is env stats out)
      | InStage [] env stats Applied \<Rightarrow> (self, Leaving env stats False)
      | InStage [] env stats (Bypassed _) \<Rightarrow>
          (self\<lparr>pl_redact_breaker := fst (record_fault_at (ci_now input) (pl_redact_breaker self))\<rparr>, Leaving env stats True)
      | Leaving env stats skipped \<Rightarrow> (self, Answered (conclude (pl_masks self) env stats skipped))
      | Answered out \<Rightarrow> (self, c))"

section \<open>Schedules\<close>

text \<open>The call at an index takes its next step; a schedule is a list of indexes.\<close>

definition turn :: "('r \<Rightarrow> 's \<Rightarrow> 'c \<Rightarrow> 's \<times> 'c) \<Rightarrow> nat \<Rightarrow> 's \<times> ('r \<times> 'c) list \<Rightarrow> 's \<times> ('r \<times> 'c) list" where
  "turn step j st =
     (case st of (s, cs) \<Rightarrow>
        if j < length cs then (case cs ! j of (r, c) \<Rightarrow> case step r s c of (s', c') \<Rightarrow> (s', cs[j := (r, c')])) else (s, cs))"

definition run_turns ::
  "('r \<Rightarrow> 's \<Rightarrow> 'c \<Rightarrow> 's \<times> 'c) \<Rightarrow> nat list \<Rightarrow> 's \<times> ('r \<times> 'c) list \<Rightarrow> 's \<times> ('r \<times> 'c) list" where
  "run_turns step sched st = fold (turn step) sched st"

definition calls_of :: "call_input list \<Rightarrow> (call_input \<times> call) list" where
  "calls_of inputs = map (\<lambda>r. (r, Entered)) inputs"

text \<open>What every step keeps of the shared state and of the call that takes it, every schedule keeps of all calls.\<close>

locale stepwise =
  fixes step :: "'r \<Rightarrow> 's \<Rightarrow> 'c \<Rightarrow> 's \<times> 'c" and ok :: "'s \<Rightarrow> bool" and call_ok :: "'r \<Rightarrow> 'c \<Rightarrow> bool"
  assumes step_ok: "ok s \<Longrightarrow> call_ok r c \<Longrightarrow> step r s c = (s', c') \<Longrightarrow> ok s' \<and> call_ok r c'"
begin

lemma turn_ok:
  assumes "ok s" "\<forall>(r, c) \<in> set cs. call_ok r c" "turn step j (s, cs) = (s', cs')"
  shows "ok s' \<and> (\<forall>(r, c) \<in> set cs'. call_ok r c) \<and> map fst cs' = map fst cs"
proof (cases "j < length cs")
  case True
  obtain r c where rc: "cs ! j = (r, c)" by fastforce
  obtain c' where st: "step r s c = (s', c')" "cs' = cs[j := (r, c')]"
    using assms(3) True by (auto simp: turn_def rc split: prod.splits)
  have "call_ok r c" using assms(2) True rc nth_mem[OF True] by auto
  with step_ok[OF assms(1) this st(1)] assms(2) have "ok s' \<and> (\<forall>(r, c) \<in> set cs'. call_ok r c)"
    using set_update_subset_insert[of cs j "(r, c')"] by (auto simp: st(2))
  moreover have "map fst cs' = map fst cs" using rc True by (simp add: st(2) map_update list_update_same_conv)
  ultimately show ?thesis by blast
qed (use assms in \<open>simp add: turn_def\<close>)

lemma run_ok:
  assumes "ok s" "\<forall>(r, c) \<in> set cs. call_ok r c" "run_turns step sched (s, cs) = (s', cs')"
  shows "ok s' \<and> (\<forall>(r, c) \<in> set cs'. call_ok r c) \<and> map fst cs' = map fst cs"
  using assms
proof (induction sched arbitrary: s cs)
  case (Cons j sched)
  obtain s1 cs1 where t: "turn step j (s, cs) = (s1, cs1)" by fastforce
  from turn_ok[OF Cons.prems(1,2) t] Cons.IH[of s1 cs1] Cons.prems(3) t show ?case by (auto simp: run_turns_def)
qed (simp add: run_turns_def)

end

text \<open>A quantity that each step moves from the call to the shared state is conserved.\<close>

locale conserving = stepwise step ok call_ok
  for step :: "'r \<Rightarrow> 's \<Rightarrow> 'c \<Rightarrow> 's \<times> 'c" and ok call_ok +
  fixes held :: "'s \<Rightarrow> 'm :: comm_monoid_add" and pending :: "'r \<Rightarrow> 'c \<Rightarrow> 'm"
  assumes conserved: "ok s \<Longrightarrow> call_ok r c \<Longrightarrow> step r s c = (s', c') \<Longrightarrow> held s' + pending r c' = held s + pending r c"
begin

abbreviation all_pending :: "('r \<times> 'c) list \<Rightarrow> 'm" where
  "all_pending cs \<equiv> sum_list (map (case_prod pending) cs)"

lemma turn_conserved:
  assumes "ok s" "\<forall>(r, c) \<in> set cs. call_ok r c" "turn step j (s, cs) = (s', cs')"
  shows "held s' + all_pending cs' = held s + all_pending cs"
proof (cases "j < length cs")
  case True
  obtain r c where rc: "cs ! j = (r, c)" by fastforce
  obtain c' where st: "step r s c = (s', c')" "cs' = cs[j := (r, c')]"
    using assms(3) True by (auto simp: turn_def rc split: prod.splits)
  have "call_ok r c" using assms(2) True rc nth_mem[OF True] by auto
  from conserved[OF assms(1) this st(1)] have e: "held s' + pending r c' = held s + pending r c" .
  have cs: "cs = take j cs @ (r, c) # drop (Suc j) cs" using id_take_nth_drop[OF True] rc by simp
  have cs': "cs' = take j cs @ (r, c') # drop (Suc j) cs" using True by (simp add: st(2) upd_conv_take_nth_drop)
  let ?rest = "all_pending (take j cs) + all_pending (drop (Suc j) cs)"
  have "held s' + all_pending cs' = (held s' + pending r c') + ?rest" unfolding cs' by (simp add: ac_simps)
  also have "\<dots> = held s + all_pending (take j cs @ (r, c) # drop (Suc j) cs)" unfolding e by (simp add: ac_simps)
  finally show ?thesis by (simp flip: cs)
qed (use assms in \<open>simp add: turn_def\<close>)

lemma run_conserved:
  assumes "ok s" "\<forall>(r, c) \<in> set cs. call_ok r c" "run_turns step sched (s, cs) = (s', cs')"
  shows "held s' + all_pending cs' = held s + all_pending cs"
  using assms
proof (induction sched arbitrary: s cs)
  case (Cons j sched)
  obtain s1 cs1 where t: "turn step j (s, cs) = (s1, cs1)" by fastforce
  from turn_conserved[OF Cons.prems(1,2) t] turn_ok[OF Cons.prems(1,2) t] Cons.IH[of s1 cs1] Cons.prems(3) t
  show ?case by (auto simp: run_turns_def)
qed (simp add: run_turns_def)

end

section \<open>Every call answers as it would on its own\<close>

text \<open>The answer of a call that finds the breaker in a given state and runs alone.\<close>

definition alone :: "('rx, 'rs) regex_lib \<Rightarrow> 'h hasher \<Rightarrow> ('rx, 'rs) pipeline \<Rightarrow> call_input \<Rightarrow> circuit_breaker \<Rightarrow> processed option" where
  "alone lib hx self r b =
     map_option snd (process lib hx (ci_received_at r) (ci_now r) (self\<lparr>pl_redact_breaker := b\<rparr>) (ci_raw r))"

lemma alone_parts:
  "alone lib hx self r b =
     (case prepare hx (pl_policy self) (ci_received_at r) (ci_raw r) of (env, stats) \<Rightarrow>
      if snd (allow_at (ci_now r) b) then
        (case guarded (redact_as_stage lib) (pl_redact self) env of ((_, env'), out) \<Rightarrow> conclude (pl_masks self) env' stats (bypassed out))
      else conclude (pl_masks self) env stats True)"
  by (auto simp: alone_def process_parts redact_step_def bypassed_def option.map_comp o_def option.map_id[unfolded id_def]
      split: prod.split bool.split stage_outcome.split)

text \<open>What never changes in a pipeline in use.\<close>

definition same_config :: "('rx, 'rs) pipeline \<Rightarrow> ('rx, 'rs) pipeline \<Rightarrow> bool" where
  "same_config self s \<longleftrightarrow> pl_policy s = pl_policy self \<and> pl_masks s = pl_masks self \<and> pl_max_body_bytes s = pl_max_body_bytes self \<and>
     rs_engine (pl_redact s) = rs_engine (pl_redact self) \<and> length (rs_counts (pl_redact s)) = length (rs_counts (pl_redact self))"

lemma same_stage:
  assumes "same_config self s"
  obtains env' out where "\<And>counts. length counts = length (rs_counts (pl_redact self)) \<Longrightarrow>
      guarded (redact_as_stage lib) ((pl_redact self)\<lparr>rs_counts := counts\<rparr>) env =
        (((pl_redact self)\<lparr>rs_counts := fold bump (stage_log lib (pl_redact self) env) counts\<rparr>, env'), out)"
    "guarded (redact_as_stage lib) (pl_redact s) env =
      ((((pl_redact s)\<lparr>rs_counts := fold bump (stage_log lib (pl_redact s) env) (rs_counts (pl_redact s))\<rparr>), env'), out)"
    "stage_log lib (pl_redact s) env = stage_log lib (pl_redact self) env"
proof -
  obtain env' out where g: "\<And>counts. length counts = length (rs_counts (pl_redact self)) \<Longrightarrow>
      guarded (redact_as_stage lib) ((pl_redact self)\<lparr>rs_counts := counts\<rparr>) env =
        (((pl_redact self)\<lparr>rs_counts := fold bump (stage_log lib (pl_redact self) env) counts\<rparr>, env'), out)"
    using guarded_logged[of "pl_redact self" lib env] by blast
  have s: "pl_redact s = (pl_redact self)\<lparr>rs_counts := rs_counts (pl_redact s)\<rparr>" and l: "length (rs_counts (pl_redact s)) = length (rs_counts (pl_redact self))"
    using assms by (simp_all add: same_config_def)
  have log: "stage_log lib (pl_redact s) env = stage_log lib (pl_redact self) env"
    using assms by (simp add: stage_log_def same_config_def)
  have e: "(pl_redact s)\<lparr>rs_counts := c\<rparr> = (pl_redact self)\<lparr>rs_counts := c\<rparr>" for c by (subst s) simp
  from g[OF l] have "guarded (redact_as_stage lib) (pl_redact s) env =
      ((((pl_redact s)\<lparr>rs_counts := fold bump (stage_log lib (pl_redact s) env) (rs_counts (pl_redact s))\<rparr>), env'), out)"
    unfolding log e s[symmetric] .
  from that[OF g this log] show thesis .
qed

definition call_sound :: "('rx, 'rs) regex_lib \<Rightarrow> 'h hasher \<Rightarrow> ('rx, 'rs) pipeline \<Rightarrow> call_input \<Rightarrow> call \<Rightarrow> bool" where
  "call_sound lib hx self r c \<longleftrightarrow>
     (case c of
        Entered \<Rightarrow> True
      | Prepared env stats \<Rightarrow> (env, stats) = prepare hx (pl_policy self) (ci_received_at r) (ci_raw r)
      | InStage log env stats out \<Rightarrow> (\<exists>b. conclude (pl_masks self) env stats (bypassed out) = alone lib hx self r b)
      | Leaving env stats skipped \<Rightarrow> (\<exists>b. conclude (pl_masks self) env stats skipped = alone lib hx self r b)
      | Answered out \<Rightarrow> (\<exists>b. out = alone lib hx self r b))"

lemma advance_sound:
  assumes "same_config self s" "call_sound lib hx self r c" "advance lib hx r s c = (s', c')"
  shows "same_config self s' \<and> call_sound lib hx self r c'"
proof (cases c)
  case (Prepared env stats)
  obtain env' out where g: "guarded (redact_as_stage lib) ((pl_redact self)\<lparr>rs_counts := rs_counts (pl_redact self)\<rparr>) env =
        (((pl_redact self)\<lparr>rs_counts := fold bump (stage_log lib (pl_redact self) env) (rs_counts (pl_redact self))\<rparr>, env'), out)"
      "guarded (redact_as_stage lib) (pl_redact s) env =
      ((((pl_redact s)\<lparr>rs_counts := fold bump (stage_log lib (pl_redact s) env) (rs_counts (pl_redact s))\<rparr>), env'), out)"
    by (rule same_stage[OF assms(1), of lib env]) blast
  have p: "prepare hx (pl_policy self) (ci_received_at r) (ci_raw r) = (env, stats)"
    using assms(2) Prepared by (simp add: call_sound_def)
  have "if snd (allow_at (ci_now r) (pl_redact_breaker s))
      then conclude (pl_masks self) env' stats (bypassed out) = alone lib hx self r (pl_redact_breaker s)
      else conclude (pl_masks self) env stats True = alone lib hx self r (pl_redact_breaker s)"
    using g(1) by (simp add: alone_parts p)
  then show ?thesis
    using assms(1,3) g(2) by (auto simp: Prepared advance_def call_sound_def same_config_def split: prod.splits bool.splits)
next
  case (InStage log env stats out)
  then show ?thesis
    using assms by (auto simp: advance_def call_sound_def same_config_def bypassed_def split: list.splits stage_outcome.splits)
qed (use assms in \<open>auto simp: advance_def call_sound_def same_config_def split: prod.splits\<close>)

interpretation calls: stepwise "advance lib hx" "same_config self" "call_sound lib hx self"
  for lib :: "('rx, 'rs) regex_lib" and hx :: "'h hasher" and self :: "('rx, 'rs) pipeline"
  by unfold_locales (rule advance_sound)

lemma calls_sound_start: "\<forall>(r, c) \<in> set (calls_of inputs). call_sound lib hx self r c"
  by (auto simp: calls_of_def call_sound_def)

text \<open>Under every schedule the answer of a call is one that it could give on its own, and it is never a panic.\<close>

theorem concurrent_answers:
  assumes "run_turns (advance lib hx) sched (self, calls_of inputs) = (self', cs)" "matches_inside lib"
    and "(r, Answered out) \<in> set cs" "length (ci_raw r) < 2 ^ 64"
  shows "r \<in> set inputs \<and> out \<noteq> None \<and> (\<exists>b. out = alone lib hx self r b)"
proof -
  have "same_config self self" by (simp add: same_config_def)
  from calls.run_ok[OF this calls_sound_start assms(1)] assms(3)
  have s: "call_sound lib hx self r (Answered out)" "map fst cs = map fst (calls_of inputs)" by auto
  have "r \<in> set (map fst cs)" using assms(3) by force
  then have "r \<in> set inputs" unfolding s(2) by (simp add: calls_of_def o_def)
  moreover obtain b where b: "out = alone lib hx self r b" using s(1) by (auto simp: call_sound_def)
  moreover have "out \<noteq> None"
    using process_total[OF assms(4,2), of hx "ci_received_at r" "ci_now r" "self\<lparr>pl_redact_breaker := b\<rparr>"] b
    by (metis alone_def option.map_disc_iff option.distinct(1))
  ultimately show ?thesis by blast
qed

section \<open>Overlapping calls are as good as one after the other\<close>

text \<open>With a library that works as documented no call is ever bypassed, and the shared state is the counters alone.\<close>

definition call_log :: "('rx, 'rs) regex_lib \<Rightarrow> 'h hasher \<Rightarrow> ('rx, 'rs) pipeline \<Rightarrow> call_input \<Rightarrow> nat list" where
  "call_log lib hx self r = stage_log lib (pl_redact self) (fst (prepare hx (pl_policy self) (ci_received_at r) (ci_raw r)))"

definition serial_ok :: "('rx, 'rs) regex_lib \<Rightarrow> ('rx, 'rs) pipeline \<Rightarrow> ('rx, 'rs) pipeline \<Rightarrow> bool" where
  "serial_ok lib self s \<longleftrightarrow> pipeline_ok lib self \<and> length (rs_counts (pl_redact s)) = length (rs_counts (pl_redact self)) \<and>
     s = self\<lparr>pl_redact := (pl_redact self)\<lparr>rs_counts := rs_counts (pl_redact s)\<rparr>\<rparr>"

definition call_serial :: "('rx, 'rs) regex_lib \<Rightarrow> 'h hasher \<Rightarrow> ('rx, 'rs) pipeline \<Rightarrow> call_input \<Rightarrow> call \<Rightarrow> bool" where
  "call_serial lib hx self r c \<longleftrightarrow>
     (let answer = alone lib hx self r (pl_redact_breaker self) in
      case c of
        Entered \<Rightarrow> True
      | Prepared env stats \<Rightarrow> (env, stats) = prepare hx (pl_policy self) (ci_received_at r) (ci_raw r)
      | InStage log env stats out \<Rightarrow> out = Applied \<and> conclude (pl_masks self) env stats False = answer
      | Leaving env stats skipped \<Rightarrow> conclude (pl_masks self) env stats skipped = answer
      | Answered out \<Rightarrow> out = answer)"

text \<open>The additions that a call has still to make to the counter of a rule.\<close>

definition pending :: "('rx, 'rs) regex_lib \<Rightarrow> 'h hasher \<Rightarrow> ('rx, 'rs) pipeline \<Rightarrow> nat \<Rightarrow> call_input \<Rightarrow> call \<Rightarrow> u64" where
  "pending lib hx self i r c =
     (case c of
        Entered \<Rightarrow> of_nat (count_list (call_log lib hx self r) i)
      | Prepared env stats \<Rightarrow> of_nat (count_list (call_log lib hx self r) i)
      | InStage log env stats out \<Rightarrow> of_nat (count_list log i)
      | _ \<Rightarrow> 0)"

lemma serial_ok_self: "pipeline_ok lib self \<Longrightarrow> serial_ok lib self self"
  by (simp add: serial_ok_def)

lemma serial_ok_parts:
  assumes "serial_ok lib self s"
  shows "same_config self s" "pl_redact_breaker s = pl_redact_breaker self" "pipeline_ok lib s"
    "allow_at now (pl_redact_breaker s) = (pl_redact_breaker s, True)"
proof -
  have s: "s = self\<lparr>pl_redact := (pl_redact self)\<lparr>rs_counts := rs_counts (pl_redact s)\<rparr>\<rparr>"
    and l: "length (rs_counts (pl_redact s)) = length (rs_counts (pl_redact self))" and p: "pipeline_ok lib self"
    using assms by (simp_all add: serial_ok_def)
  have e: "pl_policy s = pl_policy self" "pl_masks s = pl_masks self" "pl_max_body_bytes s = pl_max_body_bytes self"
    "rs_engine (pl_redact s) = rs_engine (pl_redact self)" "pl_redact_breaker s = pl_redact_breaker self"
    by (subst s, simp)+
  then show "same_config self s" "pl_redact_breaker s = pl_redact_breaker self" "pipeline_ok lib s"
    using l p by (simp_all add: same_config_def pipeline_ok_def)
  then show "allow_at now (pl_redact_breaker s) = (pl_redact_breaker s, True)" by (simp add: pipeline_ok_def allow_at_def)
qed

lemma serial_applied:
  assumes "serial_ok lib self s" "guarded (redact_as_stage lib) (pl_redact s) env = ((rs, env'), out)"
  shows "out = Applied"
proof -
  note p = serial_ok_parts[OF assms(1)]
  obtain s' env1 skipped where r: "redact_step lib 0 s env = (s', env1, skipped)" by (metis prod.collapse)
  from redact_step_ok[OF p(3) r] have "\<not> skipped" by simp
  with r assms(2) show ?thesis by (auto simp: redact_step_def p(4) split: stage_outcome.splits)
qed

lemma serial_counts:
  assumes "serial_ok lib self s" "length counts = length (rs_counts (pl_redact self))"
  shows "serial_ok lib self (s\<lparr>pl_redact := (pl_redact s)\<lparr>rs_counts := counts\<rparr>\<rparr>)"
proof -
  have s: "s = self\<lparr>pl_redact := (pl_redact self)\<lparr>rs_counts := rs_counts (pl_redact s)\<rparr>\<rparr>" and p: "pipeline_ok lib self"
    using assms(1) by (simp_all add: serial_ok_def)
  have "s\<lparr>pl_redact := (pl_redact s)\<lparr>rs_counts := counts\<rparr>\<rparr> = self\<lparr>pl_redact := (pl_redact self)\<lparr>rs_counts := counts\<rparr>\<rparr>"
    by (subst s, subst (2) s) simp
  then show ?thesis using p assms(2) by (simp add: serial_ok_def)
qed

lemma serial_stage:
  assumes "serial_ok lib self s"
  obtains env' where "guarded (redact_as_stage lib) (pl_redact self) env =
      ((((pl_redact self)\<lparr>rs_counts := fold bump (stage_log lib (pl_redact self) env) (rs_counts (pl_redact self))\<rparr>), env'), Applied)"
    "guarded (redact_as_stage lib) (pl_redact s) env =
      ((((pl_redact s)\<lparr>rs_counts := fold bump (stage_log lib (pl_redact self) env) (rs_counts (pl_redact s))\<rparr>), env'), Applied)"
proof -
  obtain env' out where g: "\<And>counts. length counts = length (rs_counts (pl_redact self)) \<Longrightarrow>
      guarded (redact_as_stage lib) ((pl_redact self)\<lparr>rs_counts := counts\<rparr>) env =
        (((pl_redact self)\<lparr>rs_counts := fold bump (stage_log lib (pl_redact self) env) counts\<rparr>, env'), out)"
    "guarded (redact_as_stage lib) (pl_redact s) env =
      ((((pl_redact s)\<lparr>rs_counts := fold bump (stage_log lib (pl_redact s) env) (rs_counts (pl_redact s))\<rparr>), env'), out)"
    "stage_log lib (pl_redact s) env = stage_log lib (pl_redact self) env"
    by (rule same_stage[OF serial_ok_parts(1)[OF assms], of lib env]) blast
  have "out = Applied" by (rule serial_applied[OF assms g(2)])
  with g(1)[of "rs_counts (pl_redact self)"] g(2,3) show thesis by (intro that) simp_all
qed

lemma serial_answer:
  assumes "serial_ok lib self s" "prepare hx (pl_policy self) (ci_received_at r) (ci_raw r) = (env, stats)"
    and "guarded (redact_as_stage lib) (pl_redact self) env = ((rs, env'), Applied)"
  shows "conclude (pl_masks self) env' stats False = alone lib hx self r (pl_redact_breaker self)"
  using assms(3) serial_ok_parts(2,4)[OF assms(1)] by (simp add: alone_parts assms(2) bypassed_def)

lemma advance_serial:
  assumes "serial_ok lib self s" "call_serial lib hx self r c" "advance lib hx r s c = (s', c')"
  shows "serial_ok lib self s' \<and> call_serial lib hx self r c'"
proof (cases c)
  case (Prepared env stats)
  note p = serial_ok_parts[OF assms(1)]
  have e: "prepare hx (pl_policy self) (ci_received_at r) (ci_raw r) = (env, stats)"
    using assms(2) Prepared by (simp add: call_serial_def)
  obtain env' where g: "guarded (redact_as_stage lib) (pl_redact self) env =
      ((((pl_redact self)\<lparr>rs_counts := fold bump (stage_log lib (pl_redact self) env) (rs_counts (pl_redact self))\<rparr>), env'), Applied)"
    "guarded (redact_as_stage lib) (pl_redact s) env =
      ((((pl_redact s)\<lparr>rs_counts := fold bump (stage_log lib (pl_redact self) env) (rs_counts (pl_redact s))\<rparr>), env'), Applied)"
    by (rule serial_stage[OF assms(1)])
  from serial_answer[OF assms(1) e g(1)] show ?thesis
    using assms(1,3) g(2) p(4)[of "ci_now r"] by (auto simp: Prepared advance_def call_serial_def)
next
  case (InStage log env stats out)
  show ?thesis
  proof (cases log)
    case Nil
    then show ?thesis using assms by (auto simp: InStage advance_def call_serial_def Let_def)
  next
    case (Cons i "is")
    have l: "length (bump i (rs_counts (pl_redact s))) = length (rs_counts (pl_redact self))"
      using assms(1) by (simp add: serial_ok_def)
    from serial_counts[OF assms(1) l] show ?thesis
      using assms(2,3) by (auto simp: InStage Cons advance_def call_serial_def Let_def)
  qed
qed (use assms serial_ok_parts(1)[OF assms(1)] in \<open>auto simp: advance_def call_serial_def same_config_def Let_def split: prod.splits\<close>)

lemma advance_conserves:
  assumes "serial_ok lib self s" "i < length (rs_counts (pl_redact self))" "call_serial lib hx self r c" "advance lib hx r s c = (s', c')"
  shows "rs_counts (pl_redact s') ! i + pending lib hx self i r c' = rs_counts (pl_redact s) ! i + pending lib hx self i r c"
proof (cases c)
  case (Prepared env stats)
  note p = serial_ok_parts[OF assms(1)]
  have e: "prepare hx (pl_policy self) (ci_received_at r) (ci_raw r) = (env, stats)"
    using assms(3) Prepared by (simp add: call_serial_def)
  have "stage_log lib (pl_redact s) env = call_log lib hx self r"
    using p(1) by (simp add: call_log_def e stage_log_def same_config_def)
  with assms(4) p(4)[of "ci_now r"] show ?thesis by (auto simp: Prepared advance_def pending_def split: prod.splits)
next
  case (InStage log env stats out)
  have "i < length (rs_counts (pl_redact s))" using assms(1,2) by (simp add: serial_ok_def)
  with assms(3,4) show ?thesis
    by (auto simp: InStage advance_def call_serial_def pending_def bump_nth Let_def split: list.splits)
qed (use assms in \<open>auto simp: advance_def pending_def split: prod.splits\<close>)

interpretation serial: conserving "advance lib hx" "\<lambda>s. serial_ok lib self s \<and> i < length (rs_counts (pl_redact self))"
    "call_serial lib hx self" "\<lambda>s. rs_counts (pl_redact s) ! i" "pending lib hx self i"
  for lib :: "('rx, 'rs) regex_lib" and hx :: "'h hasher" and self :: "('rx, 'rs) pipeline" and i
proof unfold_locales
  fix s s' and r c c'
  assume "serial_ok lib self s \<and> i < length (rs_counts (pl_redact self))" "call_serial lib hx self r c" "advance lib hx r s c = (s', c')"
  then show "(serial_ok lib self s' \<and> i < length (rs_counts (pl_redact self))) \<and> call_serial lib hx self r c'"
    "rs_counts (pl_redact s') ! i + pending lib hx self i r c' = rs_counts (pl_redact s) ! i + pending lib hx self i r c"
    using advance_serial advance_conserves by blast+
qed

text \<open>With no rules there is no counter to pick, so the first half stands alone as well.\<close>

interpretation serial_state: stepwise "advance lib hx" "serial_ok lib self" "call_serial lib hx self"
  for lib :: "('rx, 'rs) regex_lib" and hx :: "'h hasher" and self :: "('rx, 'rs) pipeline"
  by unfold_locales (rule advance_serial)

text \<open>The calls one after the other, in the order of the list.\<close>

fun process_all ::
  "('rx, 'rs) regex_lib \<Rightarrow> 'h hasher \<Rightarrow> call_input list \<Rightarrow> ('rx, 'rs) pipeline \<Rightarrow> (('rx, 'rs) pipeline \<times> processed list) option" where
  "process_all lib hx [] self = Some (self, [])"
| "process_all lib hx (r # rs) self =
     (case process lib hx (ci_received_at r) (ci_now r) self (ci_raw r) of
        None \<Rightarrow> None
      | Some (self', out) \<Rightarrow> map_option (\<lambda>(s, outs). (s, out # outs)) (process_all lib hx rs self'))"

lemma process_serial:
  assumes "serial_ok lib self s" "length (ci_raw r) < 2 ^ 64" "matches_inside lib"
  shows "\<exists>s' out. process lib hx (ci_received_at r) (ci_now r) s (ci_raw r) = Some (s', out) \<and> serial_ok lib self s' \<and>
    alone lib hx self r (pl_redact_breaker self) = Some out \<and>
    rs_counts (pl_redact s') = fold bump (call_log lib hx self r) (rs_counts (pl_redact s))"
proof -
  note p = serial_ok_parts[OF assms(1)]
  obtain env stats where e: "prepare hx (pl_policy self) (ci_received_at r) (ci_raw r) = (env, stats)" by fastforce
  obtain env' where g: "guarded (redact_as_stage lib) (pl_redact self) env =
      ((((pl_redact self)\<lparr>rs_counts := fold bump (stage_log lib (pl_redact self) env) (rs_counts (pl_redact self))\<rparr>), env'), Applied)"
    "guarded (redact_as_stage lib) (pl_redact s) env =
      ((((pl_redact s)\<lparr>rs_counts := fold bump (stage_log lib (pl_redact self) env) (rs_counts (pl_redact s))\<rparr>), env'), Applied)"
    by (rule serial_stage[OF assms(1)])
  let ?counts = "fold bump (call_log lib hx self r) (rs_counts (pl_redact s))"
  let ?s = "s\<lparr>pl_redact := (pl_redact s)\<lparr>rs_counts := ?counts\<rparr>, pl_redact_breaker := pl_redact_breaker s\<rparr>"
  have c: "pl_policy s = pl_policy self" "pl_masks s = pl_masks self" using p(1) by (simp_all add: same_config_def)
  have P: "process lib hx (ci_received_at r) (ci_now r) s (ci_raw r) =
      map_option (Pair ?s) (alone lib hx self r (pl_redact_breaker self))"
    using g(2) p(4)[of "ci_now r"]
    by (simp add: process_parts c e redact_step_def call_log_def flip: serial_answer[OF assms(1) e g(1)])
  moreover obtain out where "alone lib hx self r (pl_redact_breaker self) = Some out"
    using process_total[OF assms(2,3), of hx "ci_received_at r" "ci_now r" s] P by (metis not_None_eq option.map_disc_iff)
  moreover have "?s = s\<lparr>pl_redact := (pl_redact s)\<lparr>rs_counts := ?counts\<rparr>\<rparr>" by simp
  then have "serial_ok lib self ?s"
    using serial_counts[OF assms(1), of ?counts] assms(1) by (simp only: length_bumps) (simp add: serial_ok_def)
  ultimately show ?thesis by auto
qed

lemma process_all_serial:
  assumes "serial_ok lib self s" "\<forall>r \<in> set rs. length (ci_raw r) < 2 ^ 64" "matches_inside lib"
  shows "\<exists>s' outs. process_all lib hx rs s = Some (s', outs) \<and> serial_ok lib self s' \<and>
    map Some outs = map (\<lambda>r. alone lib hx self r (pl_redact_breaker self)) rs \<and>
    rs_counts (pl_redact s') = fold bump (concat (map (call_log lib hx self) rs)) (rs_counts (pl_redact s))"
  using assms(1,2)
proof (induction rs arbitrary: s)
  case (Cons r rs)
  from process_serial[OF Cons.prems(1) _ assms(3), of r hx] Cons.prems(2)
  obtain s1 out where 1: "process lib hx (ci_received_at r) (ci_now r) s (ci_raw r) = Some (s1, out)" "serial_ok lib self s1"
    "alone lib hx self r (pl_redact_breaker self) = Some out"
    "rs_counts (pl_redact s1) = fold bump (call_log lib hx self r) (rs_counts (pl_redact s))" by auto
  from Cons.IH[OF 1(2)] Cons.prems(2) 1 show ?case by auto
qed simp

text \<open>From every state a call comes to its answer, whatever its log, when it alone is scheduled.\<close>

definition all_answered :: "(call_input \<times> call) list \<Rightarrow> bool" where
  "all_answered cs \<longleftrightarrow> (\<forall>(r, c) \<in> set cs. \<exists>out. c = Answered out)"

lemma advance_answers: "\<exists>n s' out. ((\<lambda>(s, c). advance lib hx r s c) ^^ n) (s, c) = (s', Answered out)"
proof -
  let ?f = "\<lambda>(s, c). advance lib hx r s c"
  have later: "\<exists>n s' out. (?f ^^ n) (s, c) = (s', Answered out)"
    if "advance lib hx r s c = (s1, c1)" "\<exists>n s' out. (?f ^^ n) (s1, c1) = (s', Answered out)" for s c s1 c1
  proof -
    from that(2) obtain n s' out where "(?f ^^ n) (s1, c1) = (s', Answered out)" by blast
    then have "(?f ^^ Suc n) (s, c) = (s', Answered out)" by (simp only: funpow_Suc_right o_apply prod.case that(1))
    then show ?thesis by blast
  qed
  have answered: "\<exists>n s' out. (?f ^^ n) (s, Answered o') = (s', Answered out)" for s o'
    by (intro exI[of _ 0]) simp
  have leaving: "\<exists>n s' out. (?f ^^ n) (s, Leaving env st sk) = (s', Answered out)" for s env st sk
    by (rule later[OF _ answered]) (simp add: advance_def)
  have stage: "\<exists>n s' out. (?f ^^ n) (s, InStage log env st o') = (s', Answered out)" for s log env st o'
  proof (induction log arbitrary: s)
    case Nil
    show ?case
    proof (cases o')
      case Applied
      show ?thesis by (rule later[OF _ leaving[of s env st False]]) (simp add: advance_def Applied)
    next
      case (Bypassed why)
      show ?thesis by (rule later[OF _ leaving]) (simp add: advance_def Bypassed)
    qed
  next
    case (Cons i log)
    show ?case by (rule later[OF _ Cons]) (simp add: advance_def)
  qed
  have prepared: "\<exists>n s' out. (?f ^^ n) (s, Prepared env st) = (s', Answered out)" for s env st
  proof -
    obtain b go where b: "allow_at (ci_now r) (pl_redact_breaker s) = (b, go)" by fastforce
    obtain rs env' o' where g: "guarded (redact_as_stage lib) (pl_redact s) env = ((rs, env'), o')" by (metis prod.collapse)
    show ?thesis
    proof (cases go)
      case True
      show ?thesis by (rule later[OF _ stage]) (simp add: advance_def b g True)
    next
      case False
      show ?thesis by (rule later[OF _ leaving]) (simp add: advance_def b False)
    qed
  qed
  show ?thesis
  proof (cases c)
    case Entered
    obtain env st where e: "prepare hx (pl_policy s) (ci_received_at r) (ci_raw r) = (env, st)" by fastforce
    show ?thesis unfolding Entered by (rule later[OF _ prepared]) (simp add: advance_def e)
  qed (use prepared stage leaving answered in simp_all)
qed

lemma run_one:
  "j < length cs \<Longrightarrow> cs ! j = (r, c) \<Longrightarrow> ((\<lambda>(s, c). step r s c) ^^ n) (s, c) = (s', c') \<Longrightarrow>
    run_turns step (replicate n j) (s, cs) = (s', cs[j := (r, c')])"
proof (induction n arbitrary: s cs c)
  case 0
  then show ?case by (simp add: run_turns_def) (metis list_update_id)
next
  case (Suc n)
  obtain s1 c1 where t: "step r s c = (s1, c1)" by fastforce
  from Suc.prems(3) have "((\<lambda>(s, c). step r s c) ^^ n) (s1, c1) = (s', c')" by (simp only: funpow_Suc_right o_apply) (simp add: t)
  with Suc.IH[of "cs[j := (r, c1)]" c1 s1] Suc.prems(1,2) show ?case by (simp add: run_turns_def turn_def t)
qed

lemma run_turns_append: "run_turns step (sched @ sched') st = run_turns step sched' (run_turns step sched st)"
  by (simp add: run_turns_def)

lemma all_come_to_answer: "\<exists>sched s' cs'. run_turns (advance lib hx) sched (s, cs) = (s', cs') \<and> all_answered cs'"
proof -
  have "\<exists>sched s' cs'. run_turns (advance lib hx) sched (s, cs) = (s', cs') \<and> length cs' = length cs \<and>
      (\<forall>j < k. \<exists>out. snd (cs' ! j) = Answered out)" if "k \<le> length cs" for k
    using that
  proof (induction k)
    case 0
    show ?case by (intro exI[of _ "[]"]) (simp add: run_turns_def)
  next
    case (Suc k)
    then obtain sched s1 cs1 where 1: "run_turns (advance lib hx) sched (s, cs) = (s1, cs1)" "length cs1 = length cs"
      "\<forall>j < k. \<exists>out. snd (cs1 ! j) = Answered out" by auto
    obtain r c where rc: "cs1 ! k = (r, c)" by fastforce
    obtain n s2 out where n: "((\<lambda>(s, c). advance lib hx r s c) ^^ n) (s1, c) = (s2, Answered out)"
      using advance_answers by blast
    have "run_turns (advance lib hx) (sched @ replicate n k) (s, cs) = (s2, cs1[k := (r, Answered out)])"
      using run_one[where step = "advance lib hx", OF _ rc n] Suc.prems 1(1,2) by (simp add: run_turns_append)
    moreover have "\<exists>out'. snd (cs1[k := (r, Answered out)] ! j) = Answered out'" if "j < Suc k" for j
      using that 1(2,3) Suc.prems by (cases "j = k") (auto simp: less_Suc_eq)
    ultimately show ?case using 1(2) by (intro exI[of _ "sched @ replicate n k"] exI[of _ s2] exI[of _ "cs1[k := (r, Answered out)]"]) simp
  qed
  from this[OF order_refl] obtain sched s' cs' where s: "run_turns (advance lib hx) sched (s, cs) = (s', cs')" "length cs' = length cs"
    "\<forall>j < length cs. \<exists>out. snd (cs' ! j) = Answered out" by blast
  then have "all_answered cs'" by (auto simp: all_answered_def in_set_conv_nth) (metis prod.collapse snd_conv)
  with s(1) show ?thesis by blast
qed

lemma count_list_concat_sum: "(of_nat (count_list (concat (map f xs)) i) :: u64) = (\<Sum>x \<leftarrow> xs. of_nat (count_list (f x) i))"
  by (induction xs) simp_all

text \<open>
  C9: Requests that overlap are as good as requests one after the other: whatever the schedule of the
  atomic operations of any number of calls on a pipeline in service, with a regex library that works
  as documented, once all have answered, every answer is the one that the call gives in a sequential
  run of the same requests, and the pipeline is the one that this run leaves: no match is lost from
  the counters.  Every schedule can be continued until all have answered.
\<close>

theorem concurrent_serial:
  assumes "in_service lib hx self" "regex_contract lib" "\<forall>r \<in> set inputs. length (ci_raw r) < 2 ^ 64"
    and "run_turns (advance lib hx) sched (self, calls_of inputs) = (self', cs)"
  shows "(\<exists>sched' s' cs'. run_turns (advance lib hx) (sched @ sched') (self, calls_of inputs) = (s', cs') \<and> all_answered cs') \<and>
    (all_answered cs \<longrightarrow> (\<exists>outs. process_all lib hx inputs self = Some (self', outs) \<and>
       cs = zip inputs (map (\<lambda>out. Answered (Some out)) outs)))"
proof -
  obtain sched' s' cs' where "run_turns (advance lib hx) sched' (self', cs) = (s', cs')" "all_answered cs'"
    using all_come_to_answer by blast
  then have "\<exists>sched' s' cs'. run_turns (advance lib hx) (sched @ sched') (self, calls_of inputs) = (s', cs') \<and> all_answered cs'"
    using assms(4) by (auto simp: run_turns_append)
  moreover have "\<exists>outs. process_all lib hx inputs self = Some (self', outs) \<and> cs = zip inputs (map (\<lambda>out. Answered (Some out)) outs)"
    if all: "all_answered cs"
  proof -
    let ?b = "pl_redact_breaker self"
    have ok: "serial_ok lib self self" by (rule serial_ok_self[OF in_service_ok[OF assms(1,2)]])
    have start: "\<forall>(r, c) \<in> set (calls_of inputs). call_serial lib hx self r c" by (auto simp: calls_of_def call_serial_def Let_def)
    from serial_state.run_ok[OF ok start assms(4)]
    have s': "serial_ok lib self self'" and c: "\<forall>(r, c) \<in> set cs. call_serial lib hx self r c" and f: "map fst cs = inputs"
      by (simp_all add: calls_of_def o_def)
    obtain s1 outs where P: "process_all lib hx inputs self = Some (s1, outs)" "serial_ok lib self s1"
      "map Some outs = map (\<lambda>r. alone lib hx self r ?b) inputs"
      "rs_counts (pl_redact s1) = fold bump (concat (map (call_log lib hx self) inputs)) (rs_counts (pl_redact self))"
      using process_all_serial[OF ok assms(3) contract_inside[OF assms(2)]] by blast
    have ans: "snd rc = Answered (alone lib hx self (fst rc) ?b)" if "rc \<in> set cs" for rc
      using that all c by (fastforce simp: all_answered_def call_serial_def Let_def split: prod.splits)
    have "map snd cs = map (\<lambda>r. Answered (alone lib hx self r ?b)) (map fst cs)" using ans by simp
    also have "\<dots> = map (\<lambda>out. Answered (Some out)) outs" unfolding f using P(3) by (metis (no_types, lifting) list.map_comp o_def map_eq_conv)
    finally have cs: "cs = zip inputs (map (\<lambda>out. Answered (Some out)) outs)" using f by (metis zip_map_fst_snd)
    have l: "length (rs_counts (pl_redact self')) = length (rs_counts (pl_redact self))"
      "length (rs_counts (pl_redact s1)) = length (rs_counts (pl_redact self))"
      using s' P(2) by (simp_all add: serial_ok_def)
    have "rs_counts (pl_redact self') ! i = rs_counts (pl_redact s1) ! i" if i: "i < length (rs_counts (pl_redact self))" for i
    proof -
      have "serial_ok lib self self \<and> i < length (rs_counts (pl_redact self))" using ok i by blast
      from serial.run_conserved[OF this start assms(4)]
      have "rs_counts (pl_redact self') ! i + sum_list (map (case_prod (pending lib hx self i)) cs) =
          rs_counts (pl_redact self) ! i + (\<Sum>r \<leftarrow> inputs. of_nat (count_list (call_log lib hx self r) i))"
        by (simp add: calls_of_def o_def pending_def)
      moreover have "map (case_prod (pending lib hx self i)) cs = map (\<lambda>_. 0) cs"
        by (intro map_cong refl) (drule ans, auto simp: pending_def split_beta)
      then have "sum_list (map (case_prod (pending lib hx self i)) cs) = 0" by (simp only:) simp
      ultimately show ?thesis using i by (simp add: P(4) bumps_nth count_list_concat_sum)
    qed
    then have "rs_counts (pl_redact self') = rs_counts (pl_redact s1)" using l by (intro nth_equalityI) simp_all
    then have "self' = s1" using s' P(2) by (metis serial_ok_def)
    with P(1) cs show ?thesis by blast
  qed
  ultimately show ?thesis by blast
qed

theorem concurrent_serial_witness:
  "\<exists>sched self' cs outs. run_turns (advance byte_lib poly_hasher) ([0, 1, 1, 0, 0, 1] @ sched)
      (body_pipeline, calls_of [\<lparr>ci_received_at = 0, ci_now = 5, ci_raw = at_request\<rparr>, \<lparr>ci_received_at = 1, ci_now = 7, ci_raw = at_request\<rparr>]) = (self', cs) \<and>
    all_answered cs \<and>
    process_all byte_lib poly_hasher [\<lparr>ci_received_at = 0, ci_now = 5, ci_raw = at_request\<rparr>, \<lparr>ci_received_at = 1, ci_now = 7, ci_raw = at_request\<rparr>]
      body_pipeline = Some (self', outs)"
proof -
  let ?inputs = "[\<lparr>ci_received_at = 0, ci_now = 5, ci_raw = at_request\<rparr>, \<lparr>ci_received_at = 1, ci_now = 7, ci_raw = at_request\<rparr>]"
  note T = concurrent_serial[OF body_in_service byte_lib_contract, of ?inputs poly_hasher]
  have short: "\<forall>r \<in> set ?inputs. length (ci_raw r) < 2 ^ 64" by (simp add: at_request_def)
  obtain self1 cs1 where 1: "run_turns (advance byte_lib poly_hasher) [0, 1, 1, 0, 0, 1] (body_pipeline, calls_of ?inputs) = (self1, cs1)"
    by fastforce
  from T[OF short 1] obtain sched self' cs where
    2: "run_turns (advance byte_lib poly_hasher) ([0, 1, 1, 0, 0, 1] @ sched) (body_pipeline, calls_of ?inputs) = (self', cs)" "all_answered cs"
    by blast
  from T[OF short 2(1)] 2 show ?thesis by blast
qed

end
