(* ===== verification/Render.thy ===== *)
theory Render
  imports Metrics Decimal
begin

text \<open>
  The text of an aggregate, \<^verbatim>\<open>Display for Aggregate\<close> of \<^verbatim>\<open>crates/archiv-metrics/src/lib.rs\<close>, and the clock
  that stamps it, \<^verbatim>\<open>now_ms\<close> of \<^verbatim>\<open>src/metrics.rs\<close>.
\<close>

section \<open>Numbers\<close>

definition u64_text :: "u64 \<Rightarrow> u8 list" where
  "u64_text n = decimal (unat n)"

text \<open>A negative number is a minus sign, byte 45, and its magnitude.\<close>

definition i64_text :: "i64 \<Rightarrow> u8 list" where
  "i64_text n = (if sint n < 0 then 45 # decimal (nat (- sint n)) else decimal (nat (sint n)))"

lemma u64_text_digits [simp]: "list_all is_digit (u64_text n)"
  by (simp add: u64_text_def decimal_digits)

lemma u64_text_inj [simp]: "u64_text m = u64_text n \<longleftrightarrow> m = n"
  by (auto simp: u64_text_def word_unat_eq_iff dest: decimal_inj)

definition numeric :: "u8 \<Rightarrow> bool" where
  "numeric b \<longleftrightarrow> is_digit b \<or> b = 45"

lemma decimal_no_sign: "45 # s \<noteq> decimal n" "decimal n \<noteq> 45 # s"
proof -
  have "45 \<notin> set (decimal n)" using decimal_digits[of n] by (auto simp: list_all_iff is_digit_def)
  then show "45 # s \<noteq> decimal n" "decimal n \<noteq> 45 # s" by (metis list.set_intros(1))+
qed

lemma i64_text_inj [simp]: "i64_text m = i64_text n \<longleftrightarrow> m = n"
proof
  assume e: "i64_text m = i64_text n"
  have "sint m = sint n"
    using e by (auto simp: i64_text_def decimal_no_sign split: if_splits dest!: decimal_inj)
  then show "m = n" by (metis signed_word_eqI)
qed simp

lemma i64_text_numeric [simp]: "list_all numeric (i64_text n)"
  using decimal_digits by (auto simp: i64_text_def numeric_def list_all_iff)

lemma u64_text_numeric [simp]: "list_all numeric (u64_text n)"
  using u64_text_digits[of n] by (auto simp: numeric_def list_all_iff)

text \<open>A numeral ends at the first byte that cannot belong to it.\<close>

lemma append_sep:
  assumes "list_all P xs" "list_all P ys" "\<not> P c" "\<not> P d"
  shows "xs @ c # s = ys @ d # t \<longleftrightarrow> xs = ys \<and> c = d \<and> s = t"
proof
  assume e: "xs @ c # s = ys @ d # t"
  have "takeWhile P (xs @ c # s) = xs" "takeWhile P (ys @ d # t) = ys"
    using assms by (simp_all add: list_all_iff takeWhile_append2)
  with e show "xs = ys \<and> c = d \<and> s = t" by simp
qed simp

lemma numeric_literals [simp]: "\<not> numeric 32" "\<not> numeric 44" "\<not> numeric 93"
  by (simp_all add: numeric_def is_digit_def)

lemmas sep_simps = append_sep[of numeric, OF u64_text_numeric u64_text_numeric]
  append_sep[of numeric, OF i64_text_numeric i64_text_numeric]

section \<open>Aggregates\<close>

definition aggregate_text :: "aggregate \<Rightarrow> u8 list" where
  "aggregate_text a =
     bytes ''seq='' @ u64_text (ag_seq a) @
     bytes '' window=['' @ i64_text (ag_window_start_ms a) @ bytes '','' @ i64_text (ag_window_end_ms a) @
     bytes ''] policy_version='' @ u64_text (ag_policy_version a) @
     bytes '' events_in='' @ u64_text (ag_events_in a) @
     bytes '' sampled_out='' @ u64_text (ag_events_sampled_out a) @
     bytes '' exported='' @ u64_text (ag_events_exported a) @
     bytes '' bytes_in='' @ u64_text (ag_bytes_in a) @
     bytes '' bytes_dropped='' @ u64_text (ag_bytes_dropped a) @
     bytes '' bytes_exported='' @ u64_text (ag_bytes_exported a) @
     bytes '' redactions='' @ u64_text (ag_redaction_count a) @
     bytes '' failopen='' @ u64_text (ag_failopen_count a)"

text \<open>The errors of a sink, in the words of their \<^verbatim>\<open>thiserror\<close> attributes.\<close>

primrec sink_error_text :: "sink_error \<Rightarrow> u8 list" where
  "sink_error_text Unimplemented = bytes ''aggregate sink not implemented in this build''"
| "sink_error_text (Delivery why) = bytes ''aggregate delivery failed: '' @ why"

section \<open>The clock\<close>

text \<open>
  A system time is a number of nanoseconds from the epoch.  The milliseconds of the duration are a
  \<^verbatim>\<open>u128\<close>, which \<^verbatim>\<open>as i64\<close> truncates.
\<close>

definition now_ms :: "int \<Rightarrow> i64" where
  "now_ms t = (if 0 \<le> t then of_int (t div 10 ^ 6) else 0)"

lemma now_ms_value: "0 \<le> t \<Longrightarrow> t < 2 ^ 63 * 10 ^ 6 \<Longrightarrow> sint (now_ms t) = t div 10 ^ 6"
  unfolding now_ms_def by (simp add: signed_of_int) (rule signed_take_bit_int_eq_self; simp)

lemma now_ms_mono:
  assumes "t \<le> u" "u < 2 ^ 63 * 10 ^ 6"
  shows "sint (now_ms t) \<le> sint (now_ms u)"
proof (cases "0 \<le> t")
  case True
  with assms show ?thesis by (simp add: now_ms_value zdiv_mono1)
next
  case False
  then have "sint (now_ms t) = 0" by (simp add: now_ms_def)
  moreover have "0 \<le> sint (now_ms u)"
    using assms by (cases "0 \<le> u") (simp_all add: now_ms_value, simp add: now_ms_def)
  ultimately show ?thesis by simp
qed

section \<open>Properties\<close>

text \<open>
  The line of an aggregate holds its numbers and nothing else: two aggregates have the same line only
  if they are equal, so that every number can be read back, and with the fixed words taken out the
  line consists of digits and minus signs.
\<close>

theorem aggregate_text_faithful:
  "(aggregate_text a = aggregate_text b \<longleftrightarrow> a = b) \<and>
   (\<exists>nums. length nums = 12 \<and> list_all (list_all numeric) nums \<and>
      aggregate_text a = concat (map2 (@) (map bytes [''seq='', '' window=['', '','', ''] policy_version='', '' events_in='',
        '' sampled_out='', '' exported='', '' bytes_in='', '' bytes_dropped='', '' bytes_exported='', '' redactions='',
        '' failopen='']) nums))"
proof
  have "aggregate_text a = aggregate_text b \<Longrightarrow> a = b"
    by (cases a; cases b) (simp add: aggregate_text_def sep_simps)
  then show "aggregate_text a = aggregate_text b \<longleftrightarrow> a = b" by auto
  show "\<exists>nums. length nums = 12 \<and> list_all (list_all numeric) nums \<and>
      aggregate_text a = concat (map2 (@) (map bytes [''seq='', '' window=['', '','', ''] policy_version='', '' events_in='',
        '' sampled_out='', '' exported='', '' bytes_in='', '' bytes_dropped='', '' bytes_exported='', '' redactions='',
        '' failopen='']) nums)"
    by (rule exI[of _ "[u64_text (ag_seq a), i64_text (ag_window_start_ms a), i64_text (ag_window_end_ms a),
        u64_text (ag_policy_version a), u64_text (ag_events_in a), u64_text (ag_events_sampled_out a), u64_text (ag_events_exported a),
        u64_text (ag_bytes_in a), u64_text (ag_bytes_dropped a), u64_text (ag_bytes_exported a), u64_text (ag_redaction_count a),
        u64_text (ag_failopen_count a)]"]) (simp add: aggregate_text_def)
qed

end
