(* ===== verification/UnitTests.thy ===== *)
theory UnitTests
  imports Breaker Reparse Render Config
begin

text \<open>
  The unit tests of the repository, run on the model: the test modules of \<^verbatim>\<open>glob.rs\<close>, \<^verbatim>\<open>lint.rs\<close>,
  \<^verbatim>\<open>envelope.rs\<close>, \<^verbatim>\<open>guard.rs\<close>, \<^verbatim>\<open>breaker.rs\<close> and of the crates for sampling, redaction, export,
  metrics and configuration.  A test is a predicate with the source's inputs and assertions, and the
  lemma after it says that the model passes it; what a test takes from a third-party crate is a
  parameter, and where it asserts more of that crate than its documentation, the lemma says of what
  instance.  So the definitions of the other theories agree with the code on the inputs its authors
  chose.

  Left out are the assertions on the JSON text and the rate measured with a million trace ids.
\<close>

section \<open>Wildcards and the lint\<close>

definition test_glob_semantics :: bool where
  "test_glob_semantics \<longleftrightarrow>
     glob_match (bytes ''*'') (bytes ''anything'') \<and>
     glob_match (bytes ''*'') (bytes '''') \<and>
     glob_match (bytes ''user.*'') (bytes ''user.email'') \<and>
     glob_match (bytes ''user.*'') (bytes ''user.'') \<and>
     \<not> glob_match (bytes ''user.*'') (bytes ''username'') \<and>
     glob_match (bytes ''*.email'') (bytes ''user.email'') \<and>
     glob_match (bytes ''u*r.*l'') (bytes ''user.email'') \<and>
     glob_match (bytes ''exact'') (bytes ''exact'') \<and>
     \<not> glob_match (bytes ''exact'') (bytes ''exact-no'') \<and>
     \<not> glob_match (bytes '''') (bytes ''x'') \<and>
     glob_match (bytes '''') (bytes '''')"

lemma glob_semantics_passes: test_glob_semantics
  by (simp add: test_glob_semantics_def glob_match_def matches_loop.simps skip_stars.simps)

text \<open>A literal cannot hold a backslash.\<close>

abbreviation BACKSLASH :: u8 where
  "BACKSLASH \<equiv> 92"

definition test_rejects_nested_unbounded :: bool where
  "test_rejects_nested_unbounded \<longleftrightarrow>
     list_all (\<lambda>p. \<not> is_Ok (check_nested_repetition p))
       [bytes ''(a+)+'', bytes ''([a-z]*)*'', bytes ''(a+)*'', bytes ''(?:'' @ [BACKSLASH] @ bytes ''d+){3,}'', bytes ''((ab)+c)*'',
        bytes ''(x{2,})+'']"

lemma rejects_nested_unbounded_passes: test_rejects_nested_unbounded
  unfolding test_rejects_nested_unbounded_def by code_simp

definition test_accepts_safe_patterns :: bool where
  "test_accepts_safe_patterns \<longleftrightarrow>
     list_all (\<lambda>p. is_Ok (check_nested_repetition p))
       [bytes ''[A-Za-z0-9._%+-]+@[A-Za-z0-9.-]+'' @ [BACKSLASH] @ bytes ''.[A-Za-z]{2,}'', bytes ''(a+)b+'', bytes ''(a+){3}'',
        bytes ''(a{2,4})+'', bytes ''(abc)+'', [BACKSLASH] @ bytes ''(a+'' @ [BACKSLASH] @ bytes '')+'', bytes ''[(+*]+'',
        bytes ''a{3}'' @ [BACKSLASH] @ bytes ''{4,'' @ [BACKSLASH] @ bytes ''}'']"

lemma accepts_safe_patterns_passes: test_accepts_safe_patterns
  unfolding test_accepts_safe_patterns_def by code_simp

section \<open>Envelopes\<close>

definition test_trace_id_binary_and_hex_agree :: bool where
  "test_trace_id_binary_and_hex_agree \<longleftrightarrow>
     (let hex = bytes ''00112233445566778899aabbccddeeff'';
          bin = [0x00, 0x11, 0x22, 0x33, 0x44, 0x55, 0x66, 0x77, 0x88, 0x99, 0xaa, 0xbb, 0xcc, 0xdd, 0xee, 0xff];
          raw = hex @ bin;
          hex_view = \<lparr>rv_body = rng 0 0, rv_trace_id = Some (rng 0 32), rv_attrs = [], rv_severity_number = None,
            rv_namespace = None, rv_service_name = None\<rparr>;
          bin_view = \<lparr>rv_body = rng 0 0, rv_trace_id = Some (rng 32 48), rv_attrs = [], rv_severity_number = None,
            rv_namespace = None, rv_service_name = None\<rparr>
      in trace_id_bytes hex_view raw = Some bin \<and> trace_id_bytes bin_view raw = Some bin)"

lemma trace_id_binary_and_hex_agree_passes: test_trace_id_binary_and_hex_agree
  unfolding test_trace_id_binary_and_hex_agree_def by code_simp

definition test_malformed_trace_id_is_none :: bool where
  "test_malformed_trace_id_is_none \<longleftrightarrow>
     (let raw = bytes ''zz112233445566778899aabbccddeeffXX'';
          view = \<lparr>rv_body = rng 0 0, rv_trace_id = Some (rng 0 32), rv_attrs = [], rv_severity_number = None,
            rv_namespace = None, rv_service_name = None\<rparr>
      in trace_id_bytes view raw = None)"

lemma malformed_trace_id_is_none_passes: test_malformed_trace_id_is_none
  unfolding test_malformed_trace_id_is_none_def by code_simp

definition test_clear_stage_removes_only_that_stage :: bool where
  "test_clear_stage_removes_only_that_stage \<longleftrightarrow>
     (let redact = StageId ''redact-regex''; wasm = StageId ''redact-wasm'';
          d = push_redaction redact 0 \<lparr>rd_target = rng 0 4, rd_mask = MaskId 1\<rparr> decisions_default;
          d = push_redaction wasm 0 \<lparr>rd_target = rng 5 9, rd_mask = MaskId 2\<rparr> d;
          d = set_sampling [Drop] d;
          d1 = clear_stage wasm d;
          d2 = clear_stage STAGE_SAMPLE d1
      in length (redactions_for d1 0) = 1 \<and> sampling_verdict d1 0 = Drop \<and> sampling_verdict d2 0 = Keep)"

lemma clear_stage_removes_only_that_stage_passes: test_clear_stage_removes_only_that_stage
  unfolding test_clear_stage_removes_only_that_stage_def by code_simp

section \<open>The guard\<close>

definition panic_stage :: "unit stage" where
  "panic_stage = \<lparr>st_id = StageId ''panic-test'', st_apply = (\<lambda>self env.
     ((self, env\<lparr>ev_decisions := push_redaction (StageId ''panic-test'') 0 \<lparr>rd_target = rng 0 2, rd_mask = MaskId 9\<rparr> (ev_decisions env)\<rparr>), Panic))\<rparr>"

definition failing_stage :: "unit stage" where
  "failing_stage = \<lparr>st_id = StageId ''failing-test'', st_apply = (\<lambda>self env. ((self, env), Err (RuleFailed 7 ''bad pattern'')))\<rparr>"

definition ok_stage :: "unit stage" where
  "ok_stage = \<lparr>st_id = StageId ''ok-test'', st_apply = (\<lambda>self env.
     ((self, env\<lparr>ev_decisions := push_redaction (StageId ''ok-test'') 0 \<lparr>rd_target = rng 0 1, rd_mask = MaskId 1\<rparr> (ev_decisions env)\<rparr>), Ok ()))\<rparr>"

definition test_panic_is_contained :: bool where
  "test_panic_is_contained \<longleftrightarrow>
     (let payload = bytes ''original payload'';
          env = envelope_new 0 payload;
          ((_, env), outcome_ok) = guarded ok_stage () env;
          ((_, env), outcome) = guarded panic_stage () env
      in outcome_ok = Applied \<and> outcome = Bypassed BypassPanic \<and>
         length (redactions_for (ev_decisions env) 0) = 1 \<and> ev_raw env = payload)"

lemma panic_is_contained_passes: test_panic_is_contained
  unfolding test_panic_is_contained_def by code_simp

definition test_error_bypasses_with_reason :: bool where
  "test_error_bypasses_with_reason \<longleftrightarrow>
     (case guarded failing_stage () (envelope_new 0 (bytes ''payload'')) of
        (_, Bypassed (BypassError (RuleFailed rule_id reason))) \<Rightarrow> rule_id = 7
      | _ \<Rightarrow> False)"

lemma error_bypasses_with_reason_passes: test_error_bypasses_with_reason
  unfolding test_error_bypasses_with_reason_def by code_simp

section \<open>The circuit breaker\<close>

definition test_trips_after_threshold_within_window :: "instant \<Rightarrow> bool" where
  "test_trips_after_threshold_within_window t0 \<longleftrightarrow>
     (let b = breaker_new t0 3 (from_secs 10) (from_secs 30);
          (b, allowed) = allow_at t0 b;
          (b, f1) = record_fault_at t0 b;
          (b, f2) = record_fault_at t0 b;
          (b, f3) = record_fault_at t0 b
      in allowed \<and> \<not> f1 \<and> \<not> f2 \<and> f3 \<and> \<not> snd (allow_at t0 b))"

definition test_faults_outside_window_do_not_accumulate :: "instant \<Rightarrow> bool" where
  "test_faults_outside_window_do_not_accumulate t0 \<longleftrightarrow>
     (let b = breaker_new t0 3 (from_secs 10) (from_secs 30);
          b = fst (record_fault_at t0 b);
          b = fst (record_fault_at t0 b);
          t1 = t0 + from_secs 11;
          (b, f) = record_fault_at t1 b
      in \<not> f \<and> snd (allow_at t1 b))"

definition test_closes_after_cooldown_and_can_retrip :: "instant \<Rightarrow> bool" where
  "test_closes_after_cooldown_and_can_retrip t0 \<longleftrightarrow>
     (let b = breaker_new t0 2 (from_secs 10) (from_secs 30);
          b = fst (record_fault_at t0 b);
          (b, f2) = record_fault_at t0 b;
          (b, a0) = allow_at t0 b;
          t1 = t0 + from_secs 31;
          (b, a1) = allow_at t1 b;
          b = fst (record_fault_at t1 b);
          (b, f4) = record_fault_at t1 b
      in f2 \<and> \<not> a0 \<and> a1 \<and> f4 \<and> \<not> snd (allow_at t1 b))"

text \<open>The clock is read between the construction and the first call; the tests pass for every reading.\<close>

lemmas breaker_test_defs = Let_def breaker_new_def from_secs_def allow_at_def record_fault_at_def
  saturating_duration_since_def word_le_nat_alt

lemma breaker_tests_pass:
  "test_trips_after_threshold_within_window t0" "test_faults_outside_window_do_not_accumulate t0"
  "test_closes_after_cooldown_and_can_retrip t0"
  by (simp_all add: test_trips_after_threshold_within_window_def test_faults_outside_window_do_not_accumulate_def
      test_closes_after_cooldown_and_can_retrip_def breaker_test_defs)

section \<open>The export\<close>

definition test_varint_len_matches_encoding :: bool where
  "test_varint_len_matches_encoding \<longleftrightarrow>
     list_all (\<lambda>v. varint_len v = length (put_varint v)) [0, 1, 127, 128, 16383, 16384, ucast (- 1 :: u32), - 1]"

lemma varint_len_matches_encoding_passes: test_varint_len_matches_encoding
  unfolding test_varint_len_matches_encoding_def by (simp add: list_all_iff length_put_varint)

section \<open>Sampling\<close>

text \<open>The generator of test ids; the state it leaves is the number it returns.\<close>

definition xorshift64 :: "u64 \<Rightarrow> u64" where
  "xorshift64 state =
     (let x = state;
          x = x XOR push_bit 13 x;
          x = x XOR drop_bit 7 x;
          x = x XOR push_bit 17 x
      in x)"

definition to_be_bytes :: "u64 \<Rightarrow> u8 list" where
  "to_be_bytes v = map (\<lambda>i. ucast (drop_bit (8 * (7 - i)) v)) [0..<8]"

definition test_id :: "u64 \<Rightarrow> u8 list \<times> u64" where
  "test_id state = (let a = xorshift64 state; b = xorshift64 a in (to_be_bytes a @ to_be_bytes b, b))"

fun test_ids :: "nat \<Rightarrow> u64 \<Rightarrow> u8 list list" where
  "test_ids 0 s = []"
| "test_ids (Suc n) s = (case test_id s of (i, s') \<Rightarrow> i # test_ids n s')"

definition test_target_0_drops_everything_target_100_keeps_everything :: "'h hasher \<Rightarrow> bool" where
  "test_target_0_drops_everything_target_100_keeps_everything hx \<longleftrightarrow>
     list_all (\<lambda>i. \<not> keep hx i 0 \<and> keep hx i 100) (test_ids 10000 0x243F6A8885A308D3)"

definition test_bucket_and_keep_agree_at_every_target :: "'h hasher \<Rightarrow> bool" where
  "test_bucket_and_keep_agree_at_every_target hx \<longleftrightarrow>
     list_all (\<lambda>i. list_all (\<lambda>target. keep hx i (of_nat target) \<longleftrightarrow> bucket hx i < of_nat target) [0..<101])
       (test_ids 1000 0x0123456789ABCDEF)"

lemma sampling_tests_pass:
  "test_target_0_drops_everything_target_100_keeps_everything hx" "test_bucket_and_keep_agree_at_every_target hx"
proof -
  have "h mod 100 < 100" for h :: u64 by (simp add: word_less_nat_alt unat_mod_100)
  then show "test_target_0_drops_everything_target_100_keeps_everything hx"
    by (simp add: test_target_0_drops_everything_target_100_keeps_everything_def list_all_iff keep_def)
  have "keep hx i target \<longleftrightarrow> bucket hx i < target" for i target
    by (simp add: keep_def mod_100_less word_less_nat_alt[of "bucket hx i"] unat_bucket)
  then show "test_bucket_and_keep_agree_at_every_target hx"
    by (simp add: test_bucket_and_keep_agree_at_every_target_def list_all_iff)
qed

definition test_fallback_streaming_equals_concatenation :: "'h hasher \<Rightarrow> bool" where
  "test_fallback_streaming_equals_concatenation hx \<longleftrightarrow>
     (let k1 = fallback_key hx (bytes ''ab'') (bytes ''c'');
          k2 = fallback_key hx (bytes ''a'') (bytes ''bc'');
          concatenated = bytes ''checkout-service'' @ [0] @ bytes ''user login succeeded''
      in k1 \<noteq> k2 \<and> fallback_key hx (bytes ''checkout-service'') (bytes ''user login succeeded'') = hx_oneshot hx concatenated SEED)"

text \<open>
  The streaming half passes for every hash that streams; that the two keys differ is a fact of the
  hash at hand, here the polynomial one.
\<close>

lemma fallback_streaming_equals_concatenation_passes: "test_fallback_streaming_equals_concatenation poly_hasher"
  by (simp add: test_fallback_streaming_equals_concatenation_def fallback_key_def poly_hasher_def SEED_def)

section \<open>Metrics\<close>

definition test_sample :: "u64 \<Rightarrow> u64 \<Rightarrow> u64 \<Rightarrow> u64 \<Rightarrow> sample" where
  "test_sample events_in dropped bytes_in bytes_out =
     \<lparr>sm_events_in = events_in, sm_events_sampled_out = dropped, sm_events_exported = events_in - dropped,
      sm_bytes_in = bytes_in, sm_bytes_exported = bytes_out, sm_redaction_count = 0, sm_failed_open = False\<rparr>"

text \<open>\<^verbatim>\<open>CollectSink\<close>: the aggregates delivered are the state.\<close>

definition collect_sink :: "aggregate list sink" where
  "collect_sink = \<lparr>sk_deliver = (\<lambda>got agg. (got @ [agg], Inr ()))\<rparr>"

definition test_sink_receives_flushed_aggregate :: bool where
  "test_sink_receives_flushed_aggregate \<longleftrightarrow>
     (let m = metrics_record (test_sample 4 1 40 30) (metrics_new 0);
          (m, agg) = metrics_flush 0 10000 m;
          (got, delivered) = sk_deliver collect_sink [] agg
      in delivered = Inr () \<and> length got = 1 \<and> ag_events_in (got ! 0) = 4 \<and> ag_bytes_dropped (got ! 0) = 10)"

definition test_flush_sums_inputs_then_resets :: bool where
  "test_flush_sums_inputs_then_resets \<longleftrightarrow>
     (let m = metrics_record (test_sample 10 4 1000 600) (metrics_new 0);
          m = metrics_record (test_sample 5 1 500 500) m;
          (m, agg) = metrics_flush 100 10100 m;
          (m, none) = metrics_flush 10100 20100 m
      in ag_seq agg = 0 \<and> ag_window_start_ms agg = 100 \<and> ag_window_end_ms agg = 10100 \<and> ag_events_in agg = 15 \<and>
         ag_events_sampled_out agg = 5 \<and> ag_events_exported agg = 10 \<and> ag_bytes_in agg = 1500 \<and>
         ag_bytes_exported agg = 1100 \<and> ag_bytes_dropped agg = 400 \<and>
         ag_seq none = 1 \<and> ag_events_in none = 0 \<and> ag_bytes_dropped none = 0)"

definition test_failopen_counts_only_governance_bypass :: bool where
  "test_failopen_counts_only_governance_bypass \<longleftrightarrow>
     (let s = (test_sample 1 0 10 10)\<lparr>sm_failed_open := True\<rparr>;
          m = metrics_record s (metrics_new 0);
          m = metrics_record (test_sample 1 0 10 10) m
      in ag_failopen_count (snd (metrics_flush 0 10000 m)) = 1)"

definition test_bytes_dropped_saturates_when_output_grew :: bool where
  "test_bytes_dropped_saturates_when_output_grew \<longleftrightarrow>
     bytes_dropped \<lparr>sm_events_in = 0, sm_events_sampled_out = 0, sm_events_exported = 0, sm_bytes_in = 100,
       sm_bytes_exported = 130, sm_redaction_count = 0, sm_failed_open = False\<rparr> = 0"

lemma metrics_tests_pass:
  test_sink_receives_flushed_aggregate test_flush_sums_inputs_then_resets
  test_failopen_counts_only_governance_bypass test_bytes_dropped_saturates_when_output_grew
  by (simp_all add: test_sink_receives_flushed_aggregate_def test_flush_sums_inputs_then_resets_def
      test_failopen_counts_only_governance_bypass_def test_bytes_dropped_saturates_when_output_grew_def Let_def
      metrics_flush_def metrics_record_def metrics_new_def counters_drain_value counters_record_def record_adds_def
      fetch_add_def counters_default_def test_sample_def collect_sink_def bytes_dropped_def saturating_sub_def
      word_le_nat_alt word_less_nat_alt)

text \<open>
  Eight threads of ten thousand requests each: one thread is the sequence of the additions of its
  requests, and the test is about the register of any state in which all have run to their end.
\<close>

definition recording_threads :: shared where
  "recording_threads = \<lparr>sh_metrics = metrics_new 0,
     sh_threads = replicate 8 (Recording (concat (replicate 10000 (record_adds (test_sample 2 1 20 12)))))\<rparr>"

definition test_concurrent_records_lose_no_increment :: "shared \<Rightarrow> bool" where
  "test_concurrent_records_lose_no_increment s \<longleftrightarrow>
     (let agg = snd (metrics_flush 0 10000 (sh_metrics s))
      in ag_events_in agg = 8 * 10000 * 2 \<and> ag_events_sampled_out agg = 8 * 10000 \<and> ag_bytes_dropped agg = 8 * 10000 * 8)"

lemma sum_filter_concat:
  "sum_list (map f (filter P (concat (replicate n xs)))) = of_nat n * sum_list (map f (filter P xs))"
  for f :: "'a \<Rightarrow> u64"
  by (induction n) (simp_all add: algebra_simps)

lemma concurrent_records_lose_no_increment_passes:
  assumes "atomic_step\<^sup>*\<^sup>* recording_threads s" "sh_threads s = replicate 8 (Recording [])"
  shows "test_concurrent_records_lose_no_increment s"
proof -
  have "threads_ok recording_threads" by (simp add: threads_ok_def recording_threads_def list_all_length)
  from total_steps[OF assms(1) this]
  have t: "counter_total c s = counter_total c recording_threads" for c by blast
  have e: "read_counter c (me_counters (sh_metrics s)) = counter_total c s" for c
    by (simp add: counter_total_def assms(2) sum_list_replicate)
  have "read_counter c (me_counters (sh_metrics s)) = 80000 * sample_count c (test_sample 2 1 20 12)" for c
    unfolding e t
    by (simp add: counter_total_def recording_threads_def metrics_new_def sum_list_replicate sum_filter_concat)
      (simp add: holds_record[symmetric] del: holds_record)
  then have "read_counter EventsIn (me_counters (sh_metrics s)) = 160000"
    "read_counter SampledOut (me_counters (sh_metrics s)) = 80000" "read_counter BytesDropped (me_counters (sh_metrics s)) = 640000"
    by (simp_all add: test_sample_def bytes_dropped_def saturating_sub_def word_le_nat_alt)
  then show ?thesis
    by (simp add: test_concurrent_records_lose_no_increment_def metrics_flush_def counters_drain_value)
qed

text \<open>The line of an aggregate.\<close>

definition contains :: "u8 list \<Rightarrow> u8 list \<Rightarrow> bool" where
  "contains line part \<longleftrightarrow> list_ex (\<lambda>i. take (length part) (drop i line) = part) [0..<length line + 1]"

definition test_display_is_numbers_only :: bool where
  "test_display_is_numbers_only \<longleftrightarrow>
     (let agg = snd (metrics_flush 1 2 (metrics_new 3)); line = aggregate_text agg
      in contains line (bytes ''policy_version=3'') \<and> contains line (bytes ''bytes_dropped=0''))"

lemma display_is_numbers_only_passes: test_display_is_numbers_only
  unfolding test_display_is_numbers_only_def by code_simp

end
