(* ===== verification/Perf.thy ===== *)
theory Perf
  imports Pipeline
begin

text \<open>
  The workload of the gate harness, \<^verbatim>\<open>examples/perf.rs\<close>: its own OTLP encoder and the synthetic requests.
  The encoder shares no code with the agent, so reading its requests back is a check of the parser
  against an independent writer.
\<close>

section \<open>The encoder\<close>

function varint :: "u64 \<Rightarrow> u8 list \<Rightarrow> u8 list" where
  "varint v out =
     (let b = ucast (v AND 0x7F); v' = drop_bit 7 v
      in if v' = 0 then out @ [b] else varint v' (out @ [b OR 0x80]))"
  by pat_completeness auto
termination
  by (relation "measure (\<lambda>(v, out). unat v)") (auto intro: drop_bit_7_less)

declare varint.simps [simp del]

definition field_len :: "u32 \<Rightarrow> u8 list \<Rightarrow> u8 list \<Rightarrow> u8 list" where
  "field_len field pl out = varint (of_nat (length pl)) (varint (push_bit 3 (ucast field) OR 2) out) @ pl"

definition field_varint :: "u32 \<Rightarrow> u64 \<Rightarrow> u8 list \<Rightarrow> u8 list" where
  "field_varint field v out = varint v (varint (push_bit 3 (ucast field)) out)"

definition any_string :: "u8 list \<Rightarrow> u8 list" where
  "any_string s = field_len 1 s []"

definition key_value :: "u8 list \<Rightarrow> u8 list \<Rightarrow> u8 list" where
  "key_value key val = field_len 2 (any_string val) (field_len 1 key [])"

definition log_record :: "u8 list \<Rightarrow> u8 list \<Rightarrow> u8 list" where
  "log_record body trace_id =
     field_len 9 trace_id
       (field_len 6 (key_value (bytes ''user.email'') (bytes ''alice@corp.io''))
         (field_len 6 (key_value (bytes ''http.method'') (bytes ''POST''))
           (field_len 5 (any_string body)
             (field_varint 2 9 []))))"

text \<open>\<^verbatim>\<open>u64::to_le_bytes\<close>.\<close>

definition to_le_bytes :: "u64 \<Rightarrow> u8 list" where
  "to_le_bytes v = map (\<lambda>i. ucast (drop_bit (8 * i) v)) [0..<8]"

definition perf_trace_id :: "u64 \<Rightarrow> nat \<Rightarrow> u8 list" where
  "perf_trace_id seed i = to_le_bytes seed @ to_le_bytes (of_nat i)"

definition perf_body :: "nat \<Rightarrow> u8 list" where
  "perf_body i =
     (if i mod 3 = 0 then bytes ''login for bob@corp.io from 10.0.0.1 succeeded in 42ms with token abc123''
      else bytes ''GET /api/v1/orders 200 in 12ms region=us-east-1 cache=hit bytes=2048'')"

definition perf_request :: "nat \<Rightarrow> u64 \<Rightarrow> u8 list" where
  "perf_request records seed =
     (let scope_logs = fold (\<lambda>i out. field_len 2 (log_record (perf_body i) (perf_trace_id seed i)) out) [0..<records] [];
          resource = field_len 1 (key_value (bytes ''k8s.namespace.name'') (bytes ''payments''))
            (field_len 1 (key_value (bytes ''service.name'') (bytes ''checkout'')) []);
          resource_logs = field_len 2 scope_logs (field_len 1 resource [])
      in field_len 1 resource_logs [])"

section \<open>Reading it back\<close>

lemma varint_put: "varint v out = out @ put_varint v"
proof (induction v out rule: varint.induct)
  case (1 v out)
  then show ?case
    by (cases "drop_bit 7 v = 0") (simp_all add: varint.simps[of v out] put_varint.simps[of v] Let_def)
qed

lemma field_len_append: "field_len n pl out = out @ len_field n pl"
  by (simp add: field_len_def varint_put len_field_def len_tag_def)

definition varint_field_of :: "u32 \<Rightarrow> u64 \<Rightarrow> field" where
  "varint_field_of n v = (let bs = put_varint (push_bit 3 (ucast n)) @ put_varint v
     in \<lparr>fd_num = n, fd_wire = 0, fd_val = v, fd_off = length bs, fd_raw = bs\<rparr>)"

lemma varint_tag_parts:
  "ucast (drop_bit 3 (push_bit 3 (ucast n) :: u64)) = (n :: u32)" "ucast (push_bit 3 (ucast n) AND 0x7 :: u64) = (0 :: u8)"
proof -
  have m: "(0x7 :: u64) = mask 3" by (simp add: mask_eq_exp_minus_1)
  show "ucast (drop_bit 3 (push_bit 3 (ucast n) :: u64)) = n"
    by (rule bit_word_eqI) (auto simp: bit_simps dest: bit_imp_le_length)
  show "ucast (push_bit 3 (ucast n) AND 0x7 :: u64) = (0 :: u8)"
    unfolding m by (rule bit_word_eqI) (auto simp: bit_simps)
qed

lemma lfield_varint: "lfield (field_varint n v []) = Some (varint_field_of n v)"
proof -
  let ?t = "push_bit 3 (ucast n) :: u64"
  have t: "ltag (put_varint ?t @ put_varint v) = Some ((n, 0), length (put_varint ?t))"
    by (simp add: ltag_def lvarint_put varint_tag_parts)
  have v: "lvarint (put_varint v) = Some (v, length (put_varint v))" using lvarint_put[of v "[]"] by simp
  show ?thesis
    by (simp add: field_varint_def varint_put lfield_def t lskip_def v varint_field_of_def)
qed

lemma fields_varint: "wire_fields (field_varint n v []) = Some [varint_field_of n v]"
  by (rule fields_single[OF lfield_varint]) (simp add: varint_field_of_def field_varint_def varint_put)

text \<open>A message is the concatenation of its fields.\<close>

lemma fields_len: "length pl < 2 ^ 64 \<Longrightarrow> wire_fields (len_field n pl) = Some [len_field_of n pl]"
  by (rule fields_single[OF lfield_len_field]) simp_all

lemma length_len_field_le: "length (len_field n pl) \<le> 20 + length pl"
proof -
  have "varint_len v \<le> 10" for v
    using varint_len_le[of 10 v] unsigned_less[of v, where 'a = nat] by (simp add: less_le_trans)
  from add_mono[OF this this] show ?thesis by (simp add: length_len_field header_len_def)
qed

lemma decode_any_string: "length s < 2 ^ 64 \<Longrightarrow> decode_any (any_string s) = Some (Some s)"
  by (simp add: any_string_def field_len_append decode_any_find[OF fields_len] is_len_def)

lemma decode_key_value:
  assumes "length k < 2 ^ 63" "length v < 2 ^ 63"
  shows "decode_kv (key_value k v) = Some (Some (k, v))"
proof -
  have a: "length (any_string v) < 2 ^ 64"
    using assms(2) length_len_field_le[of 1 v] by (simp add: any_string_def field_len_append)
  have "wire_fields (key_value k v) = Some [len_field_of 1 k, len_field_of 2 (any_string v)]"
    unfolding key_value_def field_len_append using fields_append[OF fields_len fields_len] assms(1) a by fastforce
  then show ?thesis
    using assms(2) by (simp add: decode_kv_def decode_fields_def decode_kv_step_def is_len_def decode_any_string)
qed

text \<open>The attributes and strings of the harness are far shorter than any bound.\<close>

lemma length_key_value: "length (key_value k v) \<le> 60 + length k + length v"
  using length_len_field_le[of 1 k] length_len_field_le[of 2 "any_string v"] length_len_field_le[of 1 v]
  by (simp add: key_value_def any_string_def field_len_append)

lemma decode_log_record:
  assumes "length body < 2 ^ 62" "length tid = 16"
  shows "decode_log ns svc (log_record body tid) = Some
    \<lparr>lr_body = body, lr_trace = Some tid,
     lr_attrs = [(bytes ''http.method'', bytes ''POST''), (bytes ''user.email'', bytes ''alice@corp.io'')],
     lr_severity = Some 9, lr_namespace = ns, lr_service = svc\<rparr>"
proof -
  let ?kv1 = "key_value (bytes ''http.method'') (bytes ''POST'')"
  let ?kv2 = "key_value (bytes ''user.email'') (bytes ''alice@corp.io'')"
  have a: "length (any_string body) < 2 ^ 64"
    using assms(1) length_len_field_le[of 1 body] by (simp add: any_string_def field_len_append)
  have l: "length ?kv1 < 2 ^ 64" "length ?kv2 < 2 ^ 64"
    using length_key_value[of "bytes ''http.method''" "bytes ''POST''"] length_key_value[of "bytes ''user.email''" "bytes ''alice@corp.io''"] by simp_all
  have d: "decode_kv ?kv1 = Some (Some (bytes ''http.method'', bytes ''POST''))"
    "decode_kv ?kv2 = Some (Some (bytes ''user.email'', bytes ''alice@corp.io''))"
    by (intro decode_key_value; simp)+
  have "wire_fields (log_record body tid) = Some ([varint_field_of 2 9] @ [len_field_of 5 (any_string body)] @
      [len_field_of 6 ?kv1] @ [len_field_of 6 ?kv2] @ [len_field_of 9 tid])"
    unfolding log_record_def field_len_append append_assoc
    by (intro fields_append fields_varint fields_len) (use a l assms(2) in simp_all)
  then show ?thesis
    using assms d unfolding decode_log_def decode_fields_def
    by (simp add: decode_log_step_def is_len_def decode_any_string varint_field_of_def Let_def del: bytes_simps)
qed

definition perf_record :: "u64 \<Rightarrow> nat \<Rightarrow> log_rec" where
  "perf_record seed i =
     \<lparr>lr_body = perf_body i, lr_trace = Some (perf_trace_id seed i),
      lr_attrs = [(bytes ''http.method'', bytes ''POST''), (bytes ''user.email'', bytes ''alice@corp.io'')],
      lr_severity = Some 9, lr_namespace = Some (bytes ''payments''), lr_service = Some (bytes ''checkout'')\<rparr>"

lemma perf_record_decode:
  "decode_log (Some (bytes ''payments'')) (Some (bytes ''checkout'')) (log_record (perf_body i) (perf_trace_id seed i)) =
    Some (perf_record seed i)"
  by (subst decode_log_record) (simp_all add: perf_body_def perf_trace_id_def to_le_bytes_def perf_record_def)

lemma scope_logs_concat:
  "fold (\<lambda>i out. out @ len_field n (f i)) is out = out @ concat (map (\<lambda>i. len_field n (f i)) is)"
  by (induction "is" arbitrary: out) simp_all

lemma map_opt_total: "(\<And>x. x \<in> set xs \<Longrightarrow> f (h x) = Some (g x)) \<Longrightarrow> map_opt f (map h xs) = Some (map g xs)"
  by (induction xs) simp_all

lemma length_len_field_ge: "length pl \<le> length (len_field n pl)"
  by (simp add: length_len_field)

lemma decode_scope_logs:
  assumes "length (concat (map (\<lambda>i. len_field 2 (f i)) is)) < 2 ^ 64" "\<And>i. i \<in> set is \<Longrightarrow> decode_log ns svc (f i) = Some (g i)"
  shows "decode_scope ns svc (concat (map (\<lambda>i. len_field 2 (f i)) is)) = Some (map g is)"
proof -
  have l: "length (f i) < 2 ^ 64" if "i \<in> set is" for i
  proof -
    have "length (f i) \<le> length (len_field 2 (f i))" by (rule length_len_field_ge)
    also have "\<dots> \<le> length (concat (map (\<lambda>i. len_field 2 (f i)) is))"
      using that by (auto simp: length_concat o_def intro!: member_le_sum_list)
    finally show ?thesis using assms(1) by simp
  qed
  have "concat (map (\<lambda>i. len_field 2 (f i)) is) = concat (map fd_raw (map (\<lambda>i. len_field_of 2 (f i)) is))"
    by (simp add: o_def)
  also have "wire_fields \<dots> = Some (map (\<lambda>i. len_field_of 2 (f i)) is)"
    by (rule fields_concat) (use l lfield_len_field in auto)
  finally have w: "wire_fields (concat (map (\<lambda>i. len_field 2 (f i)) is)) = Some (map (\<lambda>i. len_field_of 2 (f i)) is)" .
  have "map_opt (decode_log ns svc) (map f is) = Some (map g is)"
    by (rule map_opt_total) (rule assms(2))
  then show ?thesis
    by (simp add: decode_scope_def w sub_messages_def filter_map is_len_def o_def)
qed

lemma decode_perf_resource:
  "decode_attrs (len_field 1 (key_value (bytes ''service.name'') (bytes ''checkout'')) @
      len_field 1 (key_value (bytes ''k8s.namespace.name'') (bytes ''payments''))) =
    Some (Some (bytes ''payments''), Some (bytes ''checkout''))"
proof -
  have l: "length (key_value (bytes ''service.name'') (bytes ''checkout'')) < 2 ^ 64"
    "length (key_value (bytes ''k8s.namespace.name'') (bytes ''payments'')) < 2 ^ 64"
    using length_key_value[of "bytes ''service.name''" "bytes ''checkout''"] length_key_value[of "bytes ''k8s.namespace.name''" "bytes ''payments''"] by simp_all
  have d: "decode_kv (key_value (bytes ''service.name'') (bytes ''checkout'')) = Some (Some (bytes ''service.name'', bytes ''checkout''))"
    "decode_kv (key_value (bytes ''k8s.namespace.name'') (bytes ''payments'')) = Some (Some (bytes ''k8s.namespace.name'', bytes ''payments''))"
    by (intro decode_key_value; simp)+
  have n: "bytes ''service.name'' \<noteq> bytes ''k8s.namespace.name''" by simp
  show ?thesis
    using d n unfolding decode_attrs_def decode_fields_def
    by (simp add: fields_append[OF fields_len[OF l(1)] fields_len[OF l(2)]] decode_attrs_step_def is_len_def del: bytes_simps)
qed

lemma perf_request_decode:
  assumes "length (perf_request n seed) < 2 ^ 64"
  shows "decode_request (perf_request n seed) = Some (map (perf_record seed) [0..<n])"
proof -
  let ?ns = "Some (bytes ''payments'')" and ?svc = "Some (bytes ''checkout'')"
  let ?scope = "concat (map (\<lambda>i. len_field 2 (log_record (perf_body i) (perf_trace_id seed i))) [0..<n])"
  let ?res = "len_field 1 (key_value (bytes ''service.name'') (bytes ''checkout'')) @
      len_field 1 (key_value (bytes ''k8s.namespace.name'') (bytes ''payments''))"
  let ?rl = "len_field 1 ?res @ len_field 2 ?scope"
  have r: "perf_request n seed = len_field 1 ?rl"
    by (simp add: perf_request_def field_len_append scope_logs_concat del: bytes_simps)
  have "length ?rl < 2 ^ 64" using assms length_len_field_ge[of ?rl 1] unfolding r by linarith
  then have l: "length ?rl < 2 ^ 64" "length ?res < 2 ^ 64" "length ?scope < 2 ^ 64"
    using length_len_field_ge[of ?res 1] length_len_field_ge[of ?scope 2] unfolding length_append by linarith+
  have sc: "decode_scope ?ns ?svc ?scope = Some (map (perf_record seed) [0..<n])"
    by (rule decode_scope_logs[OF l(3)]) (rule perf_record_decode)
  have "decode_resource ?rl = Some (map (perf_record seed) [0..<n])"
    unfolding decode_resource_def using sc
    by (simp add: fields_append[OF fields_len[OF l(2)] fields_len[OF l(3)]] decode_resource_step_def is_len_def
        decode_perf_resource sub_messages_def del: bytes_simps)
  then show ?thesis
    unfolding r decode_request_def by (simp add: fields_len[OF l(1)] sub_messages_def is_len_def del: bytes_simps)
qed

text \<open>A request is a few hundred bytes per record.\<close>

lemma length_log_record: "length body \<le> 80 \<Longrightarrow> length tid = 16 \<Longrightarrow> length (log_record body tid) \<le> 380"
proof -
  assume a: "length body \<le> 80" "length tid = 16"
  let ?kv1 = "key_value (bytes ''http.method'') (bytes ''POST'')"
  let ?kv2 = "key_value (bytes ''user.email'') (bytes ''alice@corp.io'')"
  have "length (put_varint v) \<le> 10" for v
    using put_varint_le[of 10 v] unsigned_less[of v, where 'a = nat] by (simp add: less_le_trans)
  from add_mono[OF this this] have "length (field_varint 2 9 []) \<le> 20" by (simp add: field_varint_def varint_put)
  moreover have "length (any_string body) \<le> 100" using a(1) length_len_field_le[of 1 body] by (simp add: any_string_def field_len_append)
  moreover have "length ?kv1 \<le> 75" "length ?kv2 \<le> 83"
    using length_key_value[of "bytes ''http.method''" "bytes ''POST''"] length_key_value[of "bytes ''user.email''" "bytes ''alice@corp.io''"]
    by simp_all
  ultimately show ?thesis
    using a(2) length_len_field_le[of 5 "any_string body"] length_len_field_le[of 6 ?kv1] length_len_field_le[of 6 ?kv2]
      length_len_field_le[of 9 tid]
    unfolding log_record_def field_len_append length_append by linarith
qed

lemma length_perf_request: "length (perf_request n seed) \<le> 400 * n + 300"
proof -
  let ?f = "\<lambda>i. len_field 2 (log_record (perf_body i) (perf_trace_id seed i))"
  let ?kv1 = "key_value (bytes ''service.name'') (bytes ''checkout'')"
  let ?kv2 = "key_value (bytes ''k8s.namespace.name'') (bytes ''payments'')"
  have b: "length (perf_body i) \<le> 80" "length (perf_trace_id seed i) = 16" for i
    by (simp_all add: perf_body_def perf_trace_id_def to_le_bytes_def)
  have f: "length (?f i) \<le> 400" for i
    using length_len_field_le[of 2 "log_record (perf_body i) (perf_trace_id seed i)"] length_log_record[OF b(1) b(2), of i i] by linarith
  have "sum_list (map (\<lambda>i. length (?f i)) is) \<le> 400 * length is" for "is" :: "nat list"
    using f by (induction "is") (auto intro: add_mono)
  from this[of "[0..<n]"] have s: "length (concat (map ?f [0..<n])) \<le> 400 * n"
    by (simp add: length_concat o_def)
  have kv: "length ?kv1 \<le> 80" "length ?kv2 \<le> 86"
    using length_key_value[of "bytes ''service.name''" "bytes ''checkout''"]
      length_key_value[of "bytes ''k8s.namespace.name''" "bytes ''payments''"] by simp_all
  show ?thesis
    using s kv length_len_field_le[of 1 ?kv1] length_len_field_le[of 1 ?kv2]
      length_len_field_le[of 1 "len_field 1 ?kv1 @ len_field 1 ?kv2"] length_len_field_le[of 2 "concat (map ?f [0..<n])"]
      length_len_field_le[of 1 "len_field 1 (len_field 1 ?kv1 @ len_field 1 ?kv2) @ len_field 2 (concat (map ?f [0..<n]))"]
    unfolding perf_request_def Let_def field_len_append scope_logs_concat length_append append_Nil by linarith
qed

lemma perf_request_short: "n < 2 ^ 50 \<Longrightarrow> length (perf_request n seed) < 2 ^ 64"
  using length_perf_request[of n seed] by simp

section \<open>Properties\<close>

text \<open>
  C11: The parser reads back what the harness writes: a synthetic request of \<open>n\<close> records, made by an
  encoder of its own, is parsed without error into exactly \<open>n\<close> views, which denote in order the body,
  the trace id, the attributes, the severity, the namespace and the service that went in.
\<close>

theorem perf_request_parsed:
  assumes "n < 2 ^ 50"
  shows "\<exists>recs. parse_export_logs_request (perf_request n seed) [] = Ok recs \<and> length recs = n \<and>
    map (view_record (perf_request n seed)) recs = map (perf_record seed) [0..<n]"
proof -
  let ?raw = "perf_request n seed"
  have l: "length ?raw < 2 ^ 64" by (rule perf_request_short[OF assms])
  obtain recs where r: "parse_export_logs_request ?raw [] = Ok recs" "map (view_record ?raw) recs = map (perf_record seed) [0..<n]"
    using parser_refines[OF l] perf_request_decode[OF l] by (auto simp: ok_opt_Some)
  then have "length recs = n" by (metis length_map length_upt diff_zero)
  with r show ?thesis by blast
qed

theorem perf_request_parsed_witness:
  "\<exists>recs. parse_export_logs_request (perf_request 10 1) [] = Ok recs \<and> length recs = 10 \<and>
    map lr_severity (map (view_record (perf_request 10 1)) recs) = replicate 10 (Some 9)"
proof -
  obtain recs where "parse_export_logs_request (perf_request 10 1) [] = Ok recs" "length recs = 10"
    "map (view_record (perf_request 10 1)) recs = map (perf_record 1) [0..<10]"
    using perf_request_parsed[of 10 1] by auto
  moreover have "map (lr_severity \<circ> perf_record 1) [0..<10] = replicate 10 (Some 9)"
    by (simp add: perf_record_def o_def map_replicate_const)
  ultimately show ?thesis by (metis map_map)
qed

end
