(* ===== verification/PolicyTests.thy ===== *)
theory PolicyTests
  imports Config
begin

text \<open>
  The unit tests of the policy, run on the model: \<^verbatim>\<open>policy.rs\<close> of the sampling crate, and the crates for
  redaction and configuration.  The tests of the configuration read YAML with a third-party crate; the
  documents are those of the source, and the reader is a parameter of which each lemma assumes what
  it yields for the document at hand, the defaults filled in.
\<close>

section \<open>Resolution of targets\<close>

definition test_rule :: "u8 list option \<Rightarrow> i32 option \<Rightarrow> u8 \<Rightarrow> rule" where
  "test_rule ns sev target = \<lparr>rule_namespace_glob = ns, rule_severity_lte = sev, rule_target = target\<rparr>"

definition test_first_match_wins_then_default :: bool where
  "test_first_match_wins_then_default \<longleftrightarrow>
     (let policy = sampling_policy_new
        [test_rule (Some (bytes ''payments'')) None 100, test_rule None (Some 8) 10, test_rule (Some (bytes ''batch-*'')) None 25] 50
      in resolve policy (Some (bytes ''payments'')) (Some 9) = 100 \<and>
         resolve policy (Some (bytes ''web'')) (Some 5) = 10 \<and>
         resolve policy (Some (bytes ''batch-nightly'')) (Some 9) = 25 \<and>
         resolve policy (Some (bytes ''web'')) (Some 9) = 50 \<and>
         resolve policy None None = 50)"

definition test_specified_condition_with_absent_field_does_not_match :: bool where
  "test_specified_condition_with_absent_field_does_not_match \<longleftrightarrow>
     (let policy = sampling_policy_new [test_rule (Some (bytes ''payments'')) None 100] 25;
          sev_policy = sampling_policy_new [test_rule None (Some 8) 10] 25
      in resolve policy None (Some 9) = 25 \<and> resolve sev_policy (Some (bytes ''x'')) None = 25)"

definition test_catch_all_rule_matches_everything :: bool where
  "test_catch_all_rule_matches_everything \<longleftrightarrow>
     (let policy = sampling_policy_new [test_rule None None 5] 100
      in resolve policy None None = 5 \<and> resolve policy (Some (bytes ''any'')) (Some 20) = 5)"

definition test_severity_bands :: bool where
  "test_severity_bands \<longleftrightarrow>
     severity_band_max (bytes ''DEBUG'') = Some 8 \<and> severity_band_max (bytes ''debug'') = Some 8 \<and>
     severity_band_max (bytes ''INFO'') = Some 12 \<and> severity_band_max (bytes ''FATAL'') = Some 24 \<and>
     severity_band_max (bytes ''nope'') = None"

definition test_policy_glob_semantics :: bool where
  "test_policy_glob_semantics \<longleftrightarrow>
     glob_matches (bytes ''batch-*'') (bytes ''batch-nightly'') \<and> glob_matches (bytes ''*'') (bytes ''anything'') \<and>
     \<not> glob_matches (bytes ''payments'') (bytes ''payments-eu'') \<and> glob_matches (bytes ''*-eu'') (bytes ''payments-eu'')"

lemma policy_tests_pass:
  test_first_match_wins_then_default test_specified_condition_with_absent_field_does_not_match
  test_catch_all_rule_matches_everything test_severity_bands test_policy_glob_semantics
proof -
  show test_first_match_wins_then_default unfolding test_first_match_wins_then_default_def by code_simp
  show test_specified_condition_with_absent_field_does_not_match
    unfolding test_specified_condition_with_absent_field_does_not_match_def by code_simp
  show test_catch_all_rule_matches_everything unfolding test_catch_all_rule_matches_everything_def by code_simp
  show test_severity_bands unfolding test_severity_bands_def by code_simp
  show test_policy_glob_semantics unfolding test_policy_glob_semantics_def by code_simp
qed

section \<open>Compilation\<close>

definition test_email_pattern :: "u8 list" where
  "test_email_pattern = bytes ''[A-Za-z0-9._%+-]+@[A-Za-z0-9.-]+'' @ [92] @ bytes ''.[A-Za-z]{2,}''"

definition test_email_rule :: rule_spec where
  "test_email_rule = \<lparr>spec_name = bytes ''email'', spec_pattern = test_email_pattern, spec_mask = bytes ''[REDACTED:email]'',
     spec_fields = [Body, Attrs (bytes ''user.*'')]\<rparr>"

definition test_compile_accepts_canonical_rules_and_dedups_masks :: "('rx, 'rs) regex_lib \<Rightarrow> bool" where
  "test_compile_accepts_canonical_rules_and_dedups_masks lib \<longleftrightarrow>
     (let second = \<lparr>spec_name = bytes ''email-attrs'', spec_pattern = bytes ''@[A-Za-z0-9.-]+'',
        spec_mask = bytes ''[REDACTED:email]'', spec_fields = [Attrs (bytes ''*'')]\<rparr>
      in case redact_compile lib [test_email_rule, second] compile_limits_default of
           Ok engine \<Rightarrow> length (re_masks engine) = 1 \<and> mask_bytes engine (MaskId 0) = Some (bytes ''[REDACTED:email]'')
         | _ \<Rightarrow> False)"

lemma test_patterns_linted:
  "check_nested_repetition test_email_pattern = Ok ()" "check_nested_repetition (bytes ''@[A-Za-z0-9.-]+'') = Ok ()"
  unfolding test_email_pattern_def by code_simp+

lemma compile_accepts_canonical_rules_and_dedups_masks_passes:
  assumes "rx_build lib test_email_pattern (2 ^ 20) = Inr rx1" "rx_build lib (bytes ''@[A-Za-z0-9.-]+'') (2 ^ 20) = Inr rx2"
    and "rx_set_build lib [test_email_pattern, bytes ''@[A-Za-z0-9.-]+''] (2 * 2 ^ 20) = Inr rs"
  shows "test_compile_accepts_canonical_rules_and_dedups_masks lib"
  using assms
  by (simp add: test_compile_accepts_canonical_rules_and_dedups_masks_def redact_compile_def test_email_rule_def
      compile_limits_default_def test_patterns_linted saturating_mul_def mask_bytes_def del: bytes_simps)

definition test_nested_repetition_is_rejected_at_compile :: "('rx, 'rs) regex_lib \<Rightarrow> bool" where
  "test_nested_repetition_is_rejected_at_compile lib \<longleftrightarrow>
     list_all (\<lambda>pattern.
       case redact_compile lib [\<lparr>spec_name = bytes ''bad'', spec_pattern = pattern, spec_mask = bytes ''[X]'', spec_fields = [Body]\<rparr>]
         compile_limits_default of
         Err (NestedRepetition rule detail) \<Rightarrow> True
       | _ \<Rightarrow> False)
       [bytes ''(a+)+'', bytes ''([a-z]*)*'', bytes ''(?:'' @ [92] @ bytes ''d+){3,}'', bytes ''((ab)+c)*'']"

lemma test_patterns_rejected:
  "list_all (\<lambda>p. check_nested_repetition p = Err NESTED)
     [bytes ''(a+)+'', bytes ''([a-z]*)*'', bytes ''(?:'' @ [92] @ bytes ''d+){3,}'', bytes ''((ab)+c)*'']"
  by code_simp

lemma nested_repetition_is_rejected_at_compile_passes: "test_nested_repetition_is_rejected_at_compile lib"
  using test_patterns_rejected
  by (simp add: test_nested_repetition_is_rejected_at_compile_def redact_compile_def del: bytes_simps)

definition test_oversized_pattern_is_rejected_by_size_limit :: "('rx, 'rs) regex_lib \<Rightarrow> bool" where
  "test_oversized_pattern_is_rejected_by_size_limit lib \<longleftrightarrow>
     (let spec = \<lparr>spec_name = bytes ''huge'', spec_pattern = bytes ''(?:abcdefghij){1,1000}'', spec_mask = bytes ''[X]'',
        spec_fields = [Body]\<rparr>
      in case redact_compile lib [spec] \<lparr>cl_size_limit = 256\<rparr> of Err (RegexRejected rule source) \<Rightarrow> True | _ \<Rightarrow> False)"

lemma oversized_pattern_is_rejected_by_size_limit_passes:
  assumes "rx_build lib (bytes ''(?:abcdefghij){1,1000}'') 256 = Inl source"
  shows "test_oversized_pattern_is_rejected_by_size_limit lib"
proof -
  have "check_nested_repetition (bytes ''(?:abcdefghij){1,1000}'') = Ok ()" by code_simp
  with assms show ?thesis
    by (simp add: test_oversized_pattern_is_rejected_by_size_limit_def redact_compile_def del: bytes_simps)
qed

definition test_field_selector_parsing :: bool where
  "test_field_selector_parsing \<longleftrightarrow>
     field_selector_parse (bytes ''body'') = Some Body \<and>
     field_selector_parse (bytes ''attributes.*'') = Some (Attrs (bytes ''*'')) \<and>
     field_selector_parse (bytes ''attributes.user.email'') = Some (Attrs (bytes ''user.email'')) \<and>
     field_selector_parse (bytes ''attributes.'') = None \<and>
     field_selector_parse (bytes ''bodies'') = None"

lemma field_selector_parsing_passes: test_field_selector_parsing
  unfolding test_field_selector_parsing_def by code_simp

section \<open>Documents\<close>

definition yaml_lines :: "u8 list list \<Rightarrow> u8 list" where
  "yaml_lines ls = concat (map (\<lambda>l. l @ [10]) ls)"

definition double_quoted :: "u8 list \<Rightarrow> u8 list" where
  "double_quoted s = [34] @ s @ [34]"

definition single_quoted :: "u8 list \<Rightarrow> u8 list" where
  "single_quoted s = [39] @ s @ [39]"

definition FULL :: "u8 list" where
  "FULL = yaml_lines
     [[], bytes ''ingest:'',
      bytes ''  grpc_endpoint: '' @ double_quoted (bytes ''0.0.0.0:5317''),
      bytes ''  http_endpoint: '' @ double_quoted (bytes ''0.0.0.0:5318''),
      bytes ''  channel_capacity: 4096'',
      bytes ''sampling:'',
      bytes ''  default_target: 100'',
      bytes ''  rules:'',
      bytes ''    - match: { namespace: '' @ double_quoted (bytes ''payments'') @ bytes '' }'',
      bytes ''      target: 100'',
      bytes ''    - match: { severity_lte: '' @ double_quoted (bytes ''DEBUG'') @ bytes '' }'',
      bytes ''      target: 10'',
      bytes ''    - match: { namespace: '' @ double_quoted (bytes ''batch-*'') @ bytes '' }'',
      bytes ''      target: 25'',
      bytes ''redaction:'',
      bytes ''  regex_rules:'',
      bytes ''    - name: email'',
      bytes ''      pattern: '' @ single_quoted test_email_pattern,
      bytes ''      mask: '' @ double_quoted (bytes ''[REDACTED:email]''),
      bytes ''      fields: [body, '' @ double_quoted (bytes ''attributes.*'') @ bytes '']'',
      bytes ''export:'',
      bytes ''  otlp_endpoint: '' @ double_quoted (bytes ''https://otlp.example.com:4318''),
      bytes ''  spool_dir: '' @ double_quoted (bytes ''/data/spool''),
      bytes ''  spool_max_bytes: 1073741824'',
      bytes ''limits:'',
      bytes ''  max_body_bytes: 8388608'']"

text \<open>What the document says, section by section.\<close>

definition FULL_config :: agent_config where
  "FULL_config =
     \<lparr>ac_ingest = \<lparr>ic_grpc_endpoint = bytes ''0.0.0.0:5317'', ic_http_endpoint = bytes ''0.0.0.0:5318'', ic_channel_capacity = 4096\<rparr>,
      ac_sampling = \<lparr>sc_default_target = 100, sc_rules =
        [\<lparr>sr_selector = \<lparr>sm_namespace = Some (bytes ''payments''), sm_severity_lte = None\<rparr>, sr_target = 100\<rparr>,
         \<lparr>sr_selector = \<lparr>sm_namespace = None, sm_severity_lte = Some (bytes ''DEBUG'')\<rparr>, sr_target = 10\<rparr>,
         \<lparr>sr_selector = \<lparr>sm_namespace = Some (bytes ''batch-*''), sm_severity_lte = None\<rparr>, sr_target = 25\<rparr>]\<rparr>,
      ac_redaction = \<lparr>rc_regex_rules = [\<lparr>rr_name = bytes ''email'', rr_pattern = test_email_pattern,
         rr_mask = bytes ''[REDACTED:email]'', rr_fields = [bytes ''body'', bytes ''attributes.*'']\<rparr>]\<rparr>,
      ac_export = \<lparr>ec_otlp_endpoint = Some (bytes ''https://otlp.example.com:4318''), ec_spool_dir = bytes ''/data/spool'',
         ec_spool_max_bytes = 1073741824\<rparr>,
      ac_limits = \<lparr>li_max_body_bytes = 8388608\<rparr>\<rparr>"

text \<open>Reading a string touches no file, so that there is no I/O error.\<close>

abbreviation read_yaml :: "(u8 list \<Rightarrow> 'y + agent_config) \<Rightarrow> u8 list \<Rightarrow> ((unit, 'y) config_error, agent_config) result" where
  "read_yaml from_str doc \<equiv> from_yaml from_str doc"

definition test_full_config_parses_with_all_fields :: "(u8 list \<Rightarrow> 'y + agent_config) \<Rightarrow> bool" where
  "test_full_config_parses_with_all_fields from_str \<longleftrightarrow>
     (case read_yaml from_str FULL of
        Ok cfg \<Rightarrow>
          ic_grpc_endpoint (ac_ingest cfg) = bytes ''0.0.0.0:5317'' \<and> ic_channel_capacity (ac_ingest cfg) = 4096 \<and>
          length (sc_rules (ac_sampling cfg)) = 3 \<and>
          sm_namespace (sr_selector (sc_rules (ac_sampling cfg) ! 0)) = Some (bytes ''payments'') \<and>
          sm_severity_lte (sr_selector (sc_rules (ac_sampling cfg) ! 1)) = Some (bytes ''DEBUG'') \<and>
          sr_target (sc_rules (ac_sampling cfg) ! 1) = 10 \<and>
          ec_otlp_endpoint (ac_export cfg) = Some (bytes ''https://otlp.example.com:4318'') \<and>
          ec_spool_max_bytes (ac_export cfg) = 1073741824 \<and> li_max_body_bytes (ac_limits cfg) = 8388608 \<and>
          (case (into_redaction_rule_specs cfg :: ((unit, 'y) config_error, rule_spec list) result) of
             Ok specs \<Rightarrow> length specs = 1 \<and> spec_name (specs ! 0) = bytes ''email'' \<and> length (spec_fields (specs ! 0)) = 2
           | _ \<Rightarrow> False)
      | _ \<Rightarrow> False)"

lemmas config_test_defs = from_yaml_def validate_def parse_selectors_def agent_default_def ingest_default_def sampling_default_def
  export_default_def limits_default_def

lemma test_selectors:
  "field_selector_parse (bytes ''body'') = Some Body" "field_selector_parse (bytes ''attributes.*'') = Some (Attrs (bytes ''*''))"
  "field_selector_parse (bytes ''bodies'') = None"
  by code_simp+

lemma full_config_parses_with_all_fields_passes:
  assumes "from_str FULL = Inr FULL_config"
  shows "test_full_config_parses_with_all_fields from_str"
  using assms
  by (simp add: test_full_config_parses_with_all_fields_def config_test_defs FULL_config_def into_redaction_rule_specs_def
      into_rule_specs_def into_rule_spec_def test_selectors del: bytes_simps)

text \<open>The policies of the fingerprint test: the second has a comment and a limit more, the third another target.\<close>

definition fingerprint_doc :: "u8 list \<Rightarrow> u8 list" where
  "fingerprint_doc target = yaml_lines
     [bytes ''sampling:'', bytes ''  default_target: '' @ target, bytes ''redaction:'', bytes ''  regex_rules:'',
      bytes ''    - { name: email, pattern: '' @ single_quoted (bytes ''x@y'') @ bytes '', mask: '' @ single_quoted (bytes ''[E]'') @
      bytes '', fields: [body] }'']"

definition fingerprint_config :: "u16 \<Rightarrow> agent_config" where
  "fingerprint_config target = agent_default\<lparr>ac_sampling := sampling_default\<lparr>sc_default_target := target\<rparr>,
     ac_redaction := \<lparr>rc_regex_rules = [\<lparr>rr_name = bytes ''email'', rr_pattern = bytes ''x@y'', rr_mask = bytes ''[E]'',
       rr_fields = [bytes ''body'']\<rparr>]\<rparr>\<rparr>"

definition test_policy_fingerprint_is_stable_and_policy_sensitive :: "'h hasher \<Rightarrow> (u8 list \<Rightarrow> 'y + agent_config) \<Rightarrow> bool" where
  "test_policy_fingerprint_is_stable_and_policy_sensitive hx from_str \<longleftrightarrow>
     (let a = fingerprint_doc (bytes ''25'');
          b = yaml_lines [bytes ''# a comment''] @ fingerprint_doc (bytes ''25'') @ yaml_lines [bytes ''limits:'', bytes ''  max_body_bytes: 999''];
          c = fingerprint_doc (bytes ''50'')
      in case (read_yaml from_str a, read_yaml from_str b, read_yaml from_str c) of
           (Ok cfg_a, Ok cfg_b, Ok cfg_c) \<Rightarrow>
             policy_fingerprint hx cfg_a = policy_fingerprint hx cfg_b \<and> policy_fingerprint hx cfg_a \<noteq> policy_fingerprint hx cfg_c
         | _ \<Rightarrow> False)"

lemma fingerprint_config_valid:
  "t \<le> 100 \<Longrightarrow> (validate (fingerprint_config t) :: ((unit, 'y) config_error, unit) result) = Ok ()"
  "(validate ((fingerprint_config 25)\<lparr>ac_limits := \<lparr>li_max_body_bytes = 999\<rparr>\<rparr>) :: ((unit, 'y) config_error, unit) result) = Ok ()"
  by (simp_all add: fingerprint_config_def config_test_defs test_selectors not_less del: bytes_simps)

lemma policy_fingerprint_passes:
  assumes "from_str (fingerprint_doc (bytes ''25'')) = Inr (fingerprint_config 25)"
    and "from_str (yaml_lines [bytes ''# a comment''] @ fingerprint_doc (bytes ''25'') @ yaml_lines [bytes ''limits:'', bytes ''  max_body_bytes: 999''])
      = Inr ((fingerprint_config 25)\<lparr>ac_limits := \<lparr>li_max_body_bytes = 999\<rparr>\<rparr>)"
    and "from_str (fingerprint_doc (bytes ''50'')) = Inr (fingerprint_config 50)"
  shows "test_policy_fingerprint_is_stable_and_policy_sensitive poly_hasher from_str"
proof -
  have "policy_fingerprint hx ((fingerprint_config 25)\<lparr>ac_limits := l\<rparr>) = policy_fingerprint hx (fingerprint_config 25)"
    for hx :: "u64 hasher" and l
    by (simp add: policy_fingerprint_def)
  moreover have "policy_fingerprint poly_hasher (fingerprint_config 25) \<noteq> policy_fingerprint poly_hasher (fingerprint_config 50)"
    by (simp add: policy_fingerprint_def fingerprint_config_def agent_default_def sampling_default_def le_bytes_def regex_updates_def
        poly_hasher_def)
  ultimately show ?thesis
    using assms
    by (simp add: test_policy_fingerprint_is_stable_and_policy_sensitive_def from_yaml_def fingerprint_config_valid word_le_nat_alt
        del: bytes_simps)
qed

section \<open>Defaults and refusals\<close>

definition test_empty_document_yields_working_defaults :: "(u8 list \<Rightarrow> 'y + agent_config) \<Rightarrow> bool" where
  "test_empty_document_yields_working_defaults from_str \<longleftrightarrow>
     (case read_yaml from_str (bytes ''{}'') of
        Ok cfg \<Rightarrow>
          ic_grpc_endpoint (ac_ingest cfg) = bytes ''0.0.0.0:4317'' \<and> ic_http_endpoint (ac_ingest cfg) = bytes ''0.0.0.0:4318'' \<and>
          ic_channel_capacity (ac_ingest cfg) = 8192 \<and> sc_default_target (ac_sampling cfg) = 100 \<and>
          sc_rules (ac_sampling cfg) = [] \<and> rc_regex_rules (ac_redaction cfg) = [] \<and>
          ec_otlp_endpoint (ac_export cfg) = None \<and> ec_spool_max_bytes (ac_export cfg) = 512 * 1024 * 1024 \<and>
          li_max_body_bytes (ac_limits cfg) = 4 * 1024 * 1024
      | _ \<Rightarrow> False)"

definition test_partial_section_keeps_sibling_defaults :: "(u8 list \<Rightarrow> 'y + agent_config) \<Rightarrow> bool" where
  "test_partial_section_keeps_sibling_defaults from_str \<longleftrightarrow>
     (case read_yaml from_str (yaml_lines [bytes ''ingest:'', bytes ''  channel_capacity: 100'']) of
        Ok cfg \<Rightarrow> ic_channel_capacity (ac_ingest cfg) = 100 \<and> ic_grpc_endpoint (ac_ingest cfg) = bytes ''0.0.0.0:4317''
      | _ \<Rightarrow> False)"

definition test_unknown_key_is_rejected :: "(u8 list \<Rightarrow> 'y + agent_config) \<Rightarrow> bool" where
  "test_unknown_key_is_rejected from_str \<longleftrightarrow>
     (case read_yaml from_str (yaml_lines [bytes ''ingest:'', bytes ''  grcp_endpoint: x'']) of Err (ConfigParse e) \<Rightarrow> True | _ \<Rightarrow> False)"

definition test_out_of_range_target_is_rejected :: "(u8 list \<Rightarrow> 'y + agent_config) \<Rightarrow> bool" where
  "test_out_of_range_target_is_rejected from_str \<longleftrightarrow>
     (case read_yaml from_str (yaml_lines [bytes ''sampling:'', bytes ''  rules:'', bytes ''    - match: { namespace: x }'',
        bytes ''      target: 150'']) of
        Err (TargetOutOfRange which target) \<Rightarrow> target = 150 | _ \<Rightarrow> False)"

definition test_default_target_over_100_is_rejected :: "(u8 list \<Rightarrow> 'y + agent_config) \<Rightarrow> bool" where
  "test_default_target_over_100_is_rejected from_str \<longleftrightarrow>
     (case read_yaml from_str (yaml_lines [bytes ''sampling:'', bytes ''  default_target: 101'']) of
        Err (TargetOutOfRange which target) \<Rightarrow> target = 101 | _ \<Rightarrow> False)"

definition test_zero_channel_capacity_is_rejected :: "(u8 list \<Rightarrow> 'y + agent_config) \<Rightarrow> bool" where
  "test_zero_channel_capacity_is_rejected from_str \<longleftrightarrow>
     (case read_yaml from_str (yaml_lines [bytes ''ingest:'', bytes ''  channel_capacity: 0'']) of
        Err ZeroChannelCapacity \<Rightarrow> True | _ \<Rightarrow> False)"

definition selector_doc :: "u8 list \<Rightarrow> u8 list" where
  "selector_doc flds = yaml_lines [bytes ''redaction:'', bytes ''  regex_rules:'', bytes ''    - name: r'',
     bytes ''      pattern: '' @ single_quoted (bytes ''x''), bytes ''      mask: '' @ single_quoted (bytes ''[X]''),
     bytes ''      fields: '' @ flds]"

definition test_invalid_field_selector_fails_startup :: "(u8 list \<Rightarrow> 'y + agent_config) \<Rightarrow> bool" where
  "test_invalid_field_selector_fails_startup from_str \<longleftrightarrow>
     (case read_yaml from_str (selector_doc (bytes ''[bodies]'')) of
        Err (InvalidFieldSelector rule sel) \<Rightarrow> sel = bytes ''bodies'' | _ \<Rightarrow> False)"

definition test_empty_fields_list_is_rejected :: "(u8 list \<Rightarrow> 'y + agent_config) \<Rightarrow> bool" where
  "test_empty_fields_list_is_rejected from_str \<longleftrightarrow>
     (case read_yaml from_str (selector_doc (bytes ''[]'')) of Err (EmptyFields rule) \<Rightarrow> True | _ \<Rightarrow> False)"

definition selector_config :: "u8 list list \<Rightarrow> agent_config" where
  "selector_config flds = agent_default\<lparr>ac_redaction := \<lparr>rc_regex_rules =
     [\<lparr>rr_name = bytes ''r'', rr_pattern = bytes ''x'', rr_mask = bytes ''[X]'', rr_fields = flds\<rparr>]\<rparr>\<rparr>"

lemma config_defaults_pass:
  "from_str (bytes ''{}'') = Inr agent_default \<Longrightarrow> test_empty_document_yields_working_defaults from_str"
  "from_str (yaml_lines [bytes ''ingest:'', bytes ''  channel_capacity: 100'']) =
     Inr (agent_default\<lparr>ac_ingest := ingest_default\<lparr>ic_channel_capacity := 100\<rparr>\<rparr>) \<Longrightarrow>
   test_partial_section_keeps_sibling_defaults from_str"
  by (simp_all add: test_empty_document_yields_working_defaults_def test_partial_section_keeps_sibling_defaults_def config_test_defs
      del: bytes_simps)

lemma config_refusals_pass:
  "from_str (yaml_lines [bytes ''ingest:'', bytes ''  grcp_endpoint: x'']) = Inl e \<Longrightarrow> test_unknown_key_is_rejected from_str"
  "from_str (yaml_lines [bytes ''sampling:'', bytes ''  rules:'', bytes ''    - match: { namespace: x }'', bytes ''      target: 150'']) =
     Inr (agent_default\<lparr>ac_sampling := sampling_default\<lparr>sc_rules :=
       [\<lparr>sr_selector = \<lparr>sm_namespace = Some (bytes ''x''), sm_severity_lte = None\<rparr>, sr_target = 150\<rparr>]\<rparr>\<rparr>) \<Longrightarrow>
   test_out_of_range_target_is_rejected from_str"
  "from_str (yaml_lines [bytes ''sampling:'', bytes ''  default_target: 101'']) =
     Inr (agent_default\<lparr>ac_sampling := sampling_default\<lparr>sc_default_target := 101\<rparr>\<rparr>) \<Longrightarrow> test_default_target_over_100_is_rejected from_str"
  "from_str (yaml_lines [bytes ''ingest:'', bytes ''  channel_capacity: 0'']) =
     Inr (agent_default\<lparr>ac_ingest := ingest_default\<lparr>ic_channel_capacity := 0\<rparr>\<rparr>) \<Longrightarrow> test_zero_channel_capacity_is_rejected from_str"
  "from_str (selector_doc (bytes ''[bodies]'')) = Inr (selector_config [bytes ''bodies'']) \<Longrightarrow> test_invalid_field_selector_fails_startup from_str"
  "from_str (selector_doc (bytes ''[]'')) = Inr (selector_config []) \<Longrightarrow> test_empty_fields_list_is_rejected from_str"
  by (simp_all add: test_unknown_key_is_rejected_def test_out_of_range_target_is_rejected_def test_default_target_over_100_is_rejected_def
      test_zero_channel_capacity_is_rejected_def test_invalid_field_selector_fails_startup_def test_empty_fields_list_is_rejected_def
      config_test_defs selector_config_def test_selectors word_less_nat_alt del: bytes_simps)

end
