(* ===== verification/Harness.thy ===== *)
theory Harness
  imports Perf PolicyTests Decimal
begin

text \<open>
  The run of the gate harness, \<^verbatim>\<open>main\<close> of \<^verbatim>\<open>examples/perf.rs\<close>: its settings, its policy, the warm-up, the
  timed loop with its totals, and the percentiles.

  The environment, the file it dumps to, the YAML reader and what the clock reads in each iteration
  are parameters.  \<open>None\<close> is a panic.  The floating-point index of a percentile is computed with the
  rounding of \<^verbatim>\<open>f64\<close>: a number below one is a multiple of \<open>1 / 2 ^ 53\<close>, and a product is rounded to 53
  significant bits, halves to even.  The two rates and the printing are left out.
\<close>

section \<open>Floating point\<close>

fun bit_width :: "nat \<Rightarrow> nat" where
  "bit_width n = (if n = 0 then 0 else Suc (bit_width (n div 2)))"

declare bit_width.simps [simp del]

definition f64_round :: "nat \<Rightarrow> nat" where
  "f64_round n =
     (let s = bit_width n - 53; q = n div 2 ^ s; r = 2 * (n mod 2 ^ s)
      in (if r < 2 ^ s \<or> r = 2 ^ s \<and> even q then q else Suc q) * 2 ^ s)"

text \<open>The three constants, as multiples of \<open>1 / 2 ^ 53\<close>; \<^verbatim>\<open>0.99\<close> and \<^verbatim>\<open>0.999\<close> are the nearest \<^verbatim>\<open>f64\<close>.\<close>

abbreviation F_050 :: nat where "F_050 \<equiv> 4503599627370496"
abbreviation F_099 :: nat where "F_099 \<equiv> 8917127262193582"
abbreviation F_0999 :: nat where "F_0999 \<equiv> 8998192055486251"

definition percentile :: "u64 list \<Rightarrow> nat \<Rightarrow> u64 option" where
  "percentile sorted_ns p =
     (if sorted_ns = [] then Some 0
      else let last_idx = f64_round (f64_round (length sorted_ns) - 1);
               idx = (f64_round (last_idx * p) + 2 ^ 52) div 2 ^ 53
           in if idx < length sorted_ns then Some (sorted_ns ! idx) else None)"

lemma bit_width_less: "n < 2 ^ bit_width n"
proof (induction n rule: bit_width.induct)
  case (1 n)
  then show ?case by (cases "n = 0") (auto simp: bit_width.simps[of n])
qed

lemma bit_width_ge: "0 < n \<Longrightarrow> 2 ^ (bit_width n - 1) \<le> n"
proof (induction n rule: bit_width.induct)
  case (1 n)
  show ?case
  proof (cases "n div 2 = 0")
    case False
    with 1 have "2 * 2 ^ (bit_width (n div 2) - 1) \<le> n" by simp
    moreover have "bit_width (n div 2) \<noteq> 0" using False by (simp add: bit_width.simps[of "n div 2"])
    ultimately show ?thesis using 1(2)
      by (simp add: bit_width.simps[of n] flip: power_Suc)
  qed (use 1(2) in \<open>simp add: bit_width.simps[of n] bit_width.simps[of 0]\<close>)
qed

lemma bit_width_mono: "m \<le> n \<Longrightarrow> bit_width m \<le> bit_width n"
proof (rule ccontr)
  assume le: "m \<le> n" and "\<not> bit_width m \<le> bit_width n"
  then have "bit_width n \<le> bit_width m - 1" "0 < bit_width m" by simp_all
  then have "2 ^ bit_width n \<le> (2 :: nat) ^ (bit_width m - 1)" "0 < m"
    by (simp, cases "m = 0") (simp_all add: bit_width.simps[of 0])
  then show False using bit_width_less[of n] bit_width_ge[of m] le by linarith
qed

text \<open>The rounding in units of the last place, and its scale.\<close>

lemma f64_round_parts:
  obtains s q r where "s = bit_width n - 53" "n = q * 2 ^ s + r" "r < 2 ^ s" "q = n div 2 ^ s"
    "f64_round n = (if 2 * r < 2 ^ s \<or> 2 * r = 2 ^ s \<and> even q then q else Suc q) * 2 ^ s"
    "s = 0 \<or> 2 ^ (s + 52) \<le> n"
proof -
  let ?s = "bit_width n - 53"
  have big: "?s = 0 \<or> 2 ^ (?s + 52) \<le> n"
  proof (rule disjCI)
    assume s: "\<not> 2 ^ (?s + 52) \<le> n"
    show "?s = 0"
    proof (rule ccontr)
      assume "?s \<noteq> 0"
      then have "?s + 52 = bit_width n - 1" "0 < n" by (auto simp: bit_width.simps[of 0] intro: ccontr)
      with bit_width_ge[of n] s show False by simp
    qed
  qed
  show ?thesis
    by (rule that[of ?s "n div 2 ^ ?s" "n mod 2 ^ ?s"])
      (use big in \<open>simp_all only: div_mult_mod_eq mod_less_divisor zero_less_power zero_less_numeral f64_round_def Let_def\<close>)
qed

lemma f64_round_error:
  "2 ^ 53 * f64_round n \<le> 2 ^ 53 * n + n" "2 ^ 53 * n \<le> 2 ^ 53 * f64_round n + n"
proof -
  obtain s q r where p: "s = bit_width n - 53" "n = q * 2 ^ s + r" "r < 2 ^ s" "q = n div 2 ^ s"
    "f64_round n = (if 2 * r < 2 ^ s \<or> 2 * r = 2 ^ s \<and> even q then q else Suc q) * 2 ^ s"
    "s = 0 \<or> 2 ^ (s + 52) \<le> n" by (rule f64_round_parts[of n])
  have e: "2 * f64_round n \<le> 2 * n + 2 ^ s" "2 * n \<le> 2 * f64_round n + 2 ^ s"
    using p(2,3,5) by auto
  have z: "f64_round n = n" if "s = 0" using p(2,3,5) that by simp
  have b: "2 ^ 52 * 2 ^ s \<le> n" if "s \<noteq> 0" using p(6) that by (simp add: power_add mult.commute)
  show "2 ^ 53 * f64_round n \<le> 2 ^ 53 * n + n" "2 ^ 53 * n \<le> 2 ^ 53 * f64_round n + n"
    using e z b by (cases "s = 0"; simp)+
qed

lemma f64_round_between: "2 ^ (bit_width n - 1) \<le> f64_round n" "f64_round n \<le> 2 ^ bit_width n" if "0 < n"
proof -
  obtain s q r where p: "s = bit_width n - 53" "n = q * 2 ^ s + r" "r < 2 ^ s" "q = n div 2 ^ s"
    "f64_round n = (if 2 * r < 2 ^ s \<or> 2 * r = 2 ^ s \<and> even q then q else Suc q) * 2 ^ s" by (rule f64_round_parts[of n])
  have w: "0 < bit_width n" using that by (simp add: bit_width.simps[of n])
  have f: "q * 2 ^ s \<le> f64_round n" "f64_round n \<le> Suc q * 2 ^ s" by (simp_all add: p(5))
  show "2 ^ (bit_width n - 1) \<le> f64_round n"
  proof -
    have "2 ^ (bit_width n - 1 - s) * 2 ^ s = (2 :: nat) ^ (bit_width n - 1)" using p(1) w by (simp flip: power_add)
    moreover from this have "2 ^ (bit_width n - 1 - s) \<le> q"
      using bit_width_ge[OF that] by (simp add: p(4) less_eq_div_iff_mult_less_eq)
    ultimately show ?thesis using f(1) by (metis le_trans mult_le_mono1)
  qed
  show "f64_round n \<le> 2 ^ bit_width n"
  proof -
    have e: "2 ^ (bit_width n - s) * 2 ^ s = (2 :: nat) ^ bit_width n" using p(1) by (simp flip: power_add)
    have "q < 2 ^ (bit_width n - s)" unfolding p(4) using bit_width_less[of n] e by (simp add: div_less_iff_less_mult)
    then have "Suc q * 2 ^ s \<le> 2 ^ (bit_width n - s) * 2 ^ s" by (intro mult_le_mono1) simp
    with f(2) e show ?thesis by linarith
  qed
qed

lemma f64_round_mono: "m \<le> n \<Longrightarrow> f64_round m \<le> f64_round n"
proof -
  assume le: "m \<le> n"
  consider "m = 0" | "0 < m" "bit_width m < bit_width n" | "bit_width m = bit_width n"
    using bit_width_mono[OF le] by linarith
  then show "f64_round m \<le> f64_round n"
  proof cases
    case 1
    then show ?thesis by (simp add: f64_round_def bit_width.simps[of 0])
  next
    case 2
    have "f64_round m \<le> 2 ^ bit_width m" using f64_round_between(2)[OF 2(1)] .
    also have "\<dots> \<le> 2 ^ (bit_width n - 1)" using 2(2) by simp
    also have "\<dots> \<le> f64_round n" using f64_round_between(1)[of n] 2(1) le by simp
    finally show ?thesis .
  next
    case 3
    obtain s q r where p: "s = bit_width n - 53" "n = q * 2 ^ s + r" "r < 2 ^ s" "q = n div 2 ^ s"
      "f64_round n = (if 2 * r < 2 ^ s \<or> 2 * r = 2 ^ s \<and> even q then q else Suc q) * 2 ^ s" by (rule f64_round_parts[of n])
    obtain s' q' r' where p': "s' = bit_width m - 53" "m = q' * 2 ^ s' + r'" "r' < 2 ^ s'" "q' = m div 2 ^ s'"
      "f64_round m = (if 2 * r' < 2 ^ s' \<or> 2 * r' = 2 ^ s' \<and> even q' then q' else Suc q') * 2 ^ s'" by (rule f64_round_parts[of m])
    have s: "s' = s" using p(1) p'(1) 3 by simp
    have "q' \<le> q" unfolding p(4) p'(4) s using le by (rule div_le_mono)
    moreover have "r' \<le> r" if "q' = q" using le p(2) p'(2) unfolding s that by linarith
    ultimately consider "Suc q' \<le> q" | "q' = q" "r' \<le> r" by linarith
    then show ?thesis
      by cases (auto simp: p(5) p'(5) s)
  qed
qed

section \<open>Percentiles\<close>

lemma percentile_index:
  assumes "0 < k" "k \<le> 2 ^ 52" "p \<le> 2 ^ 53" "j = f64_round (f64_round k - 1)" "i = (f64_round (j * p) + 2 ^ 52) div 2 ^ 53"
  shows "i < k" "p * (k - 1) \<le> 2 ^ 53 * Suc i" "2 ^ 53 * i \<le> p * (k - 1) + 2 ^ 53"
proof -
  have small: "f64_round m = m" if "m \<le> 2 ^ 52" for m
    using f64_round_error[of m] that by simp
  have j: "j = k - 1" using assms(1,2,4) by (simp add: small)
  let ?n = "j * p" and ?y = "f64_round (j * p)"
  have n: "?n \<le> 2 ^ 53 * (k - 1)" using assms(3) j by (simp add: mult.commute)
  have y: "2 ^ 53 * ?y \<le> 2 ^ 53 * ?n + ?n" "2 ^ 53 * ?n \<le> 2 ^ 53 * ?y + ?n" by (rule f64_round_error)+
  have y': "?y \<le> ?n + (k - 1)" "?n \<le> ?y + (k - 1)" using n y by simp_all
  have i: "2 ^ 53 * i \<le> ?y + 2 ^ 52" "?y + 2 ^ 52 < 2 ^ 53 * Suc i"
    unfolding assms(5) by (simp_all add: dividend_less_times_div)
  show "i < k"
  proof (rule ccontr)
    assume "\<not> i < k"
    then have "2 ^ 53 * k \<le> 2 ^ 53 * i" by simp
    with i(1) y'(1) n assms(1,2) show False by simp
  qed
  show "p * (k - 1) \<le> 2 ^ 53 * Suc i" using i(2) y'(2) assms(2) by (simp add: j mult.commute)
  show "2 ^ 53 * i \<le> p * (k - 1) + 2 ^ 53" using i(1) y'(1) assms(2) by (simp add: j mult.commute)
qed

text \<open>What is at an index of a sorted list has at least so many samples up to it, and at most so many below.\<close>

lemma sorted_index_counts:
  assumes "sorted xs" "i < length xs"
  shows "Suc i \<le> length (filter (\<lambda>x. x \<le> xs ! i) xs)" "length (filter (\<lambda>x. x < xs ! i) xs) \<le> i"
proof -
  have split: "xs = take (Suc i) xs @ drop (Suc i) xs" "xs = take i xs @ drop i xs" by simp_all
  have "filter (\<lambda>x. x \<le> xs ! i) (take (Suc i) xs) = take (Suc i) xs"
    using assms by (intro filter_True) (auto simp: in_set_conv_nth sorted_nth_mono)
  moreover have "length (filter P (take (Suc i) xs)) \<le> length (filter P xs)" for P
    by (subst split(1), subst filter_append) simp
  ultimately show "Suc i \<le> length (filter (\<lambda>x. x \<le> xs ! i) xs)"
    by (metis assms(2) length_take min.absorb2 Suc_leI)
  have "filter (\<lambda>x. x < xs ! i) (drop i xs) = []"
    using assms by (auto simp: filter_empty_conv in_set_conv_nth not_less sorted_nth_mono)
  then have "filter (\<lambda>x. x < xs ! i) xs = filter (\<lambda>x. x < xs ! i) (take i xs)"
    by (subst split(2), subst filter_append) simp
  then show "length (filter (\<lambda>x. x < xs ! i) xs) \<le> i"
    by (metis length_filter_le length_take min.cobounded2 le_trans)
qed

lemma percentile_rank:
  assumes "sorted xs" "xs \<noteq> []" "length xs \<le> 2 ^ 52" "p \<le> 2 ^ 53"
  shows "\<exists>v \<in> set xs. percentile xs p = Some v \<and>
    p * (length xs - 1) \<le> 2 ^ 53 * length (filter (\<lambda>x. x \<le> v) xs) \<and>
    2 ^ 53 * length (filter (\<lambda>x. x < v) xs) \<le> p * (length xs - 1) + 2 ^ 53"
proof -
  define i where "i = (f64_round (f64_round (f64_round (length xs) - 1) * p) + 2 ^ 52) div 2 ^ 53"
  have k: "0 < length xs" using assms(2) by simp
  note bounds = percentile_index[OF k assms(3,4) refl i_def]
  note counts = sorted_index_counts[OF assms(1) bounds(1)]
  have "percentile xs p = Some (xs ! i)" using assms(2) bounds(1) by (simp add: percentile_def Let_def i_def)
  moreover have "p * (length xs - 1) \<le> 2 ^ 53 * length (filter (\<lambda>x. x \<le> xs ! i) xs)"
    using bounds(2) counts(1) by (meson le_trans mult_le_mono2)
  moreover have "2 ^ 53 * length (filter (\<lambda>x. x < xs ! i) xs) \<le> p * (length xs - 1) + 2 ^ 53"
    using bounds(3) counts(2) by (meson le_trans mult_le_mono2)
  ultimately show ?thesis using bounds(1) by (intro bexI[of _ "xs ! i"]) simp_all
qed

lemma percentile_mono:
  assumes "sorted xs" "p \<le> p'" "percentile xs p = Some v" "percentile xs p' = Some v'"
  shows "v \<le> v'"
proof (cases "xs = []")
  case False
  have "(f64_round (j * p) + 2 ^ 52) div 2 ^ 53 \<le> (f64_round (j * p') + 2 ^ 52) div 2 ^ 53" for j
    using assms(2) by (intro div_le_mono add_le_mono1 f64_round_mono mult_le_mono2)
  with assms False show ?thesis
    by (auto simp: percentile_def Let_def split: if_splits intro!: sorted_nth_mono)
qed (use assms in \<open>simp add: percentile_def\<close>)

section \<open>The measuring loop\<close>

definition perf_corpus :: "nat \<Rightarrow> nat \<Rightarrow> u8 list list" where
  "perf_corpus corpus_size records_per_req = map (\<lambda>s. perf_request records_per_req (of_nat s + 1)) [0..<corpus_size]"

text \<open>Every request of the corpus once; \<open>None\<close> is a panic.\<close>

definition warm_up ::
  "('rx, 'rs) regex_lib \<Rightarrow> 'h hasher \<Rightarrow> (nat \<Rightarrow> instant) \<Rightarrow> u8 list list \<Rightarrow> ('rx, 'rs) pipeline \<Rightarrow> ('rx, 'rs) pipeline option" where
  "warm_up lib hx clock corpus pipeline =
     fold (\<lambda>i p. Option.bind p (\<lambda>pl. map_option fst (process lib hx i (clock i) pl (corpus ! i)))) [0..<length corpus] (Some pipeline)"

text \<open>
  The timed loop: in iteration \<open>i\<close> the clock reads \<open>t0 i\<close> before the call, \<open>now i\<close> inside it and \<open>t1 i\<close> after
  it.  The nanoseconds of a sample and the two totals wrap around at 64 bits.
\<close>

record timer =
  tm_before :: "nat \<Rightarrow> instant"
  tm_inside :: "nat \<Rightarrow> instant"
  tm_after :: "nat \<Rightarrow> instant"

definition sample_ns :: "timer \<Rightarrow> nat \<Rightarrow> u64" where
  "sample_ns tm i = of_nat (saturating_duration_since (tm_after tm i) (tm_before tm i))"

definition measure_step ::
  "('rx, 'rs) regex_lib \<Rightarrow> 'h hasher \<Rightarrow> timer \<Rightarrow> u8 list list \<Rightarrow> nat \<Rightarrow>
   ('rx, 'rs) pipeline \<times> u64 list \<times> u64 \<times> u64 \<Rightarrow> (('rx, 'rs) pipeline \<times> u64 list \<times> u64 \<times> u64) option" where
  "measure_step lib hx tm corpus i acc =
     (case acc of (pl, samples, total_records, total_dropped) \<Rightarrow>
        (case process lib hx i (tm_inside tm i) pl (corpus ! (i mod length corpus)) of
           None \<Rightarrow> None
         | Some (pl', out) \<Rightarrow> Some (pl', samples @ [sample_ns tm i], total_records + of_nat (ps_records_in (pr_stats out)),
             total_dropped + of_nat (ps_dropped (pr_stats out)))))"

definition measure_loop ::
  "('rx, 'rs) regex_lib \<Rightarrow> 'h hasher \<Rightarrow> timer \<Rightarrow> u8 list list \<Rightarrow> nat \<Rightarrow>
   ('rx, 'rs) pipeline \<Rightarrow> (('rx, 'rs) pipeline \<times> u64 list \<times> u64 \<times> u64) option" where
  "measure_loop lib hx tm corpus iters pipeline =
     fold (\<lambda>i acc. Option.bind acc (measure_step lib hx tm corpus i)) [0..<iters] (Some (pipeline, [], 0, 0))"

text \<open>The records of a request that a policy drops.\<close>

definition dropped_records :: "'h hasher \<Rightarrow> sampling_policy \<Rightarrow> log_rec list \<Rightarrow> nat" where
  "dropped_records hx policy rs = length (filter (\<lambda>r. record_verdict hx policy r = Drop) rs)"

lemma process_counts:
  assumes "length raw < 2 ^ 64" "matches_inside lib" "decode_request raw = Some rs"
  shows "\<exists>pl' out. process lib hx t now pl raw = Some (pl', out) \<and> pl_policy pl' = pl_policy pl \<and>
    ps_records_in (pr_stats out) = length rs \<and> ps_dropped (pr_stats out) = dropped_records hx (pl_policy pl) rs"
proof -
  from parser_refines[OF assms(1)] assms(3) obtain recs where p: "parse_export_logs_request raw [] = Ok recs"
    and rs: "rs = map (view_record raw) recs" by (auto simp: ok_opt_Some)
  let ?e = "sampled_env t raw recs (verdicts_of hx (pl_policy pl) raw recs)"
  obtain pl1 env skipped where r: "redact_step lib now pl ?e = (pl1, env, skipped)" by (metis prod.collapse)
  have d: "dc_redactions (ev_decisions ?e) = []" by (simp add: sampled_env_def)
  have "recs = (case parse_export_logs_request raw [] of Ok rs \<Rightarrow> rs | _ \<Rightarrow> [])" using p by simp
  from process_effect[OF assms(1,2) this r] obtain out failed where "process lib hx t now pl raw =
      Some (pl1, \<lparr>pr_output = out, pr_stats = run_stats raw (\<not> is_Ok (parse_export_logs_request raw []))
        (verdicts_of hx (pl_policy pl) raw recs) skipped env failed out\<rparr>)" by blast
  moreover have "list_all (record_ok raw) recs" using parse_request_post[OF assms(1)] p by auto
  then have "verdicts_of hx (pl_policy pl) raw recs = map (record_verdict hx (pl_policy pl)) rs"
    by (simp add: verdicts_of_records rs)
  ultimately show ?thesis using redact_step_effect(7)[OF assms(2) r d]
    by (simp add: run_stats_def dropped_records_def filter_map o_def)
qed

definition corpus_ok :: "u8 list list \<Rightarrow> (nat \<Rightarrow> log_rec list) \<Rightarrow> bool" where
  "corpus_ok corpus rs \<longleftrightarrow> (\<forall>i < length corpus. length (corpus ! i) < 2 ^ 64 \<and> decode_request (corpus ! i) = Some (rs i))"

lemma warm_up_total:
  assumes "corpus_ok corpus rs" "matches_inside lib"
  shows "\<exists>pl'. warm_up lib hx clock corpus pl = Some pl' \<and> pl_policy pl' = pl_policy pl"
proof -
  have "\<exists>pl'. fold (\<lambda>i p. Option.bind p (\<lambda>pl. map_option fst (process lib hx i (clock i) pl (corpus ! i)))) [0..<n] (Some pl) = Some pl' \<and>
      pl_policy pl' = pl_policy pl" if "n \<le> length corpus" for n
    using that
  proof (induction n)
    case (Suc n)
    then obtain pl1 where pl1: "fold (\<lambda>i p. Option.bind p (\<lambda>pl. map_option fst (process lib hx i (clock i) pl (corpus ! i)))) [0..<n] (Some pl) =
        Some pl1" "pl_policy pl1 = pl_policy pl" by auto
    have c: "length (corpus ! n) < 2 ^ 64" "decode_request (corpus ! n) = Some (rs n)"
      using assms(1) Suc.prems by (simp_all add: corpus_ok_def)
    from process_counts[OF c(1) assms(2) c(2), of hx n "clock n" pl1] pl1 show ?case by auto
  qed simp
  from this[of "length corpus"] show ?thesis by (simp add: warm_up_def)
qed

lemma measure_loop_totals:
  assumes "corpus_ok corpus rs" "corpus \<noteq> []" "matches_inside lib"
  shows "\<exists>pl'. measure_loop lib hx tm corpus iters pl = Some (pl', map (sample_ns tm) [0..<iters],
      of_nat (\<Sum>i < iters. length (rs (i mod length corpus))),
      of_nat (\<Sum>i < iters. dropped_records hx (pl_policy pl) (rs (i mod length corpus)))) \<and> pl_policy pl' = pl_policy pl"
proof (induction iters)
  case 0
  then show ?case by (simp add: measure_loop_def)
next
  case (Suc n)
  then obtain pl1 where pl1: "measure_loop lib hx tm corpus n pl = Some (pl1, map (sample_ns tm) [0..<n],
      of_nat (\<Sum>i < n. length (rs (i mod length corpus))),
      of_nat (\<Sum>i < n. dropped_records hx (pl_policy pl) (rs (i mod length corpus))))" "pl_policy pl1 = pl_policy pl" by blast
  have "n mod length corpus < length corpus" using assms(2) by simp
  then have c: "length (corpus ! (n mod length corpus)) < 2 ^ 64"
      "decode_request (corpus ! (n mod length corpus)) = Some (rs (n mod length corpus))"
    using assms(1) by (simp_all add: corpus_ok_def)
  have u: "measure_loop lib hx tm corpus (Suc n) pl = Option.bind (measure_loop lib hx tm corpus n pl) (measure_step lib hx tm corpus n)"
    by (simp add: measure_loop_def)
  from process_counts[OF c(1) assms(3) c(2), of hx n "tm_inside tm n" pl1] pl1 show ?case
    unfolding u by (auto simp: measure_step_def add.commute)
qed

section \<open>The policy of the harness\<close>

abbreviation POLICY_RULES :: "(u8 list \<times> u8 list \<times> u8 list) list" where
  "POLICY_RULES \<equiv>
     [(bytes ''email'', bytes ''[A-Za-z0-9._%+-]+@[A-Za-z0-9.-]+'' @ [92] @ bytes ''.[A-Za-z]{2,}'', bytes ''[EMAIL]''),
      (bytes ''ipv4'', [92] @ bytes ''b'' @ [92] @ bytes ''d{1,3}('' @ [92] @ bytes ''.'' @ [92] @ bytes ''d{1,3}){3}'' @ [92] @ bytes ''b'',
       bytes ''[IP]''),
      (bytes ''token'', bytes ''token [A-Za-z0-9]+'', bytes ''token [TOK]''),
      (bytes ''bearer'', bytes ''Bearer [A-Za-z0-9._-]+'', bytes ''Bearer [TOK]''),
      (bytes ''ccard'', [92] @ bytes ''b(?:'' @ [92] @ bytes ''d[ -]*?){13,16}'' @ [92] @ bytes ''b'', bytes ''[CARD]'')]"

text \<open>The text of the document; the name of the second rule is followed by a second blank.\<close>

definition POLICY :: "u8 list" where
  "POLICY = yaml_lines
     ([[], bytes ''sampling:'', bytes ''  default_target: 100'', bytes ''  rules:'',
       bytes ''    - match: { namespace: '' @ double_quoted (bytes ''payments'') @ bytes '' }'', bytes ''      target: 25'',
       bytes ''redaction:'', bytes ''  regex_rules:''] @
      map (\<lambda>(name, pattern, mask). bytes ''    - { name: '' @ name @ (if name = bytes ''ipv4'' then bytes '',  '' else bytes '', '') @
        bytes ''pattern: '' @ single_quoted pattern @ bytes '', mask: '' @ double_quoted mask @ bytes '', fields: [body] }'') POLICY_RULES)"

text \<open>What a YAML reader makes of it.\<close>

definition perf_config :: agent_config where
  "perf_config = agent_default\<lparr>
     ac_sampling := \<lparr>sc_default_target = 100, sc_rules =
       [\<lparr>sr_selector = \<lparr>sm_namespace = Some (bytes ''payments''), sm_severity_lte = None\<rparr>, sr_target = 25\<rparr>]\<rparr>,
     ac_redaction := \<lparr>rc_regex_rules = map (\<lambda>(name, pattern, mask).
       \<lparr>rr_name = name, rr_pattern = pattern, rr_mask = mask, rr_fields = [bytes ''body'']\<rparr>) POLICY_RULES\<rparr>\<rparr>"

section \<open>The run\<close>

definition env_usize :: "(u8 list \<Rightarrow> u8 list option) \<Rightarrow> u8 list \<Rightarrow> nat \<Rightarrow> nat" where
  "env_usize env key dflt = (case Option.bind (env key) parse_u64 of Some v \<Rightarrow> unat v | None \<Rightarrow> dflt)"

text \<open>\<^verbatim>\<open>pass\<close>.\<close>

definition pass_text :: "bool \<Rightarrow> u8 list" where
  "pass_text ok = (if ok then bytes ''PASS'' else bytes ''FAIL'')"

record perf_report =
  re_req_bytes :: nat
  re_total_records :: u64
  re_total_dropped :: u64
  re_p50 :: u64
  re_p99 :: u64
  re_p999 :: u64
  re_latency :: "u8 list"

datatype perf_outcome =
    Dumped "u8 list" "u8 list"
  | Report perf_report

text \<open>After the loop; an index out of range panics.\<close>

definition summarize :: "nat \<Rightarrow> 'p \<times> u64 list \<times> u64 \<times> u64 \<Rightarrow> perf_outcome option" where
  "summarize req_bytes measured =
     (case measured of (_, samples, total_records, total_dropped) \<Rightarrow>
        let samples = sort samples in
        Option.bind (percentile samples F_050) (\<lambda>p50.
        Option.bind (percentile samples F_099) (\<lambda>p99.
        Option.bind (percentile samples F_0999) (\<lambda>p999.
          Some (Report \<lparr>re_req_bytes = req_bytes, re_total_records = total_records, re_total_dropped = total_dropped,
            re_p50 = p50, re_p99 = p99, re_p999 = p999, re_latency = pass_text (p99 < 1000000)\<rparr>)))))"

text \<open>
  \<^verbatim>\<open>Vec::with_capacity\<close> panics when the samples would take more than \<open>2 ^ 63 - 1\<close> bytes; the three \<^verbatim>\<open>expect\<close>s
  panic on an error.
\<close>

definition perf_main ::
  "('rx, 'rs) regex_lib \<Rightarrow> 'h hasher \<Rightarrow> (u8 list \<Rightarrow> u8 list option) \<Rightarrow> (u8 list \<Rightarrow> u8 list \<Rightarrow> bool) \<Rightarrow>
   (u8 list \<Rightarrow> unit + agent_config) \<Rightarrow> instant \<Rightarrow> (nat \<Rightarrow> instant) \<Rightarrow> timer \<Rightarrow> perf_outcome option" where
  "perf_main lib hx env write_file from_str start clock tm =
     (let records_per_req = env_usize env (bytes ''ARCHIV_PERF_RECORDS'') 10;
          iters = env_usize env (bytes ''ARCHIV_PERF_ITERS'') 100000;
          corpus_size = 64
      in case env (bytes ''ARCHIV_PERF_DUMP'') of
           Some path \<Rightarrow>
             (let payload = perf_request records_per_req 1
              in if write_file path payload then Some (Dumped path payload) else None)
         | None \<Rightarrow>
             (case rbind (map_err BuildConfig (from_yaml from_str POLICY)) (from_config lib start) of
                (Ok pipeline :: ((unit, unit) build_error, ('rx, 'rs) pipeline) result) \<Rightarrow>
                  (let corpus = perf_corpus corpus_size records_per_req;
                       req_bytes = sum_list (map length corpus) div length corpus
                   in Option.bind (warm_up lib hx clock corpus pipeline) (\<lambda>pipeline.
                      if 2 ^ 63 \<le> 8 * iters then None
                      else Option.bind (measure_loop lib hx tm corpus iters pipeline) (summarize req_bytes)))
              | _ \<Rightarrow> None))"

lemma policy_linted: "list_all (\<lambda>(name, pattern, mask). check_nested_repetition pattern = Ok ()) POLICY_RULES"
  by code_simp

text \<open>The policy is valid, and a library that accepts its patterns builds a pipeline that samples its records at 25 percent.\<close>

lemma perf_config_valid: "(validate perf_config :: ((unit, unit) config_error, unit) result) = Ok ()"
  by (simp add: perf_config_def config_test_defs test_selectors word_less_nat_alt del: bytes_simps)

lemma perf_config_built:
  assumes "\<forall>(name, pattern, mask) \<in> set POLICY_RULES. \<exists>rx. rx_build lib pattern (2 ^ 20) = Inr rx"
    and "\<exists>rs. rx_set_build lib (map (fst \<circ> snd) POLICY_RULES) (5 * 2 ^ 20) = Inr rs"
  shows "\<exists>pl. (from_config lib start perf_config :: ((unit, unit) build_error, ('rx, 'rs) pipeline) result) = Ok pl \<and>
    pl_policy pl = sampling_policy_new
      [\<lparr>rule_namespace_glob = Some (bytes ''payments''), rule_severity_lte = None, rule_target = 25\<rparr>] 100"
  using assms policy_linted
  by (auto simp: perf_config_def from_config_def agent_default_def into_rule_specs_def into_rule_spec_def parse_selectors_def
      test_selectors redact_compile_def compile_limits_default_def saturating_mul_def Let_def split: prod.splits simp del: bytes_simps)

lemma perf_verdict:
  "record_verdict hx (sampling_policy_new [\<lparr>rule_namespace_glob = Some (bytes ''payments''), rule_severity_lte = None, rule_target = 25\<rparr>] 100)
     (perf_record seed i) = Drop \<longleftrightarrow> \<not> keep hx (perf_trace_id seed i) 25"
proof -
  have g: "glob_matches (bytes ''payments'') (bytes ''payments'')" by code_simp
  have l: "length (perf_trace_id seed i) = 16" by (simp add: perf_trace_id_def to_le_bytes_def)
  show ?thesis
    using g by (simp add: record_verdict_def resolve_def sampling_policy_new_def rule_matches_def perf_record_def record_trace_def l
        Let_def del: bytes_simps)
qed

text \<open>The harness drops the records whose trace id is not kept at 25 percent.\<close>

definition perf_dropped :: "'h hasher \<Rightarrow> nat \<Rightarrow> u64 \<Rightarrow> nat" where
  "perf_dropped hx n seed = length (filter (\<lambda>i. \<not> keep hx (perf_trace_id seed i) 25) [0..<n])"

text \<open>
  The harness reports what it measures: for every regex library that builds the five patterns, no
  request of the corpus makes the pipeline panic and no percentile is out of range; the number of
  records is that of the iterations times that of a request, and the number dropped that of the
  trace ids that are not kept at 25 percent.  The percentiles ascend, and each is a sample with at
  least its share of the samples (but one) at or below it, and at most its share and one below it.
\<close>

theorem perf_reports:
  assumes "\<forall>(name, pattern, mask) \<in> set POLICY_RULES. \<exists>rx. rx_build lib pattern (2 ^ 20) = Inr rx"
    and "\<exists>rs. rx_set_build lib (map (fst \<circ> snd) POLICY_RULES) (5 * 2 ^ 20) = Inr rs" "matches_inside lib"
    and "from_str POLICY = Inr perf_config" "env (bytes ''ARCHIV_PERF_DUMP'') = None"
    and "n = env_usize env (bytes ''ARCHIV_PERF_RECORDS'') 10" "n < 2 ^ 50"
    and "iters = env_usize env (bytes ''ARCHIV_PERF_ITERS'') 100000" "0 < iters" "iters \<le> 2 ^ 52"
    and "samples = map (sample_ns tm) [0..<iters]"
  shows "\<exists>r. perf_main lib hx env write_file from_str start clock tm = Some (Report r) \<and>
    re_total_records r = of_nat (iters * n) \<and>
    re_total_dropped r = of_nat (\<Sum>i < iters. perf_dropped hx n (of_nat (i mod 64) + 1)) \<and>
    re_p50 r \<le> re_p99 r \<and> re_p99 r \<le> re_p999 r \<and>
    (\<forall>(p, v) \<in> {(F_050, re_p50 r), (F_099, re_p99 r), (F_0999, re_p999 r)}. v \<in> set samples \<and>
      p * (iters - 1) \<le> 2 ^ 53 * length (filter (\<lambda>x. x \<le> v) samples) \<and>
      2 ^ 53 * length (filter (\<lambda>x. x < v) samples) \<le> p * (iters - 1) + 2 ^ 53)"
proof -
  let ?corpus = "perf_corpus 64 n" and ?rs = "\<lambda>s. map (perf_record (of_nat s + 1)) [0..<n]"
  let ?bytes = "sum_list (map length ?corpus) div length ?corpus"
  obtain pl where pl: "(from_config lib start perf_config :: ((unit, unit) build_error, ('a, 'b) pipeline) result) = Ok pl"
    and policy: "pl_policy pl = sampling_policy_new [\<lparr>rule_namespace_glob = Some (bytes ''payments''), rule_severity_lte = None, rule_target = 25\<rparr>] 100"
    using perf_config_built[OF assms(1,2)] by blast
  have l: "length ?corpus = 64" by (simp add: perf_corpus_def)
  then have ne: "?corpus \<noteq> []" by auto
  have c: "corpus_ok ?corpus ?rs"
    using perf_request_short[OF assms(7)] perf_request_decode by (simp add: corpus_ok_def perf_corpus_def)
  from warm_up_total[OF c assms(3)] obtain pl0 where pl0: "warm_up lib hx clock ?corpus pl = Some pl0" "pl_policy pl0 = pl_policy pl"
    by blast
  have "dropped_records hx (pl_policy pl0) (?rs s) = perf_dropped hx n (of_nat s + 1)" for s
    unfolding pl0(2) policy by (simp add: dropped_records_def perf_dropped_def filter_map o_def perf_verdict del: bytes_simps)
  with measure_loop_totals[OF c ne assms(3), of hx tm iters pl0] l obtain pl1 where
    "measure_loop lib hx tm ?corpus iters pl0 = Some (pl1, samples, of_nat (iters * n),
       of_nat (\<Sum>i < iters. perf_dropped hx n (of_nat (i mod 64) + 1)))" by (auto simp: assms(11))
  note measured = this
  have len: "length (sort samples) = iters" by (simp add: assms(11))
  then have "sort samples \<noteq> []" using assms(9) by (metis length_0_conv less_irrefl)
  then have rank: "p \<le> 2 ^ 53 \<Longrightarrow> \<exists>v \<in> set samples. percentile (sort samples) p = Some v \<and>
      p * (iters - 1) \<le> 2 ^ 53 * length (filter (\<lambda>x. x \<le> v) samples) \<and>
      2 ^ 53 * length (filter (\<lambda>x. x < v) samples) \<le> p * (iters - 1) + 2 ^ 53" for p
    using percentile_rank[of "sort samples" p] assms(10) len by (simp add: filter_sort)
  from rank[of F_050] obtain p50 where p50: "percentile (sort samples) F_050 = Some p50" by auto
  from rank[of F_099] obtain p99 where p99: "percentile (sort samples) F_099 = Some p99" by auto
  from rank[of F_0999] obtain p999 where p999: "percentile (sort samples) F_0999 = Some p999" by auto
  let ?r = "\<lparr>re_req_bytes = ?bytes, re_total_records = of_nat (iters * n),
    re_total_dropped = of_nat (\<Sum>i < iters. perf_dropped hx n (of_nat (i mod 64) + 1)), re_p50 = p50, re_p99 = p99, re_p999 = p999,
    re_latency = pass_text (p99 < 1000000)\<rparr>"
  have "\<not> 2 ^ 63 \<le> 8 * iters" using assms(10) by simp
  then have "perf_main lib hx env write_file from_str start clock tm = Some (Report ?r)"
    using measured pl pl0(1) p50 p99 p999 assms(4,5)
    by (simp add: perf_main_def from_yaml_def perf_config_valid summarize_def Let_def
        flip: assms(6,8) del: bytes_simps sum_list.eq_foldr)
  moreover have "p50 \<le> p99" "p99 \<le> p999"
    by (rule percentile_mono[OF _ _ p50 p99]; simp) (rule percentile_mono[OF _ _ p99 p999]; simp)
  ultimately show ?thesis
    using rank[of F_050] rank[of F_099] rank[of F_0999] p50 p99 p999 by (intro exI[of _ ?r]) simp
qed

text \<open>A library that accepts every pattern and finds nothing.\<close>

definition quiet_lib :: "(unit, unit) regex_lib" where
  "quiet_lib = \<lparr>rx_build = (\<lambda>_ _. Inr ()), rx_find_iter = (\<lambda>_ _. []), rx_set_build = (\<lambda>_ _. Inr ()), rx_set_matches = (\<lambda>_ _. [])\<rparr>"

theorem perf_reports_witness:
  "\<exists>r. perf_main quiet_lib poly_hasher (\<lambda>_. None) (\<lambda>_ _. True) (\<lambda>_. Inr perf_config) 0 (\<lambda>i. i)
      \<lparr>tm_before = (\<lambda>i. i), tm_inside = (\<lambda>i. i), tm_after = (\<lambda>i. i + 5)\<rparr> = Some (Report r) \<and>
    re_total_records r = 1000000 \<and> re_p50 r \<le> re_p99 r \<and> re_p99 r \<le> re_p999 r"
proof -
  have "matches_inside quiet_lib" by (simp add: matches_inside_def quiet_lib_def)
  moreover have "env_usize (\<lambda>_. None) k d = d" for k d by (simp add: env_usize_def)
  ultimately show ?thesis
    using perf_reports[of quiet_lib "\<lambda>_. Inr perf_config" "\<lambda>_. None" 10 100000
        "map (sample_ns \<lparr>tm_before = (\<lambda>i. i), tm_inside = (\<lambda>i. i), tm_after = (\<lambda>i. i + 5)\<rparr>) [0..<100000]"
        "\<lparr>tm_before = (\<lambda>i. i), tm_inside = (\<lambda>i. i), tm_after = (\<lambda>i. i + 5)\<rparr>" poly_hasher "\<lambda>_ _. True" 0 "\<lambda>i. i"]
    by (fastforce simp: quiet_lib_def simp del: bytes_simps)
qed

end
