(* ===== verification/Spec2Isabelle.thy ===== *)
theory Spec2Isabelle
  imports Wellformed Lifecycle Workers Concurrent Render UnitTests Harness
begin

text \<open>
  A verification library for \<^verbatim>\<open>archiv-agent\<close>, a node-local agent that receives OTLP log requests over
  HTTP and gRPC, samples and redacts their records without decoding and re-encoding what it does not
  change, and forwards the governed bytes to a destination or keeps them in a disk spool.

  \<^bold>\<open>Parts and theories.\<close>  The order is that of the data flow; paths are below \<^verbatim>\<open>src/\<close>.

  \<^item> \<^verbatim>\<open>Prelude\<close>: byte strings, the result type (\<open>Ok\<close>, \<open>Err\<close>, \<open>Panic\<close>), checked and saturating arithmetic,
    and the rules the other theories share (\<open>result_simps\<close>).  \<^verbatim>\<open>Decimal\<close>: decimal numerals of the standard
    library.
  \<^item> \<^verbatim>\<open>Wire\<close>, \<^verbatim>\<open>WireFields\<close>, \<^verbatim>\<open>Ingest\<close>, \<^verbatim>\<open>Decode\<close> (\<^verbatim>\<open>crates/archiv-ingest/src/otlp.rs\<close>, \<^verbatim>\<open>lib.rs\<close>): the cursor over
    protobuf bytes, the walker loop, one function per message, and the parse stage.  \<^verbatim>\<open>WireFields\<close> turns
    the loop into a list of fields; \<^verbatim>\<open>Decode\<close> is a reference decoder that copies bytes.  Lemmas: no
    panic, every range inside the buffer, agreement with the reference decoder.
  \<^item> \<^verbatim>\<open>Envelope\<close>, \<^verbatim>\<open>Guard\<close> (\<^verbatim>\<open>crates/archiv-pipeline/src/envelope.rs\<close>, \<^verbatim>\<open>guard.rs\<close>): record views, decisions, and
    the fail-open guard with the contract of a stage, the locale \<open>fail_open_stage\<close>, which the parse and
    the redaction stage interpret.
  \<^item> \<^verbatim>\<open>Glob\<close> (\<^verbatim>\<open>crates/archiv-redact/src/glob.rs\<close>) and \<^verbatim>\<open>Sampling\<close> (\<^verbatim>\<open>crates/archiv-sampling/src\<close>): the wildcard
    matcher against its recursive meaning, with its number of iterations, the deterministic decision and target resolution.
  \<^item> \<^verbatim>\<open>Lint\<close>, \<^verbatim>\<open>Redact\<close> (\<^verbatim>\<open>crates/archiv-redact/src/lint.rs\<close>, \<^verbatim>\<open>lib.rs\<close>): the nested-repetition lint against a parse
    of the pattern, selectors, policy compilation and the redaction stage.
  \<^item> \<^verbatim>\<open>Encode\<close>, \<^verbatim>\<open>Export\<close>, \<^verbatim>\<open>Segments\<close>, \<^verbatim>\<open>Govern\<close>, \<^verbatim>\<open>Reparse\<close> (\<^verbatim>\<open>crates/archiv-export/src/lib.rs\<close>): the wire encoding,
    effective spans, the segment tree and the assembler; \<^verbatim>\<open>Govern\<close> is a reference re-encoding that
    assembly refines, and \<^verbatim>\<open>Reparse\<close> shows what a receiver decodes from the output.
  \<^item> \<^verbatim>\<open>Placement\<close>: the spans of the redaction stage lie in the fields of their records, which is what the
    exporter relies on.
  \<^item> \<^verbatim>\<open>Config\<close> (\<^verbatim>\<open>crates/archiv-config/src/lib.rs\<close>), \<^verbatim>\<open>Breaker\<close> (\<^verbatim>\<open>src/breaker.rs\<close>) and \<^verbatim>\<open>Metrics\<close>
    (\<^verbatim>\<open>crates/archiv-metrics/src/lib.rs\<close>, \<^verbatim>\<open>src/metrics.rs\<close>): validation and the fingerprint; the circuit
    breaker, with runs of faults; counters as atomic operations that interleave, and the flush loop.  \<^verbatim>\<open>Render\<close>: the text line of an
    aggregate and the clock.
  \<^item> \<^verbatim>\<open>Pipeline\<close> (\<^verbatim>\<open>src/pipeline.rs\<close>): building a pipeline and \<^verbatim>\<open>process\<close>, the composition of the stages.
    \<open>in_service\<close> are the pipelines built from a configuration that have served any number of requests.
    \<^verbatim>\<open>Concurrent\<close> cuts \<^verbatim>\<open>process\<close> at its atomic operations (the two critical sections of the breaker and one
    addition per match): under every schedule of overlapping calls each answers as it would on its own,
    and with a documented regex library the whole is a sequential run (the locales \<open>stepwise\<close> and
    \<open>conserving\<close>, interpreted by the calls).
  \<^item> \<^verbatim>\<open>Forward\<close> (\<^verbatim>\<open>src/forward.rs\<close>), \<^verbatim>\<open>Spool\<close>, \<^verbatim>\<open>SpoolRun\<close>, \<^verbatim>\<open>DrainLoop\<close> (\<^verbatim>\<open>src/spool.rs\<close>): the request to the
    destination; the spool's files, its critical sections (on the locale \<open>ordered_map\<close>, interpreted by
    red-black trees for \<^verbatim>\<open>BTreeMap\<close>), its runs as a step relation with crashes and restarts, and the waits
    of the drain loop.
  \<^item> \<^verbatim>\<open>Server\<close>, \<^verbatim>\<open>Pool\<close>, \<^verbatim>\<open>Grpc\<close>, \<^verbatim>\<open>Agent\<close> (\<^verbatim>\<open>src/server.rs\<close>, \<^verbatim>\<open>src/grpc.rs\<close>, \<^verbatim>\<open>src/main.rs\<close>): the run of one payload
    and the HTTP answers, the bounded queue and its workers, gRPC frames and answers, and start-up.
  \<^item> \<^verbatim>\<open>Workers\<close> (\<^verbatim>\<open>src/server.rs\<close>, \<^verbatim>\<open>src/spool.rs\<close>): the run of a payload in the steps between its awaits, for
    any number of workers that interleave with the drain, the flush and crashes; what they reply is what
    runs taken as a whole reply.
  \<^item> \<^verbatim>\<open>Serve\<close>, \<^verbatim>\<open>Lifecycle\<close> (\<^verbatim>\<open>serve\<close> of \<^verbatim>\<open>src/server.rs\<close> and \<^verbatim>\<open>src/grpc.rs\<close>, \<^verbatim>\<open>main\<close>): the receivers as they run,
    with connections, requests in progress, workers and the graceful shutdown, as a step relation; the
    locale \<open>receiver\<close> is what they rely on of a handler, interpreted by both handlers.  \<^verbatim>\<open>Lifecycle\<close> puts
    both and the two loops on one shared state, with the shutdown signal and the join.
  \<^item> \<^verbatim>\<open>Wellformed\<close>: the invariant of the application state, from start-up on.
  \<^item> \<^verbatim>\<open>Perf\<close>, \<^verbatim>\<open>Harness\<close> (\<^verbatim>\<open>examples/perf.rs\<close>): the gate harness, whose own encoder the parser reads back, and
    its run, with the totals and the percentiles it reports.
  \<^item> \<^verbatim>\<open>UnitTests\<close>, \<^verbatim>\<open>PolicyTests\<close>: the test modules of the sources, their inputs and assertions as predicates,
    and the lemmas that the model passes them.

  \<^bold>\<open>State.\<close>  Rust structs are records and enums are datatypes with the source's constructors.  A \<open>&mut\<close>
  or an atomic behind \<open>&self\<close> is returned updated.  Where calls overlap (metrics, spool, workers), the
  state of the calls in progress is part of the state and a step relation interleaves them.  Integers
  are words of their width; \<^verbatim>\<open>usize\<close> is \<open>nat\<close> with the bound \<open>2 ^ 64\<close> written out where the code can
  reach it.  Panics are values, so that "no panic" is a theorem.

  \<^bold>\<open>Parameters and what is assumed of them.\<close>  The regex crate (\<open>regex_lib\<close>): matches lie
  inside the text (\<open>matches_inside\<close>) and, only where all matches are claimed to be redacted, the prefilter
  names exactly the patterns with a match (\<open>regex_contract\<close>).  The hash crate (\<open>hasher\<close>): streaming equals one-shot hashing (\<open>streams\<close>), only for the streamed keys.  The HTTP
  client, the clock, the YAML reader, file operations and address parsing are arguments without any
  assumption.  Small instances (\<open>byte_lib\<close>, \<open>poly_hasher\<close>, \<open>up\<close>, \<open>down\<close>) witness the theorems.

  \<^bold>\<open>Bounds.\<close>  There is no fuel: every loop is structural or has a measure.  Buffers are shorter than
  \<open>2 ^ 64\<close> bytes, payloads of the spool shorter than \<open>2 ^ 63\<close> (no allocation is longer), the spool's limit is
  below \<open>2 ^ 63\<close> and its numbers below \<open>2 ^ 64 - 1\<close>.  The percentiles of the harness are for at most \<open>2 ^ 52\<close>
  samples, up to which \<^verbatim>\<open>f64\<close> is exact on the indexes.

  \<^bold>\<open>Not modelled.\<close>  Sockets, HTTP and TLS (tokio, hyper; \<^verbatim>\<open>Serve\<close> says what is relied on), logging, the
  derived JSON rendering of aggregates, the two rates and the printing of the harness, and, of the unit
  tests, the assertions on JSON and the rate measured over a million ids: I/O and glue around the code
  above.  Chunks of an output are byte lists, so sharing of memory with the request is not
  expressed.
\<close>

section \<open>The promise of the agent\<close>

text \<open>Where the output of an accepted request is.\<close>

definition safe_at ::
  "http_client \<Rightarrow> ('rx, 'rs) app_state \<Rightarrow> ('rx, 'rs) app_state \<Rightarrow> assembled_payload \<Rightarrow> bool" where
  "safe_at client state state' output \<longleftrightarrow>
     (case as_forward_endpoint state of
        None \<Rightarrow> True
      | Some endpoint \<Rightarrow>
          (\<exists>status. client (forward_request endpoint output) = Replied status \<and> is_success status) \<or>
          (\<exists>max_bytes spool seq. as_spool state' = Some (max_bytes, spool) \<and>
             RBT.lookup (ss_pending spool) seq = Some (len64 (contiguous output))))"

lemma spool_push_pending:
  "spool_push max_bytes publish_file p s = (Inr seq, s') \<Longrightarrow> RBT.lookup (ss_pending s') seq = Some (len64 p)"
  by (auto simp: spool_push_def split: sum.splits)

lemma accepted_safe:
  assumes "forward_or_spool client publish_file output state = (state', Accepted)" "as_forward_endpoint state = as_forward_endpoint state0"
  shows "safe_at client state0 state' output"
  using assms(1)
proof (cases rule: forward_or_spool_Accepted)
  case (spooled endpoint max_bytes spool seq spool')
  with spool_push_pending[OF spooled(3)] show ?thesis using assms(2) by (auto simp: safe_at_def)
qed (use assms(2) in \<open>auto simp: safe_at_def forward_Ok\<close>)

text \<open>
  C1: The promise of the agent: when a pipeline in service, with a regex library that works as
  documented, is handed a request that parses, then each record
  is sampled by what a receiver would decode of it, the redactions are all matches of all rules in
  the selected fields, and a receiver decodes from the output exactly the kept records with the spans
  in force masked, unless the re-encoding failed and the original bytes are the output.  If the
  request is accepted, that output has been posted to the destination and answered with success, or
  is pending in the spool, or no destination is configured.
\<close>

theorem agent_governs:
  assumes "in_service lib hx (as_pipeline state)" "regex_contract lib"
    and "length raw < 2 ^ 64" "parse_export_logs_request raw [] = Ok recs"
    and "run lib hx t now client publish_file state raw = Some (state', v)"
  shows "\<exists>out env. process lib hx t now (as_pipeline state) raw = Some (as_pipeline state', out) \<and>
    dc_sampling (ev_decisions env) = map (\<lambda>rv. record_verdict hx (pl_policy (as_pipeline state)) (view_record raw rv)) recs \<and>
    dc_redactions (ev_decisions env) = map snd (all_hits lib (pl_rules (as_pipeline state)) raw 0 recs) \<and>
    (if ps_assemble_bypassed (pr_stats out) then contiguous (pr_output out) = raw
     else length (contiguous (pr_output out)) < 2 ^ 64 \<longrightarrow>
       decode_request (contiguous (pr_output out)) = Some (kept_records raw env (pl_masks (as_pipeline state)) 0 recs)) \<and>
    v \<noteq> Malformed \<and> (v = Accepted \<longrightarrow> safe_at client state state' (pr_output out))"
proof -
  note inside = contract_inside[OF assms(2)]
  let ?pl = "as_pipeline state"
  let ?e = "sampled_env t raw recs (verdicts_of hx (pl_policy ?pl) raw recs)"
  obtain pl1 env skipped where r: "redact_step lib now ?pl ?e = (pl1, env, skipped)" by (metis prod.collapse)
  have d: "dc_redactions (ev_decisions ?e) = []" by (simp add: sampled_env_def)
  have hits: "dc_redactions (ev_decisions env) = map snd (all_hits lib (pl_rules ?pl) raw 0 recs)"
    using redact_step_ok[OF in_service_ok[OF assms(1,2)] r] by (simp add: sampled_env_def)
  have "list_all (record_ok raw) recs" using parse_request_post[OF assms(3)] assms(4) by auto
  then have sampled: "dc_sampling (ev_decisions env) = map (\<lambda>rv. record_verdict hx (pl_policy ?pl) (view_record raw rv)) recs"
    using redact_step_effect(3)[OF inside r d] by (simp add: sampled_env_def verdicts_of_records)
  have "recs = (case parse_export_logs_request raw [] of Ok rs \<Rightarrow> rs | _ \<Rightarrow> [])" using assms(4) by simp
  from process_effect[OF assms(3) inside this r] obtain res failed where P: "process lib hx t now ?pl raw =
      Some (pl1, \<lparr>pr_output = res, pr_stats = run_stats raw False (verdicts_of hx (pl_policy ?pl) raw recs) skipped env failed res\<rparr>)"
    "if failed then contiguous res = raw
     else length (contiguous res) < 2 ^ 64 \<longrightarrow> decode_request (contiguous res) = Some (kept_records raw env (pl_masks ?pl) 0 recs)"
    using assms(4) by auto
  from run_Some[OF assms(3,5)] P(1) assms(4) have F: "forward_or_spool client publish_file res
      (state\<lparr>as_pipeline := pl1, as_metrics := metrics_record
        (sample_of (run_stats raw False (verdicts_of hx (pl_policy ?pl) raw recs) skipped env failed res)) (as_metrics state)\<rparr>) = (state', v)"
    by auto
  have "v = Accepted \<longrightarrow> safe_at client state state' res" using accepted_safe F by fastforce
  with P hits sampled forward_or_spool_frame(1,4)[OF F] show ?thesis
    by (intro exI[of _ "\<lparr>pr_output = res, pr_stats = run_stats raw False (verdicts_of hx (pl_policy ?pl) raw recs) skipped env failed res\<rparr>"]
        exI[of _ env]) (simp add: run_stats_def)
qed

theorem agent_governs_witness:
  "\<exists>state' v out (env :: envelope). run byte_lib poly_hasher 0 0 down (\<lambda>seq p. Inr ()) spooling_state at_request = Some (state', v) \<and>
    dc_redactions (ev_decisions env) = map snd (all_hits byte_lib (re_rules body_engine) at_request 0 [hi_view]) \<and>
    (v = Accepted \<longrightarrow> safe_at down spooling_state state' out)"
proof -
  have s: "as_pipeline spooling_state = body_pipeline" by (simp add: spooling_state_def)
  obtain state' v where R: "run byte_lib poly_hasher 0 0 down (\<lambda>seq p. Inr ()) spooling_state at_request = Some (state', v)"
    using run_total[OF request_lengths(1) byte_lib_inside] by blast
  have e: "pl_rules body_pipeline = re_rules body_engine" by (simp add: body_pipeline_def redact_stage_new_def)
  have "in_service byte_lib poly_hasher (as_pipeline spooling_state)" unfolding s by (rule body_in_service)
  from agent_governs[OF this byte_lib_contract request_lengths(1) parse_examples(1) R]
  obtain out :: processed and env :: envelope where "dc_redactions (ev_decisions env) = map snd (all_hits byte_lib (re_rules body_engine) at_request 0 [hi_view])"
    "v = Accepted \<longrightarrow> safe_at down spooling_state state' (pr_output out)" unfolding s e by blast
  with R show ?thesis by blast
qed

end
